(* ===== verification/Prelude.thy ===== *)
theory Prelude
  imports Main "HOL-Library.Word" "HOL-Library.Multiset"
begin

text \<open>
  What the components share: the C integer types, the result type in which a run of C code is
  either a value or an undefined behaviour, checked array access, and the generic lemmas on
  lists, maps and words that the component theories use.
\<close>

unbundle bit_operations_syntax

section \<open>C types\<close>

type_synonym addr = "64 word"   \<comment> \<open>\<open>addr_t\<close> and \<open>arg_t\<close> with \<open>MM64\<close>\<close>
type_synonym u32 = "32 word"    \<comment> \<open>\<open>uint32_t\<close>, \<open>unsigned\<close> and the bits of an \<open>int\<close>\<close>
type_synonym byte = "8 word"    \<comment> \<open>\<open>BYTE\<close>, a \<open>char\<close>\<close>

section \<open>Runs of C code\<close>

text \<open>
  A C function that dereferences, indexes, reads uninitialised storage or converts a number that
  is too large for its variable may have undefined behaviour. The model gives such a run the value \<open>Inl\<close> of the fault and a run that returns
  the value \<open>Inr\<close> of what it returns together with the state it leaves.
\<close>

datatype fault = Null_Deref | Out_Of_Bounds | Uninit_Read | Dangling | Bad_Conversion

type_synonym 'a res = "fault + 'a"

definition rbind :: "'a res \<Rightarrow> ('a \<Rightarrow> 'b res) \<Rightarrow> 'b res" where
  "rbind m f = (case m of Inl e \<Rightarrow> Inl e | Inr x \<Rightarrow> f x)"

text \<open>\<open>returns m P\<close>: the run \<open>m\<close> has no fault and what it returns satisfies \<open>P\<close>.\<close>

definition returns :: "'a res \<Rightarrow> ('a \<Rightarrow> bool) \<Rightarrow> bool" where
  "returns m P = (case m of Inl e \<Rightarrow> False | Inr x \<Rightarrow> P x)"

lemma rbind_simps [simp]: "rbind (Inl e) f = Inl e" "rbind (Inr x) f = f x"
  by (simp_all add: rbind_def)

lemma rbind_assoc: "rbind (rbind m f) g = rbind m (\<lambda>x. rbind (f x) g)"
  by (cases m) simp_all

lemma rbind_Inr_iff: "rbind m f = Inr y \<longleftrightarrow> (\<exists>x. m = Inr x \<and> f x = Inr y)"
  by (cases m) auto

lemma rbind_cong [fundef_cong]:
  "m = m' \<Longrightarrow> (\<And>x. m' = Inr x \<Longrightarrow> f x = f' x) \<Longrightarrow> rbind m f = rbind m' f'"
  by (cases m') auto

lemma returns_simps [simp]: "returns (Inl e) P = False" "returns (Inr x) P = P x"
  by (simp_all add: returns_def)

lemma returns_rbind [simp]: "returns (rbind m f) P = returns m (\<lambda>x. returns (f x) P)"
  by (cases m) simp_all

lemma returns_iff: "returns m P \<longleftrightarrow> (\<exists>x. m = Inr x \<and> P x)"
  by (cases m) auto

lemma returns_mono [elim]: "returns m P \<Longrightarrow> (\<And>x. P x \<Longrightarrow> Q x) \<Longrightarrow> returns m Q"
  by (cases m) auto

lemma returns_conj: "returns m P \<Longrightarrow> returns m Q \<Longrightarrow> returns m (\<lambda>x. P x \<and> Q x)"
  by (cases m) auto

lemma returns_if [simp]: "returns (if b then m else n) P = (if b then returns m P else returns n P)"
  by simp

lemma returnsE:
  assumes "returns m P"
  obtains x where "m = Inr x" and "P x"
  using assms by (cases m) auto

section \<open>Checked array access\<close>

definition arr_get :: "'a list \<Rightarrow> nat \<Rightarrow> 'a res" where
  "arr_get xs i = (if i < length xs then Inr (xs ! i) else Inl Out_Of_Bounds)"

definition arr_set :: "'a list \<Rightarrow> nat \<Rightarrow> 'a \<Rightarrow> 'a list res" where
  "arr_set xs i v = (if i < length xs then Inr (xs[i := v]) else Inl Out_Of_Bounds)"

lemma arr_get_in [simp]: "i < length xs \<Longrightarrow> arr_get xs i = Inr (xs ! i)"
  by (simp add: arr_get_def)

lemma arr_set_in [simp]: "i < length xs \<Longrightarrow> arr_set xs i v = Inr (xs[i := v])"
  by (simp add: arr_set_def)

lemma arr_get_out [simp]: "\<not> i < length xs \<Longrightarrow> arr_get xs i = Inl Out_Of_Bounds"
  by (simp add: arr_get_def)

lemma arr_set_out [simp]: "\<not> i < length xs \<Longrightarrow> arr_set xs i v = Inl Out_Of_Bounds"
  by (simp add: arr_set_def)

lemma arr_get_Inr_iff: "arr_get xs i = Inr v \<longleftrightarrow> i < length xs \<and> v = xs ! i"
  by (auto simp: arr_get_def)

lemma arr_set_Inr_iff: "arr_set xs i v = Inr ys \<longleftrightarrow> i < length xs \<and> ys = xs[i := v]"
  by (auto simp: arr_set_def)

section \<open>Words and bits\<close>

lemma unat_add_no_wrap:
  fixes a b :: "'a::len word"
  assumes "unat a + unat b < 2 ^ LENGTH('a)"
  shows "unat (a + b) = unat a + unat b"
  using assms by (simp add: unat_word_ariths)

lemma unat_mult_no_wrap:
  fixes a b :: "'a::len word"
  assumes "unat a * unat b < 2 ^ LENGTH('a)"
  shows "unat (a * b) = unat a * unat b"
  using assms by (simp add: unat_word_ariths)

lemma and_mask_id:
  fixes w :: "'a::len word"
  assumes "unat w < 2 ^ n"
  shows "w AND mask n = w"
proof (rule bit_word_eqI)
  fix i assume "i < LENGTH('a)"
  have "\<not> bit w i" if "n \<le> i"
  proof -
    have "unat w < 2 ^ i" using assms that
      by (meson less_le_trans one_le_numeral power_increasing)
    then have "\<not> bit (unat w) i" by (simp add: bit_iff_odd)
    then show ?thesis using \<open>i < LENGTH('a)\<close> by (simp add: bit_unsigned_iff)
  qed
  with \<open>i < LENGTH('a)\<close> show "bit (w AND mask n) i \<longleftrightarrow> bit w i"
    by (cases "n \<le> i") (auto simp: bit_simps)
qed

lemma unat_ucast_32_64 [simp]: "unat (ucast (w :: u32) :: addr) = unat w"
proof -
  have "unat w < 2 ^ 32" using unsigned_less [of w] by simp
  then show ?thesis by (simp add: unsigned_ucast_eq take_bit_nat_eq_self)
qed

lemma sint_u32:
  assumes "unat (w :: u32) < 2 ^ 31"
  shows "sint w = int (unat w)"
proof -
  have "sint w = signed_take_bit 31 (uint w)" using sint_uint [of w] by simp
  also have "\<dots> = int (unat w)" unfolding uint_nat
    by (rule signed_take_bit_int_eq_self) (use assms in \<open>simp_all del: of_nat_unat\<close>)
  finally show ?thesis .
qed

lemma unat_sint:
  assumes "0 \<le> sint (w :: u32)"
  shows "unat w = nat (sint w)"
proof -
  have "uint w = sint w mod 2 ^ 32" using uint_word_of_int [of "sint w", where 'a = 32] by simp
  then have "uint w = sint w" using assms sint_lt [of w] by simp
  then show ?thesis by (simp add: unat_eq_nat_uint)
qed

section \<open>Lists\<close>

text \<open>The list with the element at an index removed.\<close>

definition drop_nth :: "nat \<Rightarrow> 'a list \<Rightarrow> 'a list" where
  "drop_nth i xs = take i xs @ drop (Suc i) xs"

lemma length_drop_nth [simp]: "i < length xs \<Longrightarrow> length (drop_nth i xs) = length xs - 1"
  by (simp add: drop_nth_def)

lemma mset_drop_nth: "i < length xs \<Longrightarrow> mset (drop_nth i xs) = mset xs - {# xs ! i #}"
proof -
  assume "i < length xs"
  then have "xs = take i xs @ xs ! i # drop (Suc i) xs" by (simp add: id_take_nth_drop)
  then have "mset xs = add_mset (xs ! i) (mset (drop_nth i xs))"
    by (metis drop_nth_def mset_append mset.simps(2) union_mset_add_mset_right)
  then show ?thesis by simp
qed

lemma add_mset_drop_nth:
  "i < length xs \<Longrightarrow> add_mset (xs ! i) (mset (drop_nth i xs)) = mset xs"
  by (simp add: mset_drop_nth)

lemma set_drop_nth_subset: "set (drop_nth i xs) \<subseteq> set xs"
  by (auto simp: drop_nth_def dest: in_set_takeD in_set_dropD)

lemma distinct_drop_nth: "distinct xs \<Longrightarrow> i < length xs \<Longrightarrow>
    distinct (drop_nth i xs) \<and> set (drop_nth i xs) = set xs - {xs ! i}"
proof -
  assume "distinct xs" and "i < length xs"
  then have "xs = take i xs @ xs ! i # drop (Suc i) xs" by (simp add: id_take_nth_drop)
  with \<open>distinct xs\<close> have "distinct (take i xs @ xs ! i # drop (Suc i) xs)"
      and "set xs = set (take i xs @ xs ! i # drop (Suc i) xs)" by simp_all
  then show ?thesis by (auto simp: drop_nth_def)
qed

end
