(* ===== verification/Os_Types.thy ===== *)
theory Os_Types
  imports Prelude
begin

text \<open>
  The data of the simulator: the structures of \<^verbatim>\<open>include/common.h\<close>,
  \<^verbatim>\<open>include/os-mm.h\<close> and \<^verbatim>\<open>include/queue.h\<close>. A singly linked list of
  the code is a list, in the order of its links; a pointer to a process control block is a
  \<open>ptr\<close> into a heap of blocks, because the queues share them and compare them by address.
\<close>

type_synonym ptr = nat

abbreviation (input) NULL :: ptr where "NULL \<equiv> 0"

section \<open>Instructions and processes\<close>

datatype ins_opcode_t = CALC | ALLOC | FREE | READ | WRITE | KMALLOC | KMEM_CACHE_CREATE
  | KMEM_CACHE_ALLOC | COPY_FROM_USER | COPY_TO_USER | SYSCALL

record inst_t =
  opcode :: ins_opcode_t
  arg_0 :: addr
  arg_1 :: addr
  arg_2 :: addr
  arg_3 :: addr

section \<open>Memory regions, areas and the memory of a process\<close>

text \<open>
  A field that the code leaves uninitialised in a freshly allocated structure is \<open>None\<close>.
  \<open>mode_bit\<close> is never written, and \<open>rg_next\<close> is the list structure, so neither is a field.
\<close>

record vm_rg_struct =
  rg_vmaid :: "int option"
  rg_start :: addr
  rg_end :: addr

record vm_area_struct =
  vm_id :: addr
  vm_start :: addr
  vm_end :: addr
  sbrk :: addr
  vm_freerg_list :: "vm_rg_struct list"

definition PAGING_MAX_SYMTBL_SZ :: nat where "PAGING_MAX_SYMTBL_SZ = 30"

record mm_struct =
  pgd :: "addr list"
  p4d :: "addr list"
  pud :: "addr list"
  pmd :: "addr list"
  pt :: "addr list"
  mmap :: "vm_area_struct list"
  symrgtbl :: "vm_rg_struct list"
  fifo_pgn :: "addr list"

text \<open>
  A physical memory device. \<open>free_fp_list\<close> holds the frame numbers of the list's nodes;
  \<open>fp_term\<close> says that the link after the last of them is the \<open>NULL\<close> that ends the list.
  With \<open>fp_term = False\<close> that link (the head itself, for no node) was never written.
\<close>

record memphy_struct =
  storage :: "byte list"
  maxsz :: int
  rdmflg :: bool
  cursor :: int
  free_fp_list :: "addr list"
  fp_term :: bool

text \<open>
  What the memory functions reach through \<open>caller->krnl\<close>. \<open>mm\<close> belongs to the process and
  may be \<open>NULL\<close>; the two devices are shared by all processes.
\<close>

record krnl_t =
  mm :: "mm_struct option"
  mram :: memphy_struct
  active_mswp :: memphy_struct

text \<open>
  A process control block. \<open>krnl_mm\<close> is \<open>krnl->mm\<close>; \<open>krnl_queues\<close> says that
  \<open>krnl->running_list\<close> and \<open>krnl->mlq_ready_queue\<close> point to the scheduler's queues, which
  \<open>add_proc\<close> and \<open>put_proc\<close> make them do; before that they are \<open>NULL\<close>.
\<close>

record pcb_t =
  pid :: u32
  priority :: u32
  code :: "inst_t list"
  regs :: "addr list"
  pc :: u32
  prio :: u32
  bp :: u32
  krnl_mm :: "mm_struct option"
  krnl_queues :: bool

type_synonym heap = "ptr \<rightharpoonup> pcb_t"

definition deref :: "heap \<Rightarrow> ptr \<Rightarrow> pcb_t res" where
  "deref h p = (if p = NULL then Inl Null_Deref
                else case h p of None \<Rightarrow> Inl Dangling | Some x \<Rightarrow> Inr x)"

lemma deref_Some [simp]: "p \<noteq> NULL \<Longrightarrow> h p = Some x \<Longrightarrow> deref h p = Inr x"
  by (simp add: deref_def)

lemma deref_Inr_iff: "deref h p = Inr x \<longleftrightarrow> p \<noteq> NULL \<and> h p = Some x"
  by (simp add: deref_def split: option.splits)

text \<open>The pointers of a list can be followed: none is \<open>NULL\<close> and none was freed.\<close>

definition live :: "heap \<Rightarrow> ptr list \<Rightarrow> bool" where
  "live h ps \<longleftrightarrow> (\<forall>p \<in> set ps. p \<noteq> NULL \<and> h p \<noteq> None)"

lemma live_simps [simp]:
  "live h []"
  "live h (p # ps) \<longleftrightarrow> p \<noteq> NULL \<and> h p \<noteq> None \<and> live h ps"
  "live h (ps @ qs) \<longleftrightarrow> live h ps \<and> live h qs"
  by (auto simp: live_def)

lemma live_subset: "live h ps \<Longrightarrow> set qs \<subseteq> set ps \<Longrightarrow> live h qs"
  by (auto simp: live_def)

lemma live_nth: "live h ps \<Longrightarrow> i < length ps \<Longrightarrow> ps ! i \<noteq> NULL \<and> (\<exists>x. h (ps ! i) = Some x)"
  by (auto simp: live_def)

lemma live_deref: "live h ps \<Longrightarrow> i < length ps \<Longrightarrow> deref h (ps ! i) = Inr (the (h (ps ! i)))"
  by (auto simp: live_def)

text \<open>A block with a given \<open>pid\<close>, \<open>priority\<close> and \<open>prio\<close>, for concrete runs.\<close>

definition sample_pcb :: "u32 \<Rightarrow> u32 \<Rightarrow> u32 \<Rightarrow> pcb_t" where
  "sample_pcb i pr l = \<lparr>pid = i, priority = pr, code = [], regs = replicate 10 0, pc = 0, prio = l,
     bp = 1024, krnl_mm = None, krnl_queues = True\<rparr>"

end
