(* ===== verification/Paging_Bits.thy ===== *)
theory Paging_Bits
  imports Prelude
begin

text \<open>
  The bit-level macros of \<^verbatim>\<open>include/bitops.h\<close>, \<^verbatim>\<open>include/mm.h\<close> and
  \<^verbatim>\<open>include/mm64.h\<close>, the page table entries built from them and the split of an
  address into page number, offset and the five directory indices of \<^verbatim>\<open>src/mm64.c\<close>.
  \<open>CONFIG64\<close> is not defined, so \<open>BITS_PER_LONG\<close> is 32 and every mask of \<^verbatim>\<open>mm.h\<close> is
  an \<open>unsigned int\<close>; combined with an \<open>addr_t\<close> it is zero-extended, which is what the
  \<open>ucast\<close>s write out.
\<close>

section \<open>Macros\<close>

definition BITS_PER_LONG :: nat where "BITS_PER_LONG = 32"

definition DIV_ROUND_UP :: "'a::len word \<Rightarrow> 'a word \<Rightarrow> 'a word" where
  "DIV_ROUND_UP n d = (n + d - 1) div d"

definition BIT :: "nat \<Rightarrow> u32" where
  "BIT nr = push_bit nr 1"

definition GENMASK :: "nat \<Rightarrow> nat \<Rightarrow> u32" where
  "GENMASK h l = push_bit l (NOT 0) AND drop_bit (BITS_PER_LONG - h - 1) (NOT 0)"

definition GENMASK64 :: "nat \<Rightarrow> nat \<Rightarrow> addr" where
  "GENMASK64 h l = push_bit l (NOT 0) AND drop_bit (64 - h - 1) (NOT 0)"

definition NBITS2 :: "u32 \<Rightarrow> nat" where
  "NBITS2 n = (if n AND 2 \<noteq> 0 then 1 else 0)"
definition NBITS4 :: "u32 \<Rightarrow> nat" where
  "NBITS4 n = (if n AND 0xC \<noteq> 0 then 2 + NBITS2 (drop_bit 2 n) else NBITS2 n)"
definition NBITS8 :: "u32 \<Rightarrow> nat" where
  "NBITS8 n = (if n AND 0xF0 \<noteq> 0 then 4 + NBITS4 (drop_bit 4 n) else NBITS4 n)"
definition NBITS16 :: "u32 \<Rightarrow> nat" where
  "NBITS16 n = (if n AND 0xFF00 \<noteq> 0 then 8 + NBITS8 (drop_bit 8 n) else NBITS8 n)"
definition NBITS32 :: "u32 \<Rightarrow> nat" where
  "NBITS32 n = (if n AND 0xFFFF0000 \<noteq> 0 then 16 + NBITS16 (drop_bit 16 n) else NBITS16 n)"
definition NBITS :: "u32 \<Rightarrow> nat" where
  "NBITS n = (if n = 0 then 0 else NBITS32 n)"

definition SETBIT :: "addr \<Rightarrow> u32 \<Rightarrow> addr" where
  "SETBIT v m = v OR ucast m"

definition CLRBIT :: "addr \<Rightarrow> u32 \<Rightarrow> addr" where
  "CLRBIT v m = v AND ucast (NOT m)"

definition SETVAL :: "addr \<Rightarrow> addr \<Rightarrow> u32 \<Rightarrow> nat \<Rightarrow> addr" where
  "SETVAL v value m offst = (v AND ucast (NOT m)) OR (push_bit offst value AND ucast m)"

definition GETVAL :: "'a::len word \<Rightarrow> u32 \<Rightarrow> nat \<Rightarrow> 'a word" where
  "GETVAL v m offst = drop_bit offst (v AND ucast m)"

definition OVERLAP :: "addr \<Rightarrow> addr \<Rightarrow> addr \<Rightarrow> addr \<Rightarrow> bool" where
  "OVERLAP x1 x2 y1 y2 \<longleftrightarrow> x1 < y2 \<and> y1 < x2"

section \<open>Paging constants\<close>

definition PAGING_PAGESZ :: nat where "PAGING_PAGESZ = 256"
definition PAGING_CPU_BUS_WIDTH :: nat where "PAGING_CPU_BUS_WIDTH = 22"
definition PAGING_MAX_PGN :: nat where
  "PAGING_MAX_PGN = unat (DIV_ROUND_UP (BIT PAGING_CPU_BUS_WIDTH) 256)"
definition PAGING64_PAGESZ :: addr where "PAGING64_PAGESZ = 4096"
definition PAGING64_MAX_PGN :: nat where
  "PAGING64_MAX_PGN = unat (DIV_ROUND_UP (push_bit 21 1) PAGING64_PAGESZ)"
definition PAGING64_PAGE_ALIGNSZ :: "addr \<Rightarrow> addr" where
  "PAGING64_PAGE_ALIGNSZ sz = DIV_ROUND_UP sz PAGING64_PAGESZ * PAGING64_PAGESZ"

definition PAGING_PTE_PRESENT_MASK :: u32 where "PAGING_PTE_PRESENT_MASK = BIT 31"
definition PAGING_PTE_SWAPPED_MASK :: u32 where "PAGING_PTE_SWAPPED_MASK = BIT 30"
definition PAGING_PTE_DIRTY_MASK :: u32 where "PAGING_PTE_DIRTY_MASK = BIT 28"
definition PAGING_PTE_FPN_MASK :: u32 where "PAGING_PTE_FPN_MASK = GENMASK 12 0"
definition PAGING_PTE_SWPTYP_MASK :: u32 where "PAGING_PTE_SWPTYP_MASK = GENMASK 4 0"
definition PAGING_PTE_SWPOFF_MASK :: u32 where "PAGING_PTE_SWPOFF_MASK = GENMASK 25 5"
definition PAGING_ADDR_PGN_LOBIT :: nat where "PAGING_ADDR_PGN_LOBIT = NBITS 256"
definition PAGING_ADDR_FPN_LOBIT :: nat where "PAGING_ADDR_FPN_LOBIT = NBITS 256"
definition PAGING_OFFST_MASK :: u32 where "PAGING_OFFST_MASK = GENMASK (NBITS 256 - 1) 0"
definition PAGING_PGN_MASK :: u32 where
  "PAGING_PGN_MASK = GENMASK (PAGING_CPU_BUS_WIDTH - 1) PAGING_ADDR_PGN_LOBIT"

definition PAGING_OFFST :: "'a::len word \<Rightarrow> 'a word" where
  "PAGING_OFFST x = GETVAL x PAGING_OFFST_MASK 0"
definition PAGING_PGN :: "'a::len word \<Rightarrow> 'a word" where
  "PAGING_PGN x = GETVAL x PAGING_PGN_MASK PAGING_ADDR_PGN_LOBIT"
definition PAGING_FPN :: "u32 \<Rightarrow> u32" where
  "PAGING_FPN x = GETVAL x PAGING_PTE_FPN_MASK 0"
definition PAGING_SWP :: "u32 \<Rightarrow> u32" where
  "PAGING_SWP pte = drop_bit 5 (pte AND PAGING_PTE_SWPOFF_MASK)"
definition PAGING_PAGE_PRESENT :: "u32 \<Rightarrow> bool" where
  "PAGING_PAGE_PRESENT pte \<longleftrightarrow> pte AND PAGING_PTE_PRESENT_MASK \<noteq> 0"
definition PAGE_SWAPPED :: "u32 \<Rightarrow> bool" where
  "PAGE_SWAPPED pte \<longleftrightarrow> pte AND PAGING_PTE_SWAPPED_MASK \<noteq> 0"

section \<open>Page table entries\<close>

text \<open>
  \<open>init_pte\<close>: the status and the entry left in \<open>*pte\<close>. The \<open>int\<close> parameters
  \<open>pre\<close>, \<open>drt\<close>, \<open>swp\<close> are only compared with 0; \<open>drt\<close> is not read.
\<close>

definition init_pte :: "bool \<Rightarrow> addr \<Rightarrow> bool \<Rightarrow> bool \<Rightarrow> u32 \<Rightarrow> addr \<Rightarrow> int \<times> addr" where
  "init_pte pre fpn drt swp swptyp swpoff =
     (let pte = 0 in
      if pre then
        (if \<not> swp then
           (if fpn = 0 then (-1, pte)
            else
              (let pte = SETBIT pte PAGING_PTE_PRESENT_MASK;
                   pte = CLRBIT pte PAGING_PTE_SWAPPED_MASK;
                   pte = CLRBIT pte PAGING_PTE_DIRTY_MASK
               in (0, SETVAL pte fpn PAGING_PTE_FPN_MASK 0)))
         else
           (let pte = CLRBIT pte PAGING_PTE_PRESENT_MASK;
                pte = SETBIT pte PAGING_PTE_SWAPPED_MASK;
                pte = CLRBIT pte PAGING_PTE_DIRTY_MASK;
                pte = SETVAL pte (ucast swptyp) PAGING_PTE_SWPTYP_MASK 0
            in (0, SETVAL pte swpoff PAGING_PTE_SWPOFF_MASK 5)))
      else (0, pte))"

text \<open>The new entry that \<open>pte_set_swap\<close> and \<open>pte_set_fpn\<close> store over the old one.\<close>

definition swap_entry :: "addr \<Rightarrow> u32 \<Rightarrow> addr \<Rightarrow> addr" where
  "swap_entry pte swptyp swpoff =
     (let pte = CLRBIT pte PAGING_PTE_PRESENT_MASK;
          pte = SETBIT pte PAGING_PTE_SWAPPED_MASK;
          pte = SETVAL pte (ucast swptyp) PAGING_PTE_SWPTYP_MASK 0
      in SETVAL pte swpoff PAGING_PTE_SWPOFF_MASK 5)"

definition fpn_entry :: "addr \<Rightarrow> addr \<Rightarrow> addr" where
  "fpn_entry pte fpn =
     (let pte = SETBIT pte PAGING_PTE_PRESENT_MASK;
          pte = CLRBIT pte PAGING_PTE_SWAPPED_MASK
      in SETVAL pte fpn PAGING_PTE_FPN_MASK 0)"

text \<open>
  How every reader of the page table interprets an entry (\<open>pg_getpage\<close>,
  \<open>free_pcb_memph\<close>): cut to \<open>uint32_t\<close>, first the present bit, then the swapped bit.
\<close>

datatype pte_view = Unmapped | Present nat | Swapped nat

definition pte_decode :: "addr \<Rightarrow> pte_view" where
  "pte_decode e =
     (let pte = ucast e in
      if PAGING_PAGE_PRESENT pte then Present (unat (PAGING_FPN pte))
      else if PAGE_SWAPPED pte then Swapped (unat (PAGING_SWP pte))
      else Unmapped)"

text \<open>\<open>get_pd_from_address\<close> and \<open>get_pd_from_pagenum\<close>: the five directory indices.\<close>

definition get_pd_from_address :: "addr \<Rightarrow> addr \<times> addr \<times> addr \<times> addr \<times> addr" where
  "get_pd_from_address a =
     (drop_bit 48 (a AND GENMASK64 56 48),
      drop_bit 39 (a AND GENMASK64 47 39),
      drop_bit 30 (a AND GENMASK64 38 30),
      drop_bit 21 (a AND GENMASK64 29 21),
      drop_bit 12 (a AND GENMASK64 20 12))"

definition get_pd_from_pagenum :: "addr \<Rightarrow> addr \<times> addr \<times> addr \<times> addr \<times> addr" where
  "get_pd_from_pagenum pgn = get_pd_from_address (push_bit 12 pgn)"

section \<open>Bits of the masks\<close>

lemma bit_BIT [simp]: "bit (BIT k) i \<longleftrightarrow> i = k \<and> k < 32"
  by (auto simp: BIT_def bit_simps)

lemma bit_GENMASK [simp]: "h < 32 \<Longrightarrow> bit (GENMASK h l) i \<longleftrightarrow> l \<le> i \<and> i \<le> h"
  by (auto simp: GENMASK_def BITS_PER_LONG_def bit_simps)

lemma bit_GENMASK64 [simp]: "h < 64 \<Longrightarrow> bit (GENMASK64 h l) i \<longleftrightarrow> l \<le> i \<and> i \<le> h"
  by (auto simp: GENMASK64_def bit_simps)

lemma NBITS_256 [simp]: "NBITS 256 = 8"
  by (simp add: NBITS_def NBITS32_def NBITS16_def NBITS8_def NBITS4_def NBITS2_def)

lemma PAGING_MAX_PGN_eq: "PAGING_MAX_PGN = 16384"
  by (simp add: PAGING_MAX_PGN_def DIV_ROUND_UP_def BIT_def PAGING_CPU_BUS_WIDTH_def)

lemma PAGING64_MAX_PGN_eq: "PAGING64_MAX_PGN = 512"
  by (simp add: PAGING64_MAX_PGN_def DIV_ROUND_UP_def PAGING64_PAGESZ_def)

lemmas mask_defs = PAGING_PTE_PRESENT_MASK_def PAGING_PTE_SWAPPED_MASK_def
  PAGING_PTE_DIRTY_MASK_def PAGING_PTE_FPN_MASK_def PAGING_PTE_SWPTYP_MASK_def
  PAGING_PTE_SWPOFF_MASK_def PAGING_OFFST_MASK_def PAGING_PGN_MASK_def
  PAGING_ADDR_PGN_LOBIT_def PAGING_ADDR_FPN_LOBIT_def PAGING_CPU_BUS_WIDTH_def

lemmas val_defs = SETBIT_def CLRBIT_def SETVAL_def GETVAL_def

section \<open>Decoding the entries\<close>

lemma and_BIT: "k < 32 \<Longrightarrow> w AND BIT k \<noteq> 0 \<longleftrightarrow> bit w k"
proof -
  assume "k < 32"
  have "w AND BIT k = (if bit w k then BIT k else 0)"
    using \<open>k < 32\<close> by (intro bit_word_eqI) (auto simp: bit_simps)
  moreover have "bit (BIT k) k" using \<open>k < 32\<close> by simp
  then have "BIT k \<noteq> 0" by (metis bit_0_eq bot_apply bot_bool_def)
  ultimately show ?thesis by simp
qed

lemma PAGING_PAGE_PRESENT_bit: "PAGING_PAGE_PRESENT pte \<longleftrightarrow> bit pte 31"
  by (simp add: PAGING_PAGE_PRESENT_def PAGING_PTE_PRESENT_MASK_def and_BIT)

lemma PAGE_SWAPPED_bit: "PAGE_SWAPPED pte \<longleftrightarrow> bit pte 30"
  by (simp add: PAGE_SWAPPED_def PAGING_PTE_SWAPPED_MASK_def and_BIT)

lemma PAGING_FPN_take_bit: "PAGING_FPN pte = take_bit 13 pte"
  by (rule bit_word_eqI) (auto simp: PAGING_FPN_def mask_defs val_defs bit_simps)

lemma PAGING_SWP_take_bit: "PAGING_SWP pte = take_bit 21 (drop_bit 5 pte)"
  by (rule bit_word_eqI) (auto simp: PAGING_SWP_def mask_defs bit_simps)

lemma pte_decode_0 [simp]: "pte_decode 0 = Unmapped"
  by (simp add: pte_decode_def PAGING_PAGE_PRESENT_bit PAGE_SWAPPED_bit)

lemma fpn_entry_present: "PAGING_PAGE_PRESENT (ucast (fpn_entry e fpn))"
  by (simp add: PAGING_PAGE_PRESENT_bit fpn_entry_def Let_def mask_defs val_defs bit_simps)

lemma fpn_entry_not_swapped: "\<not> PAGE_SWAPPED (ucast (fpn_entry e fpn))"
  by (simp add: PAGE_SWAPPED_bit fpn_entry_def Let_def mask_defs val_defs bit_simps)

lemma fpn_entry_fpn: "PAGING_FPN (ucast (fpn_entry e fpn)) = take_bit 13 (ucast fpn)"
  unfolding PAGING_FPN_take_bit
  by (rule bit_word_eqI) (auto simp: fpn_entry_def Let_def mask_defs val_defs bit_simps)

lemma swap_entry_not_present: "\<not> PAGING_PAGE_PRESENT (ucast (swap_entry e t off))"
  by (simp add: PAGING_PAGE_PRESENT_bit swap_entry_def Let_def mask_defs val_defs bit_simps)

lemma swap_entry_swapped: "PAGE_SWAPPED (ucast (swap_entry e t off))"
  by (simp add: PAGE_SWAPPED_bit swap_entry_def Let_def mask_defs val_defs bit_simps)

lemma swap_entry_swp: "PAGING_SWP (ucast (swap_entry e t off)) = take_bit 21 (ucast off)"
  unfolding PAGING_SWP_take_bit
  by (rule bit_word_eqI) (auto simp: swap_entry_def Let_def mask_defs val_defs bit_simps)

lemma unat_take_bit_ucast:
  fixes w :: addr
  assumes "n \<le> 32"
  shows "unat (take_bit n (ucast w :: u32)) = unat w mod 2 ^ n"
proof -
  have "unat (take_bit n (ucast w :: u32)) = take_bit n (unat (ucast w :: u32))"
    by (simp add: unsigned_take_bit_eq)
  also have "unat (ucast w :: u32) = take_bit 32 (unat w)"
    by (simp add: unsigned_ucast_eq)
  finally have "unat (take_bit n (ucast w :: u32)) = take_bit (min n 32) (unat w)"
    by (simp only: take_bit_take_bit)
  then show ?thesis using assms by (simp only: min_absorb1 take_bit_eq_mod)
qed

lemma decode_fpn_entry: "pte_decode (fpn_entry e fpn) = Present (unat fpn mod 2 ^ 13)"
  by (simp add: pte_decode_def fpn_entry_present fpn_entry_fpn unat_take_bit_ucast)

lemma decode_swap_entry: "pte_decode (swap_entry e t off) = Swapped (unat off mod 2 ^ 21)"
  by (simp add: pte_decode_def swap_entry_not_present swap_entry_swapped swap_entry_swp
      unat_take_bit_ucast)

lemma pte_decode_bounds:
  "pte_decode e = Present f \<Longrightarrow> f < 2 ^ 13"
  "pte_decode e = Swapped f \<Longrightarrow> f < 2 ^ 21"
  using take_bit_nat_less_exp [of 13 "unat (ucast e :: u32)"]
    take_bit_nat_less_exp [of 21 "unat (drop_bit 5 (ucast e :: u32))"]
  by (auto simp: pte_decode_def PAGING_FPN_take_bit PAGING_SWP_take_bit unsigned_take_bit_eq
      Let_def split: if_splits)

section \<open>Addresses\<close>

lemma PAGING_PGN_unat:
  fixes x :: "'a::len word"
  assumes "32 \<le> LENGTH('a)"
  shows "unat (PAGING_PGN x) = unat x div 256 mod 16384"
proof -
  have "PAGING_PGN x = take_bit 14 (drop_bit 8 x)"
    using assms by (intro bit_word_eqI) (auto simp: PAGING_PGN_def mask_defs val_defs bit_simps)
  then have "unat (PAGING_PGN x) = unat (take_bit 14 (drop_bit 8 x))" by (rule arg_cong)
  also have "\<dots> = take_bit 14 (drop_bit 8 (unat x))"
    using assms by (simp only: unsigned_take_bit_eq unsigned_drop_bit_eq) (simp add: take_bit_eq_mod)
  finally show ?thesis by (simp add: take_bit_eq_mod drop_bit_eq_div)
qed

lemma PAGING_OFFST_unat:
  fixes x :: "'a::len word"
  assumes "32 \<le> LENGTH('a)"
  shows "unat (PAGING_OFFST x) = unat x mod 256"
proof -
  have "PAGING_OFFST x = take_bit 8 x"
    using assms by (intro bit_word_eqI) (auto simp: PAGING_OFFST_def mask_defs val_defs bit_simps)
  then have "unat (PAGING_OFFST x) = unat (take_bit 8 x)" by (rule arg_cong)
  also have "\<dots> = take_bit 8 (unat x)" by (rule unsigned_take_bit_eq)
  finally show ?thesis by (simp add: take_bit_eq_mod)
qed

lemma get_pd_take_bit:
  "get_pd_from_address a =
     (take_bit 9 (drop_bit 48 a), take_bit 9 (drop_bit 39 a), take_bit 9 (drop_bit 30 a),
      take_bit 9 (drop_bit 21 a), take_bit 9 (drop_bit 12 a))"
  unfolding get_pd_from_address_def prod.inject
  by (intro conjI bit_word_eqI) (auto simp: bit_simps)

text \<open>
  Page table entries round-trip: whatever an entry held, reading it back after
  \<open>pte_set_fpn\<close> gives the frame it was given, and after \<open>pte_set_swap\<close> the swap
  frame, as long as the frame number fits its field (13 bits for RAM, 21 bits for swap);
  larger frame numbers are cut to the field.
\<close>

lemma pte_roundtrip:
  "pte_decode (fpn_entry e fpn) = Present (unat fpn mod 8192)
   \<and> pte_decode (swap_entry e t off) = Swapped (unat off mod 2097152)
   \<and> pte_decode (snd (init_pte True fpn d False t off))
       = (if fpn = 0 then Unmapped else Present (unat fpn mod 8192))
   \<and> pte_decode (snd (init_pte True fpn d True t off)) = Swapped (unat off mod 2097152)"
proof -
  have "CLRBIT w PAGING_PTE_DIRTY_MASK = w" if "\<not> bit w 28" "\<And>i. 32 \<le> i \<Longrightarrow> \<not> bit w i" for w
    using that by (intro bit_word_eqI) (force simp: mask_defs val_defs bit_simps intro: ccontr)
  then have "init_pte True fpn d False t off = (if fpn = 0 then (-1, 0) else (0, fpn_entry 0 fpn))"
    and "snd (init_pte True fpn d True t off) = swap_entry 0 t off"
    by (simp_all add: init_pte_def fpn_entry_def swap_entry_def Let_def mask_defs val_defs bit_simps)
  then show ?thesis by (simp add: decode_fpn_entry decode_swap_entry)
qed

text \<open>
  \<open>get_pd_from_address\<close> loses nothing of a 57-bit address but its page offset: each of
  the five indices is below 512 and together with the 12 offset bits they give the address back.
\<close>

lemma get_pd_recompose:
  fixes a :: addr
  assumes "unat a < 2 ^ 57"
  shows "case get_pd_from_address a of (pgd, p4d, pud, pmd, pt) \<Rightarrow>
      pgd < 512 \<and> p4d < 512 \<and> pud < 512 \<and> pmd < 512 \<and> pt < 512 \<and>
      push_bit 48 pgd OR push_bit 39 p4d OR push_bit 30 pud OR push_bit 21 pmd
        OR push_bit 12 pt OR take_bit 12 a = a"
proof -
  have lt: "take_bit 9 w < (512 :: addr)" for w :: addr
    by (simp add: word_less_nat_alt unsigned_take_bit_eq take_bit_nat_less_exp [of 9, simplified])
  have a57: "\<not> bit a i" if "57 \<le> i" for i
    using and_mask_id [OF assms] that by (metis bit_and_iff bit_mask_iff not_le)
  have "push_bit 48 (take_bit 9 (drop_bit 48 a)) OR push_bit 39 (take_bit 9 (drop_bit 39 a))
      OR push_bit 30 (take_bit 9 (drop_bit 30 a)) OR push_bit 21 (take_bit 9 (drop_bit 21 a))
      OR push_bit 12 (take_bit 9 (drop_bit 12 a)) OR take_bit 12 a = a"
  proof (rule bit_word_eqI)
    fix i assume "i < LENGTH(64)"
    then have "i < 64" by simp
    consider "i < 12" | "12 \<le> i \<and> i < 21" | "21 \<le> i \<and> i < 30" | "30 \<le> i \<and> i < 39"
      | "39 \<le> i \<and> i < 48" | "48 \<le> i \<and> i < 57" | "57 \<le> i" by linarith
    then show "bit (push_bit 48 (take_bit 9 (drop_bit 48 a))
      OR push_bit 39 (take_bit 9 (drop_bit 39 a))
      OR push_bit 30 (take_bit 9 (drop_bit 30 a)) OR push_bit 21 (take_bit 9 (drop_bit 21 a))
      OR push_bit 12 (take_bit 9 (drop_bit 12 a)) OR take_bit 12 a) i \<longleftrightarrow> bit a i"
      using \<open>i < 64\<close> a57 by cases (auto simp: bit_simps)
  qed
  then show ?thesis by (simp add: get_pd_take_bit lt)
qed

end
