(* ===== verification/Memphy.thy ===== *)
theory Memphy
  imports Os_Types Paging_Bits
begin

text \<open>
  \<^verbatim>\<open>src/mm-memphy.c\<close>: the physical memory devices (RAM and swap), byte access to them and
  the list of their free frames; and the page copy \<open>__swap_cp_page\<close> of \<^verbatim>\<open>src/mm64.c\<close>
  between two devices. A device argument is the device itself: every caller passes
  \<open>krnl->mram\<close> or \<open>krnl->active_mswp\<close>, which point to the devices of \<open>main\<close>, so the tests
  \<open>mp == NULL\<close> never fire. A function that returns 0 with a value in an out-parameter or -1
  without one is modelled with an \<open>option\<close>.
\<close>

section \<open>Byte access\<close>

text \<open>The loop of \<open>MEMPHY_mv_csr\<close>; its operands are not negative, so \<open>%\<close> is \<open>mod\<close>.\<close>

function mv_csr_loop :: "nat \<Rightarrow> int \<Rightarrow> int \<Rightarrow> nat \<Rightarrow> int" where
  "mv_csr_loop numstep cur mx offset =
     (if numstep < offset \<and> int numstep < mx
      then mv_csr_loop (numstep + 1) ((cur + 1) mod mx) mx offset else cur)"
  by pat_completeness auto
termination by (relation "measure (\<lambda>(n, cur, mx, off). off - n)") auto

declare mv_csr_loop.simps [simp del]

definition MEMPHY_mv_csr :: "memphy_struct \<Rightarrow> addr \<Rightarrow> memphy_struct" where
  "MEMPHY_mv_csr mp offset = mp\<lparr>cursor := mv_csr_loop 0 0 (maxsz mp) (unat offset)\<rparr>"

definition MEMPHY_seq_read :: "memphy_struct \<Rightarrow> addr \<Rightarrow> (byte option \<times> memphy_struct) res" where
  "MEMPHY_seq_read mp a =
     (if rdmflg mp then Inr (None, mp)
      else (let mp = MEMPHY_mv_csr mp a in
            rbind (arr_get (storage mp) (unat a)) (\<lambda>v. Inr (Some v, mp))))"

definition MEMPHY_read :: "memphy_struct \<Rightarrow> addr \<Rightarrow> (byte option \<times> memphy_struct) res" where
  "MEMPHY_read mp a =
     (if rdmflg mp then rbind (arr_get (storage mp) (unat a)) (\<lambda>v. Inr (Some v, mp))
      else MEMPHY_seq_read mp a)"

definition MEMPHY_seq_write :: "memphy_struct \<Rightarrow> addr \<Rightarrow> byte \<Rightarrow> (int \<times> memphy_struct) res" where
  "MEMPHY_seq_write mp a v =
     (if rdmflg mp then Inr (-1, mp)
      else (let mp = MEMPHY_mv_csr mp a in
            rbind (arr_set (storage mp) (unat a) v) (\<lambda>st. Inr (0, mp\<lparr>storage := st\<rparr>))))"

definition MEMPHY_write :: "memphy_struct \<Rightarrow> addr \<Rightarrow> byte \<Rightarrow> (int \<times> memphy_struct) res" where
  "MEMPHY_write mp a v =
     (if rdmflg mp then rbind (arr_set (storage mp) (unat a) v) (\<lambda>st. Inr (0, mp\<lparr>storage := st\<rparr>))
      else MEMPHY_seq_write mp a v)"

section \<open>Frames\<close>

text \<open>
  \<open>MEMPHY_format\<close> leaves the list alone when the device is smaller than a page (a quotient
  that is not positive, whichever way it rounds). The \<open>fp_next\<close> of its first node is written
  only when a second node follows.
\<close>

definition MEMPHY_format :: "memphy_struct \<Rightarrow> int \<Rightarrow> int \<times> memphy_struct" where
  "MEMPHY_format mp pagesz =
     (let numfp = maxsz mp div pagesz in
      if numfp \<le> 0 then (-1, mp)
      else (0, mp\<lparr>free_fp_list := map word_of_nat [0..<nat numfp], fp_term := (numfp > 1)\<rparr>))"

definition MEMPHY_get_freefp :: "memphy_struct \<Rightarrow> (addr option \<times> memphy_struct) res" where
  "MEMPHY_get_freefp mp =
     (case free_fp_list mp of
        [] \<Rightarrow> if fp_term mp then Inr (None, mp) else Inl Uninit_Read
      | f # fs \<Rightarrow> Inr (Some f, mp\<lparr>free_fp_list := fs\<rparr>))"

definition MEMPHY_put_freefp :: "memphy_struct \<Rightarrow> addr \<Rightarrow> memphy_struct" where
  "MEMPHY_put_freefp mp fpn = mp\<lparr>free_fp_list := fpn # free_fp_list mp\<rparr>"

text \<open>
  \<open>init_memphy\<close> on an uninitialised structure \<open>mp\<close>. The size is an \<open>addr_t\<close>, but \<open>maxsz\<close>
  is an \<open>int\<close>: the conversion keeps the low 32 bits, read as signed.
\<close>

definition init_memphy :: "memphy_struct \<Rightarrow> addr \<Rightarrow> bool \<Rightarrow> memphy_struct" where
  "init_memphy mp max_size randomflg =
     (let mp = mp\<lparr>storage := replicate (unat max_size) 0, maxsz := sint (ucast max_size :: u32)\<rparr>;
          mp = snd (MEMPHY_format mp (int PAGING_PAGESZ));
          mp = mp\<lparr>rdmflg := randomflg\<rparr>
      in if \<not> rdmflg mp then mp\<lparr>cursor := 0\<rparr> else mp)"

text \<open>A structure whose fields were never written.\<close>

definition uninit_memphy :: memphy_struct where
  "uninit_memphy = \<lparr>storage = [], maxsz = 0, rdmflg = False, cursor = 0, free_fp_list = [],
     fp_term = False\<rparr>"

section \<open>Copying a page\<close>

text \<open>
  The loop of \<open>__swap_cp_page\<close> over any two devices with a byte read and a byte write. A read
  that returns no value leaves \<open>data\<close> uninitialised; the status of the write is ignored.
\<close>

function copy_cells :: "('s \<Rightarrow> addr \<Rightarrow> (byte option \<times> 's) res) \<Rightarrow>
    ('d \<Rightarrow> addr \<Rightarrow> byte \<Rightarrow> (int \<times> 'd) res) \<Rightarrow> 's \<Rightarrow> addr \<Rightarrow> 'd \<Rightarrow> addr \<Rightarrow> nat \<Rightarrow> ('s \<times> 'd) res" where
  "copy_cells rd wr src srcfpn dst dstfpn cellidx =
     (if cellidx < PAGING_PAGESZ then
        rbind (rd src (srcfpn * word_of_nat PAGING_PAGESZ + word_of_nat cellidx)) (\<lambda>(data, src).
        case data of
          None \<Rightarrow> Inl Uninit_Read
        | Some v \<Rightarrow>
            rbind (wr dst (dstfpn * word_of_nat PAGING_PAGESZ + word_of_nat cellidx) v) (\<lambda>(_, dst).
              copy_cells rd wr src srcfpn dst dstfpn (cellidx + 1)))
      else Inr (src, dst))"
  by pat_completeness auto
termination by (relation "measure (\<lambda>(rd, wr, s, sf, d, df, i). PAGING_PAGESZ - i)") auto

declare copy_cells.simps [simp del]

definition swap_cp_page ::
    "memphy_struct \<Rightarrow> addr \<Rightarrow> memphy_struct \<Rightarrow> addr \<Rightarrow> (memphy_struct \<times> memphy_struct) res" where
  "swap_cp_page mpsrc srcfpn mpdst dstfpn =
     copy_cells MEMPHY_read MEMPHY_write mpsrc srcfpn mpdst dstfpn 0"

section \<open>The interface of a byte device\<close>

text \<open>The byte of frame \<open>f\<close> at offset \<open>i\<close>.\<close>

definition cell :: "byte list \<Rightarrow> nat \<Rightarrow> nat \<Rightarrow> byte" where
  "cell bs f i = bs ! (256 * f + i)"

definition in_frames :: "nat \<Rightarrow> byte list \<Rightarrow> bool" where
  "in_frames f bs \<longleftrightarrow> f < length bs div 256"

lemma in_frames_addr:
  assumes "in_frames f bs" and "i < 256"
  shows "256 * f + i < length bs"
  using assms unfolding in_frames_def by linarith

lemma cell_address_inj:
  assumes "i < 256" "j < 256"
  shows "256 * f + i = 256 * g + j \<longleftrightarrow> f = g \<and> i = (j :: nat)"
proof
  assume *: "256 * f + i = 256 * g + j"
  then have "(256 * f + i) div 256 = (256 * g + j) div 256" by simp
  with assms have "f = g" by simp
  with * show "f = g \<and> i = j" by simp
qed simp

lemma cell_update:
  assumes "in_frames g bs" and "i < 256" and "j < 256"
  shows "cell (bs[256 * f + i := v]) g j = (if f = g \<and> i = j then v else cell bs g j)"
  using in_frames_addr [OF assms(1,3)] cell_address_inj [OF assms(2,3), of f g]
  by (auto simp: cell_def nth_list_update)

lemma frame_address:
  assumes "i < 256" and "256 * unat f + i < 2 ^ 64"
  shows "unat (f * word_of_nat PAGING_PAGESZ + word_of_nat i :: addr) = 256 * unat f + i"
proof -
  have i: "unat (word_of_nat i :: addr) = i" using assms(1) by (simp add: unat_of_nat)
  have m: "unat (f * word_of_nat PAGING_PAGESZ) = unat f * 256"
    using assms by (simp add: PAGING_PAGESZ_def unat_mult_no_wrap)
  then show ?thesis using i assms by (simp add: unat_add_no_wrap mult.commute)
qed

text \<open>
  \<open>bytes\<close> is the content and \<open>rest\<close> what byte accesses never change. Reading returns the
  byte at the address; writing changes that byte alone.
\<close>

locale byte_device =
  fixes rd :: "'d \<Rightarrow> addr \<Rightarrow> (byte option \<times> 'd) res"
    and wr :: "'d \<Rightarrow> addr \<Rightarrow> byte \<Rightarrow> (int \<times> 'd) res"
    and bytes :: "'d \<Rightarrow> byte list"
    and rest :: "'d \<Rightarrow> 'r"
  assumes rd: "unat a < length (bytes d) \<Longrightarrow> returns (rd d a)
      (\<lambda>(v, d'). v = Some (bytes d ! unat a) \<and> bytes d' = bytes d \<and> rest d' = rest d)"
    and wr: "unat a < length (bytes d) \<Longrightarrow> returns (wr d a v)
      (\<lambda>(r, d'). r = 0 \<and> bytes d' = (bytes d)[unat a := v] \<and> rest d' = rest d)"
begin

lemma rd_after_wr:
  assumes "unat a < length (bytes d)"
  shows "returns (rbind (wr d a v) (\<lambda>(_, d'). rd d' a)) (\<lambda>(x, d'). x = Some v)"
proof -
  obtain d' where w: "wr d a v = Inr (0, d')" "bytes d' = (bytes d)[unat a := v]"
    using wr [OF assms, of v] by (auto elim!: returnsE)
  then show ?thesis using rd [of a d'] assms by (auto elim!: returns_mono)
qed

lemma rd_other_after_wr:
  assumes "unat a < length (bytes d)" and "unat b < length (bytes d)" and "a \<noteq> b"
  shows "returns (rbind (wr d a v) (\<lambda>(_, d'). rd d' b)) (\<lambda>(x, d'). x = Some (bytes d ! unat b))"
proof -
  obtain d' where w: "wr d a v = Inr (0, d')" "bytes d' = (bytes d)[unat a := v]"
    using wr [OF assms(1), of v] by (auto elim!: returnsE)
  then show ?thesis using rd [of b d'] assms(2,3)
    by (auto elim!: returns_mono simp: nth_list_update word_unat_eq_iff)
qed

text \<open>The copy loop from cell \<open>i\<close> on, to a device of the same kind.\<close>

lemma copy_cells_from:
  assumes "in_frames (unat sf) (bytes s)" and "in_frames (unat df) (bytes d)"
    and "length (bytes s) < 2 ^ 64" and "length (bytes d) < 2 ^ 64"
  shows "returns (copy_cells rd wr s sf d df i) (\<lambda>(s', d').
     bytes s' = bytes s \<and> rest s' = rest s \<and> rest d' = rest d \<and> length (bytes d') = length (bytes d)
     \<and> (\<forall>g j. in_frames g (bytes d) \<longrightarrow> j < 256 \<longrightarrow> cell (bytes d') g j =
          (if g = unat df \<and> i \<le> j then cell (bytes s) (unat sf) j else cell (bytes d) g j)))"
  using assms
proof (induction "PAGING_PAGESZ - i" arbitrary: i s d)
  case 0
  then show ?case by (subst copy_cells.simps) (auto simp: PAGING_PAGESZ_def)
next
  case (Suc n)
  then have i: "i < 256" "n = PAGING_PAGESZ - (i + 1)" by (simp_all add: PAGING_PAGESZ_def)
  let ?a = "sf * word_of_nat PAGING_PAGESZ + word_of_nat i"
  let ?b = "df * word_of_nat PAGING_PAGESZ + word_of_nat i"
  have a: "unat ?a = 256 * unat sf + i" "unat ?a < length (bytes s)"
    using in_frames_addr [OF Suc.prems(1) i(1)] Suc.prems(3) frame_address [OF i(1), of sf] by simp_all
  have b: "unat ?b = 256 * unat df + i" "unat ?b < length (bytes d)"
    using in_frames_addr [OF Suc.prems(2) i(1)] Suc.prems(4) frame_address [OF i(1), of df] by simp_all
  obtain s1 where s1: "rd s ?a = Inr (Some (bytes s ! unat ?a), s1)" "bytes s1 = bytes s"
      "rest s1 = rest s"
    using rd [OF a(2)] by (auto elim!: returnsE)
  obtain d1 where d1: "wr d ?b (bytes s ! unat ?a) = Inr (0, d1)"
      "bytes d1 = (bytes d)[unat ?b := bytes s ! unat ?a]" "rest d1 = rest d"
    using wr [OF b(2), of "bytes s ! unat ?a"] by (auto elim!: returnsE)
  have len: "in_frames g (bytes d1) \<longleftrightarrow> in_frames g (bytes d)" for g by (simp add: d1(2) in_frames_def)
  have "returns (copy_cells rd wr s1 sf d1 df (i + 1)) (\<lambda>(s', d').
     bytes s' = bytes s1 \<and> rest s' = rest s1 \<and> rest d' = rest d1 \<and> length (bytes d') = length (bytes d1)
     \<and> (\<forall>g j. in_frames g (bytes d1) \<longrightarrow> j < 256 \<longrightarrow> cell (bytes d') g j =
          (if g = unat df \<and> i + 1 \<le> j then cell (bytes s1) (unat sf) j else cell (bytes d1) g j)))"
    using Suc.prems s1(2) d1(2) len by (intro Suc.hyps(1) [OF i(2)]) simp_all
  moreover have "(if g = unat df \<and> i + 1 \<le> j then cell (bytes s1) (unat sf) j else cell (bytes d1) g j)
      = (if g = unat df \<and> i \<le> j then cell (bytes s) (unat sf) j else cell (bytes d) g j)"
    if "in_frames g (bytes d)" "j < 256" for g j
    using cell_update [OF that(1) i(1) that(2), of "unat df" "bytes s ! unat ?a"] s1(2) a(1) b(1) d1(2)
    by (auto simp: cell_def)
  ultimately have "returns (copy_cells rd wr s1 sf d1 df (i + 1)) (\<lambda>(s', d').
     bytes s' = bytes s \<and> rest s' = rest s \<and> rest d' = rest d \<and> length (bytes d') = length (bytes d)
     \<and> (\<forall>g j. in_frames g (bytes d) \<longrightarrow> j < 256 \<longrightarrow> cell (bytes d') g j =
          (if g = unat df \<and> i \<le> j then cell (bytes s) (unat sf) j else cell (bytes d) g j)))"
    using s1 d1 len by (elim returns_mono) auto
  moreover have "copy_cells rd wr s sf d df i = copy_cells rd wr s1 sf d1 df (i + 1)"
    using i(1) s1(1) d1(1) by (subst copy_cells.simps) (simp add: PAGING_PAGESZ_def)
  ultimately show ?case by simp
qed

lemma copy_page:
  assumes "in_frames (unat sf) (bytes s)" and "in_frames (unat df) (bytes d)"
    and "length (bytes s) < 2 ^ 64" and "length (bytes d) < 2 ^ 64"
  shows "returns (copy_cells rd wr s sf d df 0) (\<lambda>(s', d').
     bytes s' = bytes s \<and> rest s' = rest s \<and> rest d' = rest d \<and> length (bytes d') = length (bytes d)
     \<and> (\<forall>g j. in_frames g (bytes d) \<longrightarrow> j < 256 \<longrightarrow> cell (bytes d') g j =
          (if g = unat df then cell (bytes s) (unat sf) j else cell (bytes d) g j)))"
  using copy_cells_from [OF assms, of 0] by (elim returns_mono) auto

end

text \<open>Everything of a device but its content and its cursor.\<close>

definition mem_rest :: "memphy_struct \<Rightarrow> int \<times> bool \<times> addr list \<times> bool" where
  "mem_rest mp = (maxsz mp, rdmflg mp, free_fp_list mp, fp_term mp)"

lemma mem_rest_sel:
  "mem_rest d = mem_rest e \<Longrightarrow> maxsz d = maxsz e \<and> rdmflg d = rdmflg e
     \<and> free_fp_list d = free_fp_list e \<and> fp_term d = fp_term e"
  by (simp add: mem_rest_def)

text \<open>The devices of \<^verbatim>\<open>mm-memphy.c\<close>, random access and serial ones alike.\<close>

interpretation mem: byte_device MEMPHY_read MEMPHY_write storage mem_rest
proof unfold_locales
  fix a :: addr and d :: memphy_struct and v :: byte
  assume a: "unat a < length (storage d)"
  show "returns (MEMPHY_read d a)
      (\<lambda>(v, d'). v = Some (storage d ! unat a) \<and> storage d' = storage d \<and> mem_rest d' = mem_rest d)"
    using a by (simp add: MEMPHY_read_def MEMPHY_seq_read_def MEMPHY_mv_csr_def mem_rest_def)
  show "returns (MEMPHY_write d a v)
      (\<lambda>(r, d'). r = 0 \<and> storage d' = (storage d)[unat a := v] \<and> mem_rest d' = mem_rest d)"
    using a by (simp add: MEMPHY_write_def MEMPHY_seq_write_def MEMPHY_mv_csr_def mem_rest_def)
qed

section \<open>The interface of a frame pool\<close>

text \<open>
  A stack of free frames, \<open>frames\<close> from the top down. \<open>ok\<close> says that the pool can be asked.
\<close>

locale frame_pool =
  fixes get :: "'d \<Rightarrow> (addr option \<times> 'd) res"
    and put :: "'d \<Rightarrow> addr \<Rightarrow> 'd"
    and frames :: "'d \<Rightarrow> addr list"
    and ok :: "'d \<Rightarrow> bool"
    and data :: "'d \<Rightarrow> 'c"
  assumes get_none: "ok d \<Longrightarrow> frames d = [] \<Longrightarrow> get d = Inr (None, d)"
    and get_some: "ok d \<Longrightarrow> frames d = f # fs \<Longrightarrow> returns (get d)
      (\<lambda>(r, d'). r = Some f \<and> ok d' \<and> frames d' = fs \<and> data d' = data d)"
    and put: "ok d \<Longrightarrow> ok (put d f) \<and> frames (put d f) = f # frames d \<and> data (put d f) = data d"
begin

text \<open>What can be asked: nothing when no frame is free, else the frame on top.\<close>

lemma get_cases:
  assumes "ok d"
  obtains (none) "frames d = []" "get d = Inr (None, d)"
  | (some) f d' where "get d = Inr (Some f, d')" "frames d = f # frames d'" "ok d'" "data d' = data d"
proof (cases "frames d")
  case Nil
  then show ?thesis using none get_none [OF assms] by blast
next
  case (Cons f fs)
  then obtain d' where "get d = Inr (Some f, d')" "ok d'" "frames d' = fs" "data d' = data d"
    using get_some [OF assms Cons] by (auto elim!: returnsE)
  then show ?thesis using some Cons by simp
qed

lemma get_put:
  assumes "ok d"
  shows "returns (get (put d f)) (\<lambda>(r, d'). r = Some f \<and> ok d' \<and> frames d' = frames d \<and> data d' = data d)"
  using get_some [of "put d f" f "frames d"] put [OF assms, of f] by (auto elim!: returns_mono)

lemma get_conserves:
  assumes "ok d"
  shows "returns (get d) (\<lambda>(r, d'). ok d' \<and> data d' = data d \<and>
     mset (frames d) = (case r of None \<Rightarrow> {#} | Some f \<Rightarrow> {#f#}) + mset (frames d'))"
  using assms by (cases rule: get_cases) (use assms in auto)

lemma put_conserves: "ok d \<Longrightarrow> mset (frames (put d f)) = add_mset f (mset (frames d))"
  using put by simp

end

text \<open>The content and the kind of a device, which frame operations never change.\<close>

definition mem_data :: "memphy_struct \<Rightarrow> byte list \<times> int \<times> bool \<times> int" where
  "mem_data mp = (storage mp, maxsz mp, rdmflg mp, cursor mp)"

interpretation fp: frame_pool MEMPHY_get_freefp MEMPHY_put_freefp free_fp_list fp_term mem_data
  by unfold_locales
    (simp_all add: MEMPHY_get_freefp_def MEMPHY_put_freefp_def mem_data_def)

section \<open>Well-formed devices\<close>

definition nframes :: "memphy_struct \<Rightarrow> nat" where
  "nframes mp = length (storage mp) div 256"

text \<open>
  The list of free frames ends, names frames of the device only, and none twice.
\<close>

definition mem_wf :: "memphy_struct \<Rightarrow> bool" where
  "mem_wf mp \<longleftrightarrow> fp_term mp \<and> length (storage mp) < 2 ^ 32 \<and> distinct (free_fp_list mp)
     \<and> (\<forall>f \<in> set (free_fp_list mp). unat f < nframes mp)"

lemma in_frames_storage: "in_frames f (storage mp) \<longleftrightarrow> f < nframes mp"
  by (simp add: in_frames_def nframes_def)

lemma mem_wf_cong:
  "mem_rest d = mem_rest e \<Longrightarrow> length (storage d) = length (storage e) \<Longrightarrow> mem_wf d = mem_wf e"
  by (simp add: mem_wf_def nframes_def mem_rest_def)

lemma MEMPHY_get_freefp_cases:
  assumes "mem_wf mp"
  obtains (none) "free_fp_list mp = []" "MEMPHY_get_freefp mp = Inr (None, mp)"
  | (some) f mp' where "MEMPHY_get_freefp mp = Inr (Some f, mp')" "mp' = mp\<lparr>free_fp_list := tl (free_fp_list mp)\<rparr>"
      "free_fp_list mp = f # free_fp_list mp'" "mem_wf mp'" "unat f < nframes mp"
      "f \<notin> set (free_fp_list mp')"
  using assms by (cases "free_fp_list mp") (auto simp: MEMPHY_get_freefp_def mem_wf_def nframes_def)

section \<open>Properties\<close>

lemma sint_small:
  assumes "unat (w :: addr) < 2 ^ 31"
  shows "sint (ucast w :: u32) = int (unat w)"
proof -
  have "unat (ucast w :: u32) = take_bit 32 (unat w)" by (simp add: unsigned_ucast_eq)
  also have "\<dots> = unat w" using assms by (intro take_bit_nat_eq_self) simp
  finally show ?thesis using assms sint_u32 [of "ucast w"] by simp
qed

lemma init_memphy_ok:
  assumes "512 \<le> unat sz" and "unat sz < 2 ^ 31"
  shows "mem_wf (init_memphy mp sz flag) \<and> storage (init_memphy mp sz flag) = replicate (unat sz) 0
     \<and> map unat (free_fp_list (init_memphy mp sz flag)) = [0..<unat sz div 256]
     \<and> maxsz (init_memphy mp sz flag) = int (unat sz) \<and> rdmflg (init_memphy mp sz flag) = flag"
proof -
  have s: "sint (ucast sz :: u32) = int (unat sz)" by (rule sint_small [OF assms(2)])
  obtain n where n: "n = unat sz div 256" by simp
  have n2: "2 \<le> n" "n < 2 ^ 23"
    unfolding n using assms less_mult_imp_div_less [of "unat sz" "2 ^ 23" 256] by (linarith, simp)
  have d: "int (unat sz) div int PAGING_PAGESZ = int n"
    by (simp only: PAGING_PAGESZ_def n zdiv_int)
  have fmt: "free_fp_list (init_memphy mp sz flag) = map word_of_nat [0..<n]"
      "fp_term (init_memphy mp sz flag)" "storage (init_memphy mp sz flag) = replicate (unat sz) 0"
      "maxsz (init_memphy mp sz flag) = int (unat sz)" "rdmflg (init_memphy mp sz flag) = flag"
    unfolding init_memphy_def MEMPHY_format_def Let_def s using n2
    by (simp_all add: d del: of_nat_unat)
  have u: "unat (word_of_nat i :: addr) = i" if "i < n" for i
    using that n2(2) by (simp add: unat_of_nat)
  then have m: "map unat (map word_of_nat [0..<n] :: addr list) = [0..<n]"
    by (intro nth_equalityI) simp_all
  then have "distinct (map word_of_nat [0..<n] :: addr list)"
    by (metis distinct_map distinct_upt)
  then show ?thesis using fmt m u assms(2) n by (simp add: mem_wf_def nframes_def)
qed

text \<open>
  A device of fewer than two pages is not usable: with less than one page \<open>init_memphy\<close>
  leaves the head of the free list uninitialised, so the first request for a frame reads an
  indeterminate pointer; with exactly one frame the second request does, because the only node's
  link was never written.
\<close>

lemma init_memphy_too_small:
  assumes "unat sz < 512"
  shows "(unat sz < 256 \<longrightarrow>
            MEMPHY_get_freefp (init_memphy uninit_memphy sz flag) = Inl Uninit_Read)
   \<and> (256 \<le> unat sz \<longrightarrow>
        returns (MEMPHY_get_freefp (init_memphy uninit_memphy sz flag)) (\<lambda>(r, mp).
          r = Some 0 \<and> MEMPHY_get_freefp mp = Inl Uninit_Read))"
proof -
  have s: "sint (ucast sz :: u32) = int (unat sz)" using assms by (intro sint_small) simp
  have "int (unat sz) div int PAGING_PAGESZ = int (unat sz div 256)"
    by (simp add: PAGING_PAGESZ_def zdiv_int)
  moreover have "unat sz div 256 = (if unat sz < 256 then 0 else 1)" using assms by auto
  ultimately show ?thesis
    by (auto simp: init_memphy_def MEMPHY_format_def MEMPHY_get_freefp_def Let_def s uninit_memphy_def)
qed

lemma mv_csr_loop_eq:
  "offset < nat mx \<Longrightarrow> cur = int n \<Longrightarrow> n \<le> offset \<Longrightarrow> mv_csr_loop n cur mx offset = int offset"
proof (induction n cur mx offset rule: mv_csr_loop.induct)
  case (1 n cur mx offset)
  show ?case
  proof (cases "n < offset")
    case True
    then have "(cur + 1) mod mx = int (n + 1)" using "1.prems" by (simp add: mod_pos_pos_trivial)
    then have "mv_csr_loop (n + 1) ((cur + 1) mod mx) mx offset = int offset"
      using "1" True by simp
    then show ?thesis using True "1.prems" by (subst mv_csr_loop.simps) simp
  next
    case False
    then show ?thesis using "1.prems" by (subst mv_csr_loop.simps) simp
  qed
qed

text \<open>
  The cursor of a serial device: after a read or write at an address inside the device the
  cursor stands at that address.
\<close>

lemma serial_cursor:
  assumes "\<not> rdmflg mp" and "maxsz mp = int (length (storage mp))" and "unat a < length (storage mp)"
  shows "returns (MEMPHY_read mp a) (\<lambda>(v, mp'). v = Some (storage mp ! unat a) \<and> cursor mp' = int (unat a))
   \<and> returns (MEMPHY_write mp a b) (\<lambda>(r, mp'). r = 0 \<and> cursor mp' = int (unat a)
        \<and> storage mp' = (storage mp)[unat a := b])"
  using assms mv_csr_loop_eq [of "unat a" "maxsz mp" 0 0]
  by (simp add: MEMPHY_read_def MEMPHY_write_def MEMPHY_seq_read_def MEMPHY_seq_write_def
      MEMPHY_mv_csr_def)

text \<open>A sequence of byte accesses, with the byte that each has read or written.\<close>

datatype mem_access = Load_Byte addr | Store_Byte addr byte

fun accesses :: "memphy_struct \<Rightarrow> mem_access list \<Rightarrow> (byte option list \<times> memphy_struct) res" where
  "accesses d [] = Inr ([], d)"
| "accesses d (Load_Byte a # ops) =
     rbind (MEMPHY_read d a) (\<lambda>(v, d). rbind (accesses d ops) (\<lambda>(vs, d). Inr (v # vs, d)))"
| "accesses d (Store_Byte a b # ops) =
     rbind (MEMPHY_write d a b) (\<lambda>(r, d). rbind (accesses d ops) (\<lambda>(vs, d).
       Inr ((if r = 0 then Some b else None) # vs, d)))"

lemma access_cases:
  "unat a \<ge> length (storage d) \<Longrightarrow> MEMPHY_read d a = Inl Out_Of_Bounds"
  "unat a \<ge> length (storage d) \<Longrightarrow> MEMPHY_write d a b = Inl Out_Of_Bounds"
  "unat a < length (storage d) \<Longrightarrow> \<exists>d'. MEMPHY_read d a = Inr (Some (storage d ! unat a), d')
     \<and> storage d' = storage d \<and> mem_rest d' = mem_rest d"
  "unat a < length (storage d) \<Longrightarrow> \<exists>d'. MEMPHY_write d a b = Inr (0, d')
     \<and> storage d' = (storage d)[unat a := b] \<and> mem_rest d' = mem_rest d"
  using mem.rd [of a d] mem.wr [of a d b]
  by (auto simp: MEMPHY_read_def MEMPHY_write_def MEMPHY_seq_read_def MEMPHY_seq_write_def
      MEMPHY_mv_csr_def elim!: returnsE)

text \<open>
  C34. Serial and random access devices are equivalent: any two devices with the same content, of
  whatever kind and wherever their cursors stand, answer every sequence of accesses with the same
  bytes, end with the same content and fail at the same access, if at all.
\<close>

theorem devices_equivalent:
  assumes "storage d = storage e"
  shows "case accesses d ops of
      Inl f \<Rightarrow> accesses e ops = Inl f
    | Inr (vs, d') \<Rightarrow> returns (accesses e ops) (\<lambda>(vs', e'). vs' = vs \<and> storage e' = storage d' \<and> mem_rest e' = mem_rest e)"
  using assms
proof (induction ops arbitrary: d e)
  case (Cons op ops)
  show ?case
  proof (cases op)
    case (Load_Byte a)
    show ?thesis
    proof (cases "unat a < length (storage d)")
      case True
      obtain d1 where d1: "MEMPHY_read d a = Inr (Some (storage d ! unat a), d1)" "storage d1 = storage d"
        using access_cases(3) [OF True] by blast
      obtain e1 where e1: "MEMPHY_read e a = Inr (Some (storage d ! unat a), e1)" "storage e1 = storage d" "mem_rest e1 = mem_rest e"
        using access_cases(3) [of a e] True Cons.prems by auto
      have "storage d1 = storage e1" using d1 e1 by simp
      from Cons.IH [OF this] show ?thesis
        using d1 e1 Load_Byte by (cases "accesses d1 ops") (auto elim!: returnsE)
    next
      case False
      then show ?thesis using Load_Byte access_cases(1) [of d a] access_cases(1) [of e a] Cons.prems by simp
    qed
  next
    case (Store_Byte a b)
    show ?thesis
    proof (cases "unat a < length (storage d)")
      case True
      obtain d1 where d1: "MEMPHY_write d a b = Inr (0, d1)" "storage d1 = (storage d)[unat a := b]"
        using access_cases(4) [OF True] by blast
      obtain e1 where e1: "MEMPHY_write e a b = Inr (0, e1)" "storage e1 = (storage d)[unat a := b]" "mem_rest e1 = mem_rest e"
        using access_cases(4) [of a e] True Cons.prems by auto
      have "storage d1 = storage e1" using d1 e1 by simp
      from Cons.IH [OF this] show ?thesis
        using d1 e1 Store_Byte by (cases "accesses d1 ops") (auto elim!: returnsE)
    next
      case False
      then show ?thesis using Store_Byte access_cases(2) [of d a b] access_cases(2) [of e a b] Cons.prems by simp
    qed
  qed
qed simp

theorem devices_equivalent_witness:
  "let serial = uninit_memphy\<lparr>storage := [1, 2, 3], maxsz := 3\<rparr>; random = serial\<lparr>rdmflg := True\<rparr> in
   accesses random [Store_Byte 2 9, Load_Byte 2] = Inr ([Some 9, Some 9], random\<lparr>storage := [1, 2, 9]\<rparr>)
   \<and> returns (accesses serial [Store_Byte 2 9, Load_Byte 2]) (\<lambda>(vs, d). vs = [Some 9, Some 9])"
proof -
  define d where "d = uninit_memphy\<lparr>storage := [1, 2, 3], maxsz := 3\<rparr>"
  have a: "accesses (d\<lparr>rdmflg := True\<rparr>) [Store_Byte 2 9, Load_Byte 2]
      = Inr ([Some 9, Some 9], d\<lparr>rdmflg := True, storage := [1, 2, 9]\<rparr>)"
    by (simp add: d_def MEMPHY_read_def MEMPHY_write_def)
  have "storage (d\<lparr>rdmflg := True\<rparr>) = storage d" by simp
  from devices_equivalent [OF this, of "[Store_Byte 2 9, Load_Byte 2]"]
  have "returns (accesses d [Store_Byte 2 9, Load_Byte 2]) (\<lambda>(vs, d). vs = [Some 9, Some 9])"
    unfolding a by (auto elim!: returns_mono)
  with a show ?thesis by (simp add: Let_def d_def)
qed

lemma swap_cp_page_ok:
  assumes "unat sf < nframes src" and "unat df < nframes dst"
    and "length (storage src) < 2 ^ 64" and "length (storage dst) < 2 ^ 64"
  shows "returns (swap_cp_page src sf dst df) (\<lambda>(src', dst').
     storage src' = storage src \<and> mem_rest src' = mem_rest src \<and> mem_rest dst' = mem_rest dst
     \<and> length (storage dst') = length (storage dst)
     \<and> (\<forall>g j. g < nframes dst \<longrightarrow> j < 256 \<longrightarrow> cell (storage dst') g j =
          (if g = unat df then cell (storage src) (unat sf) j else cell (storage dst) g j)))"
  using mem.copy_page [of sf src df dst] assms
  by (simp add: swap_cp_page_def in_frames_storage)

end
