(* ===== verification/Pagetable.thy ===== *)
theory Pagetable
  imports Memphy
begin

text \<open>
  \<^verbatim>\<open>src/mm64.c\<close>: the page table of a process, the mapping of page ranges to frames and the
  initial memory of a process. With \<open>MM64\<close> the five directories are allocated, but only
  \<open>pgd\<close> is used, as a flat table indexed by the page number. A function that takes
  \<open>caller\<close> works on what it reaches through \<open>caller->krnl\<close>, a \<open>krnl_t\<close>.
\<close>

section \<open>Entries\<close>

definition the_mm :: "krnl_t \<Rightarrow> mm_struct res" where
  "the_mm k = (case mm k of None \<Rightarrow> Inl Null_Deref | Some m \<Rightarrow> Inr m)"

text \<open>\<open>pgd[pgn]\<close> becomes \<open>f\<close> of what it was.\<close>

definition pte_modify :: "krnl_t \<Rightarrow> addr \<Rightarrow> (addr \<Rightarrow> addr) \<Rightarrow> krnl_t res" where
  "pte_modify k pgn f =
     rbind (the_mm k) (\<lambda>m.
     rbind (arr_get (pgd m) (unat pgn)) (\<lambda>pte.
     rbind (arr_set (pgd m) (unat pgn) (f pte)) (\<lambda>t.
       Inr (k\<lparr>mm := Some (m\<lparr>pgd := t\<rparr>)\<rparr>))))"

definition pte_set_swap :: "krnl_t \<Rightarrow> addr \<Rightarrow> int \<Rightarrow> addr \<Rightarrow> (int \<times> krnl_t) res" where
  "pte_set_swap k pgn swptyp swpoff =
     rbind (pte_modify k pgn (\<lambda>pte. swap_entry pte (word_of_int swptyp) swpoff)) (\<lambda>k. Inr (0, k))"

definition pte_set_fpn :: "krnl_t \<Rightarrow> addr \<Rightarrow> addr \<Rightarrow> (int \<times> krnl_t) res" where
  "pte_set_fpn k pgn fpn = rbind (pte_modify k pgn (\<lambda>pte. fpn_entry pte fpn)) (\<lambda>k. Inr (0, k))"

definition pte_get_entry :: "krnl_t \<Rightarrow> addr \<Rightarrow> u32 res" where
  "pte_get_entry k pgn =
     rbind (the_mm k) (\<lambda>m. rbind (arr_get (pgd m) (unat pgn)) (\<lambda>pte. Inr (ucast pte)))"

definition pte_set_entry :: "krnl_t \<Rightarrow> addr \<Rightarrow> u32 \<Rightarrow> (int \<times> krnl_t) res" where
  "pte_set_entry k pgn pte_val = rbind (pte_modify k pgn (\<lambda>_. ucast pte_val)) (\<lambda>k. Inr (0, k))"

section \<open>The list of mapped pages and the lists of regions\<close>

definition enlist_pgn_node :: "addr list \<Rightarrow> addr \<Rightarrow> addr list" where
  "enlist_pgn_node plist pgn = plist @ [pgn]"

definition enlist_fifo :: "krnl_t \<Rightarrow> addr \<Rightarrow> krnl_t res" where
  "enlist_fifo k pgn =
     rbind (the_mm k) (\<lambda>m. Inr (k\<lparr>mm := Some (m\<lparr>fifo_pgn := enlist_pgn_node (fifo_pgn m) pgn\<rparr>)\<rparr>))"

definition init_vm_rg :: "addr \<Rightarrow> addr \<Rightarrow> vm_rg_struct" where
  "init_vm_rg s e = \<lparr>rg_vmaid = Some (-1), rg_start = s, rg_end = e\<rparr>"

definition enlist_vm_rg_node :: "vm_rg_struct list \<Rightarrow> vm_rg_struct \<Rightarrow> vm_rg_struct list" where
  "enlist_vm_rg_node rglist rgnode = rgnode # rglist"

section \<open>Mapping ranges of pages\<close>

text \<open>The loop of \<open>vmap_pgd_memset\<close>; \<open>pgnum\<close> is the number of its iterations.\<close>

function memset_loop :: "krnl_t \<Rightarrow> addr \<Rightarrow> int \<Rightarrow> int \<Rightarrow> krnl_t res" where
  "memset_loop k pgn_start pgnum i =
     (if i < pgnum then
        rbind (pte_modify k (pgn_start + word_of_int i) (\<lambda>_. 0)) (\<lambda>k.
          memset_loop k pgn_start pgnum (i + 1))
      else Inr k)"
  by pat_completeness auto
termination by (relation "measure (\<lambda>(k, s, n, i). nat (n - i))") auto

definition vmap_pgd_memset :: "krnl_t \<Rightarrow> addr \<Rightarrow> int \<Rightarrow> (int \<times> krnl_t) res" where
  "vmap_pgd_memset k a pgnum = rbind (memset_loop k (PAGING_PGN a) pgnum 0) (\<lambda>k. Inr (0, k))"

text \<open>The loop of \<open>vmap_page_range\<close>; it also returns the \<open>i\<close> it stops at.\<close>

function vmap_loop :: "krnl_t \<Rightarrow> addr \<Rightarrow> int \<Rightarrow> addr list \<Rightarrow> int \<Rightarrow> (int \<times> krnl_t) res" where
  "vmap_loop k pgn_start pgnum fpit i =
     (if i < pgnum then
        (case fpit of
           [] \<Rightarrow> Inr (i, k)
         | fpn # next \<Rightarrow>
             rbind (pte_set_fpn k (pgn_start + word_of_int i) fpn) (\<lambda>(_, k).
             rbind (enlist_fifo k (pgn_start + word_of_int i)) (\<lambda>k.
               vmap_loop k pgn_start pgnum next (i + 1))))
      else Inr (i, k))"
  by pat_completeness auto
termination by (relation "measure (\<lambda>(k, s, n, f, i). length f)") auto

definition vmap_page_range :: "krnl_t \<Rightarrow> addr \<Rightarrow> int \<Rightarrow> addr list \<Rightarrow> vm_rg_struct option
    \<Rightarrow> (addr \<times> vm_rg_struct option \<times> krnl_t) res" where
  "vmap_page_range k a pgnum frames ret_rg =
     rbind (vmap_loop k (PAGING_PGN a) pgnum frames 0) (\<lambda>(i, k).
       Inr (a, map_option (\<lambda>rg. rg\<lparr>rg_start := a,
                  rg_end := a + word_of_int (i * int PAGING_PAGESZ)\<rparr>) ret_rg, k))"

text \<open>
  The loop of \<open>alloc_pages_range\<close>, with the frames taken so far from head to tail. When no
  frame is free it returns -3000 in the first round and goes to \<open>cleanup\<close> later on, where the
  frames are put back from the head on. The out-parameter is written on success only.
\<close>

definition put_frames :: "memphy_struct \<Rightarrow> addr list \<Rightarrow> memphy_struct" where
  "put_frames mp fs = foldl MEMPHY_put_freefp mp fs"

function alloc_loop :: "krnl_t \<Rightarrow> int \<Rightarrow> addr list \<Rightarrow> addr list \<Rightarrow> int
    \<Rightarrow> (addr \<times> addr list \<times> krnl_t) res" where
  "alloc_loop k req_pgnum frm_lst taken i =
     (if i < req_pgnum then
        rbind (MEMPHY_get_freefp (mram k)) (\<lambda>(fpn, mp).
          (case fpn of
             None \<Rightarrow>
               if i = 0 then Inr (-3000, frm_lst, k\<lparr>mram := mp\<rparr>)
               else Inr (-1, frm_lst, k\<lparr>mram := put_frames mp taken\<rparr>)
           | Some f \<Rightarrow> alloc_loop (k\<lparr>mram := mp\<rparr>) req_pgnum frm_lst (taken @ [f]) (i + 1)))
      else Inr (0, taken, k))"
  by pat_completeness auto
termination by (relation "measure (\<lambda>(k, n, l, t, i). nat (n - i))") auto

declare memset_loop.simps [simp del] vmap_loop.simps [simp del] alloc_loop.simps [simp del]

definition alloc_pages_range :: "krnl_t \<Rightarrow> int \<Rightarrow> addr list \<Rightarrow> (addr \<times> addr list \<times> krnl_t) res" where
  "alloc_pages_range k req_pgnum frm_lst = alloc_loop k req_pgnum frm_lst [] 0"

text \<open>
  \<open>vm_map_ram\<close>. \<open>ret_alloc\<close> is an \<open>addr_t\<close>, so \<open>ret_alloc < 0\<close> is the comparison of an
  unsigned value with 0. The areas' bounds are not read; the frame list's nodes are freed.
\<close>

definition vm_map_ram :: "krnl_t \<Rightarrow> addr \<Rightarrow> addr \<Rightarrow> addr \<Rightarrow> int \<Rightarrow> vm_rg_struct option
    \<Rightarrow> (addr \<times> vm_rg_struct option \<times> krnl_t) res" where
  "vm_map_ram k astart aend mapstart incpgnum ret_rg =
     rbind (alloc_pages_range k incpgnum []) (\<lambda>(ret_alloc, frm_lst, k).
       if ret_alloc < 0 \<and> ret_alloc \<noteq> -3000 then Inr (-1, ret_rg, k)
       else if ret_alloc = -3000 then Inr (-1, ret_rg, k)
       else rbind (vmap_page_range k mapstart incpgnum frm_lst ret_rg) (\<lambda>(_, ret_rg, k).
              Inr (0, ret_rg, k)))"

section \<open>A new address space\<close>

text \<open>
  \<open>init_mm\<close>; what \<open>malloc\<close> returned is written before it is read, and allocation succeeds.
\<close>

definition init_mm :: "mm_struct" where
  "init_mm =
     \<lparr>pgd = replicate PAGING_MAX_PGN 0, p4d = replicate PAGING_MAX_PGN 0,
      pud = replicate PAGING_MAX_PGN 0, pmd = replicate PAGING_MAX_PGN 0,
      pt = replicate PAGING_MAX_PGN 0,
      mmap = [\<lparr>vm_id = 0, vm_start = 0, vm_end = 0, sbrk = 0,
               vm_freerg_list = enlist_vm_rg_node [] (init_vm_rg 0 0)\<rparr>],
      symrgtbl = replicate PAGING_MAX_SYMTBL_SZ \<lparr>rg_vmaid = Some (-1), rg_start = 0, rg_end = 0\<rparr>,
      fifo_pgn = []\<rparr>"

end
