(* ===== verification/Paging.thy ===== *)
theory Paging
  imports Pagetable
begin

text \<open>
  Demand paging, \<^verbatim>\<open>pg_getpage\<close> and its callers in \<^verbatim>\<open>src/libmem.c\<close>: a page that is not
  in RAM gets a free frame, or the frame of a victim page whose content moves to the swap
  device. The theory shows that this is invisible to the program: the content of a mapped page is
  the same whichever device holds it, and no frame of another process is touched.
\<close>

section \<open>Operations\<close>

text \<open>
  \<open>find_victim_page\<close> walks to the last node of the list and unlinks it; \<open>before\<close> holds the
  nodes passed, last first.
\<close>

fun victim_loop :: "addr list \<Rightarrow> addr list \<Rightarrow> nat \<Rightarrow> (addr \<times> addr list) option" where
  "victim_loop [] before safety_count = None"
| "victim_loop [pg] before safety_count = Some (pg, rev before)"
| "victim_loop (pg # pg' # next) before safety_count =
     (if safety_count > 10000 then None
      else victim_loop (pg' # next) (pg # before) (safety_count + 1))"

definition find_victim_page :: "mm_struct \<Rightarrow> addr option \<times> mm_struct" where
  "find_victim_page m =
     (case victim_loop (fifo_pgn m) [] 0 of
        None \<Rightarrow> (None, m)
      | Some (pg, rest) \<Rightarrow> (Some pg, m\<lparr>fifo_pgn := rest\<rparr>))"

text \<open>
  The part of \<open>pg_getpage\<close> that finds a frame: a free one, or the frame of a victim. It returns
  no frame where the code returns -1.
\<close>

definition take_frame :: "krnl_t \<Rightarrow> (addr option \<times> krnl_t) res" where
  "take_frame k =
     rbind (MEMPHY_get_freefp (mram k)) (\<lambda>(tgtfpn, mp).
     let k = k\<lparr>mram := mp\<rparr> in
     case tgtfpn of
       Some f \<Rightarrow> Inr (Some f, k)
     | None \<Rightarrow>
         rbind (the_mm k) (\<lambda>m.
         let (vic, m) = find_victim_page m; k = k\<lparr>mm := Some m\<rparr> in
         case vic of
           None \<Rightarrow> Inr (None, k)
         | Some vicpgn \<Rightarrow>
             rbind (pte_get_entry k vicpgn) (\<lambda>vicpte.
             let vicfpn = ucast (PAGING_FPN vicpte) in
             rbind (MEMPHY_get_freefp (active_mswp k)) (\<lambda>(swpfpn, mp).
             let k = k\<lparr>active_mswp := mp\<rparr> in
             case swpfpn of
               None \<Rightarrow> Inr (None, k)
             | Some s \<Rightarrow>
                 rbind (swap_cp_page (mram k) vicfpn (active_mswp k) s) (\<lambda>(src, dst).
                 rbind (pte_set_swap (k\<lparr>mram := src, active_mswp := dst\<rparr>) vicpgn 0 s) (\<lambda>(_, k).
                   Inr (Some vicfpn, k)))))))"

text \<open>The part that fills the frame, enters it in the page table and lists the page.\<close>

definition load_page :: "krnl_t \<Rightarrow> addr \<Rightarrow> u32 \<Rightarrow> addr \<Rightarrow> krnl_t res" where
  "load_page k pgn pte tgtfpn =
     rbind (if PAGE_SWAPPED pte
            then rbind (swap_cp_page (active_mswp k) (ucast (PAGING_SWP pte)) (mram k) tgtfpn)
                   (\<lambda>(src, dst). Inr (k\<lparr>active_mswp := src, mram := dst\<rparr>))
            else Inr k) (\<lambda>k.
     rbind (pte_set_fpn k pgn tgtfpn) (\<lambda>(_, k). enlist_fifo k pgn))"

text \<open>\<open>pg_getpage\<close>: the frame number, or none where the code returns -1.\<close>

definition pg_getpage :: "krnl_t \<Rightarrow> int \<Rightarrow> (int option \<times> krnl_t) res" where
  "pg_getpage k pgn =
     rbind (pte_get_entry k (word_of_int pgn)) (\<lambda>pte.
     rbind (if \<not> PAGING_PAGE_PRESENT pte
            then rbind (take_frame k) (\<lambda>(tgt, k). case tgt of
                     None \<Rightarrow> Inr (False, k)
                   | Some tgtfpn \<Rightarrow>
                       rbind (load_page k (word_of_int pgn) pte tgtfpn) (\<lambda>k. Inr (True, k)))
            else Inr (True, k)) (\<lambda>(ok, k).
     if ok then rbind (pte_get_entry k (word_of_int pgn)) (\<lambda>pte.
                  Inr (Some (sint (PAGING_FPN pte)), k))
     else Inr (None, k)))"

text \<open>
  \<open>pg_getval\<close> and \<open>pg_setval\<close> on a signed 32-bit address. The page number and the offset are
  computed in \<open>unsigned int\<close> and stored in an \<open>int\<close>.
\<close>

definition pg_getval :: "krnl_t \<Rightarrow> int \<Rightarrow> (byte option \<times> krnl_t) res" where
  "pg_getval k a =
     (let pgn = sint (PAGING_PGN (word_of_int a :: u32));
          off = sint (PAGING_OFFST (word_of_int a :: u32)) in
      rbind (pg_getpage k pgn) (\<lambda>(fpn, k). case fpn of
        None \<Rightarrow> Inr (None, k)
      | Some f \<Rightarrow>
          (let phyaddr = push_bit PAGING_ADDR_FPN_LOBIT f + off in
           rbind (MEMPHY_read (mram k) (word_of_int phyaddr)) (\<lambda>(data, mp).
             Inr (data, k\<lparr>mram := mp\<rparr>)))))"

definition pg_setval :: "krnl_t \<Rightarrow> int \<Rightarrow> byte \<Rightarrow> (int \<times> krnl_t) res" where
  "pg_setval k a v =
     (let pgn = sint (PAGING_PGN (word_of_int a :: u32));
          off = sint (PAGING_OFFST (word_of_int a :: u32)) in
      rbind (pg_getpage k pgn) (\<lambda>(fpn, k). case fpn of
        None \<Rightarrow> Inr (-1, k)
      | Some f \<Rightarrow>
          (let phyaddr = push_bit PAGING_ADDR_FPN_LOBIT (word_of_int f) + word_of_int off in
           rbind (MEMPHY_write (mram k) phyaddr v) (\<lambda>(ret, mp).
             Inr (if ret \<noteq> 0 then -1 else 0, k\<lparr>mram := mp\<rparr>)))))"

text \<open>\<open>free_pcb_memph\<close>: the loop over the pages.\<close>

function free_loop :: "krnl_t \<Rightarrow> nat \<Rightarrow> nat \<Rightarrow> krnl_t res" where
  "free_loop k max_pgn pagenum =
     (if pagenum < max_pgn then
        rbind (pte_get_entry k (word_of_nat pagenum)) (\<lambda>pte.
          free_loop
            (if PAGING_PAGE_PRESENT pte
             then k\<lparr>mram := MEMPHY_put_freefp (mram k) (word_of_int (sint (PAGING_FPN pte)))\<rparr>
             else if PAGE_SWAPPED pte
             then k\<lparr>active_mswp := MEMPHY_put_freefp (active_mswp k) (word_of_int (sint (PAGING_SWP pte)))\<rparr>
             else k) max_pgn (pagenum + 1))
      else Inr k)"
  by pat_completeness auto
termination by (relation "measure (\<lambda>(k, n, i). n - i)") auto

declare free_loop.simps [simp del]

definition free_pcb_memph :: "krnl_t \<Rightarrow> (int \<times> krnl_t) res" where
  "free_pcb_memph k =
     (if mm k = None then Inr (-1, k)
      else rbind (free_loop k PAGING64_MAX_PGN 0) (\<lambda>k. Inr (0, k)))"

section \<open>The page table as a map\<close>

definition pview :: "mm_struct \<Rightarrow> nat \<Rightarrow> pte_view" where
  "pview m p = (if p < length (pgd m) then pte_decode (pgd m ! p) else Unmapped)"

definition owned :: "(nat \<Rightarrow> pte_view) \<Rightarrow> (nat \<Rightarrow> pte_view) \<Rightarrow> nat set" where
  "owned mk v = {f. \<exists>p. v p = mk f}"

definition free_frames :: "memphy_struct \<Rightarrow> nat set" where
  "free_frames mp = unat ` set (free_fp_list mp)"

text \<open>
  The entries that hold a frame of a device (\<open>mk\<close> is \<open>Present\<close> for RAM, \<open>Swapped\<close> for swap)
  hold frames inside it, none of them free, no two the same.
\<close>

definition slots_ok :: "(nat \<Rightarrow> pte_view) \<Rightarrow> (nat \<Rightarrow> pte_view) \<Rightarrow> memphy_struct \<Rightarrow> bool" where
  "slots_ok mk v d \<longleftrightarrow> (\<forall>p f. v p = mk f \<longrightarrow> f < nframes d \<and> f \<notin> free_frames d)
     \<and> (\<forall>p q f. v p = mk f \<longrightarrow> v q = mk f \<longrightarrow> p = q)"

definition fifo_ok :: "mm_struct \<Rightarrow> bool" where
  "fifo_ok m \<longleftrightarrow> distinct (fifo_pgn m) \<and> (\<forall>x \<in> set (fifo_pgn m). \<exists>f. pview m (unat x) = Present f)"

text \<open>
  The devices are no larger than the frame fields of an entry can address: 8192 frames of RAM
  and 2097152 of swap.
\<close>

definition pg_inv :: "mm_struct \<Rightarrow> krnl_t \<Rightarrow> bool" where
  "pg_inv m k \<longleftrightarrow> mm k = Some m \<and> length (pgd m) = PAGING_MAX_PGN
     \<and> mem_wf (mram k) \<and> mem_wf (active_mswp k)
     \<and> nframes (mram k) \<le> 8192 \<and> nframes (active_mswp k) \<le> 2097152
     \<and> slots_ok Present (pview m) (mram k) \<and> slots_ok Swapped (pview m) (active_mswp k)
     \<and> fifo_ok m"

lemma slots_ok_add:
  "slots_ok mk v d \<Longrightarrow> inj mk \<Longrightarrow> f < nframes d \<Longrightarrow> f \<notin> free_frames d \<Longrightarrow> f \<notin> owned mk v \<Longrightarrow>
     slots_ok mk (v(p := mk f)) d"
  by (auto simp: slots_ok_def owned_def inj_eq)

lemma slots_ok_del: "slots_ok mk v d \<Longrightarrow> \<forall>f. x \<noteq> mk f \<Longrightarrow> slots_ok mk (v(p := x)) d"
  by (auto simp: slots_ok_def)

lemma slots_ok_dev:
  "slots_ok mk v d \<Longrightarrow> nframes d' = nframes d \<Longrightarrow> free_frames d' \<subseteq> free_frames d \<Longrightarrow> slots_ok mk v d'"
  unfolding slots_ok_def by (metis in_mono)

lemma slots_ok_bound: "slots_ok mk v d \<Longrightarrow> v p = mk f \<Longrightarrow> f < nframes d \<and> f \<notin> free_frames d"
  by (auto simp: slots_ok_def)

lemma slots_ok_unique: "slots_ok mk v d \<Longrightarrow> v p = mk f \<Longrightarrow> v q = mk f \<Longrightarrow> p = q"
  by (auto simp: slots_ok_def)

lemma owned_add:
  assumes "inj mk" and "\<forall>g. v p \<noteq> mk g"
  shows "owned mk (v(p := mk f)) = insert f (owned mk v)"
proof (intro set_eqI iffI)
  fix x assume "x \<in> owned mk (v(p := mk f))"
  then obtain q where q: "(v(p := mk f)) q = mk x" by (auto simp: owned_def)
  then show "x \<in> insert f (owned mk v)"
    using assms(1) by (cases "q = p") (auto simp: inj_eq owned_def)
next
  fix x assume "x \<in> insert f (owned mk v)"
  then consider "x = f" | q where "v q = mk x" by (auto simp: owned_def)
  then show "x \<in> owned mk (v(p := mk f))"
  proof cases
    case 1
    then have "(v(p := mk f)) p = mk x" by simp
    then show ?thesis unfolding owned_def by blast
  next
    case 2
    then have "(v(p := mk f)) q = mk x" using assms(2) by auto
    then show ?thesis unfolding owned_def by blast
  qed
qed

lemma owned_move:
  assumes "inj mk" and "slots_ok mk v d" and "v p = mk f" and "\<forall>g. x \<noteq> mk g"
  shows "owned mk v = insert f (owned mk (v(p := x)))" and "f \<notin> owned mk (v(p := x))"
proof -
  have "v = (v(p := x))(p := mk f)" using assms(3) by auto
  then show "owned mk v = insert f (owned mk (v(p := x)))"
    using owned_add [OF assms(1), of "v(p := x)" p f] assms(4) by simp
  show "f \<notin> owned mk (v(p := x))"
  proof
    assume "f \<in> owned mk (v(p := x))"
    then obtain q where "(v(p := x)) q = mk f" by (auto simp: owned_def)
    then have "q \<noteq> p" "v q = mk f" using assms(4) by (auto split: if_splits)
    then show False using slots_ok_unique [OF assms(2,3), of q] by simp
  qed
qed

lemma owned_del: "\<forall>f. x \<noteq> mk f \<Longrightarrow> owned mk (v(p := x)) \<subseteq> owned mk v"
  by (auto simp: owned_def)

lemma inj_Present [simp]: "inj Present" and inj_Swapped [simp]: "inj Swapped"
  by (auto intro: injI)

lemma pview_update:
  "i < length (pgd m) \<Longrightarrow> pview (m\<lparr>pgd := (pgd m)[i := e]\<rparr>) = (pview m)(i := pte_decode e)"
  by (auto simp: pview_def fun_eq_iff)

lemma pview_set: "pgd m' = (pgd m)[i := e] \<Longrightarrow> i < length (pgd m) \<Longrightarrow>
    pview m' = (pview m)(i := pte_decode e)"
  by (auto simp: pview_def fun_eq_iff)

lemma pview_fifo [simp]: "pview (m\<lparr>fifo_pgn := l\<rparr>) = pview m"
  by (simp add: pview_def fun_eq_iff)

lemma pview_Unmapped: "length (pgd m) \<le> p \<Longrightarrow> pview m p = Unmapped"
  by (simp add: pview_def)

lemma pview_mapped: "pview m p \<noteq> Unmapped \<Longrightarrow> p < length (pgd m)"
  by (auto simp: pview_def split: if_splits)

lemma decode_ucast:
  "pte_decode e = Present f \<longleftrightarrow> PAGING_PAGE_PRESENT (ucast e) \<and> unat (PAGING_FPN (ucast e)) = f"
  "pte_decode e = Swapped f \<longleftrightarrow> \<not> PAGING_PAGE_PRESENT (ucast e) \<and> PAGE_SWAPPED (ucast e)
     \<and> unat (PAGING_SWP (ucast e)) = f"
  "pte_decode e = Unmapped \<longleftrightarrow> \<not> PAGING_PAGE_PRESENT (ucast e) \<and> \<not> PAGE_SWAPPED (ucast e)"
  by (auto simp: pte_decode_def Let_def)

section \<open>Steps on the page table\<close>

lemma pte_modify_in:
  "mm k = Some m \<Longrightarrow> unat pgn < length (pgd m) \<Longrightarrow> pte_modify k pgn f =
     Inr (k\<lparr>mm := Some (m\<lparr>pgd := (pgd m)[unat pgn := f (pgd m ! unat pgn)]\<rparr>)\<rparr>)"
  by (simp add: pte_modify_def the_mm_def)

lemma pte_get_entry_in:
  "mm k = Some m \<Longrightarrow> unat pgn < length (pgd m) \<Longrightarrow> pte_get_entry k pgn = Inr (ucast (pgd m ! unat pgn))"
  by (simp add: pte_get_entry_def the_mm_def)

lemma pte_get_entry_view:
  assumes "mm k = Some m" and "unat pgn < length (pgd m)"
  obtains pte where "pte_get_entry k pgn = Inr pte"
    "PAGING_PAGE_PRESENT pte \<longleftrightarrow> pview m (unat pgn) = Present (unat (PAGING_FPN pte))"
    "\<not> PAGING_PAGE_PRESENT pte \<Longrightarrow>
       PAGE_SWAPPED pte \<longleftrightarrow> pview m (unat pgn) = Swapped (unat (PAGING_SWP pte))"
  using pte_get_entry_in [OF assms] assms(2) by (auto simp: pview_def decode_ucast)

lemma victim_loop_eq:
  "xs \<noteq> [] \<Longrightarrow> length xs + cnt \<le> 10002 \<Longrightarrow>
     victim_loop xs before cnt = Some (last xs, rev before @ butlast xs)"
  by (induction xs before cnt rule: victim_loop.induct) auto

lemma victim_loop_Some:
  "victim_loop xs before cnt = Some (pg, rest) \<Longrightarrow> xs \<noteq> [] \<and> pg = last xs \<and> rest = rev before @ butlast xs"
  by (induction xs before cnt rule: victim_loop.induct) (auto split: if_splits)

lemma find_victim_cases:
  obtains (none) "find_victim_page m = (None, m)"
  | (some) pg where "find_victim_page m = (Some pg, m\<lparr>fifo_pgn := butlast (fifo_pgn m)\<rparr>)"
      "fifo_pgn m = butlast (fifo_pgn m) @ [pg]"
proof (cases "victim_loop (fifo_pgn m) [] 0")
  case None
  then show ?thesis using none by (simp add: find_victim_page_def)
next
  case (Some a)
  obtain pg rest where a: "a = (pg, rest)" by (cases a)
  show ?thesis
    using some [of pg] victim_loop_Some [of "fifo_pgn m" "[]" 0 pg rest] Some a
    by (simp add: find_victim_page_def)
qed

section \<open>Content and footprint\<close>

text \<open>
  What the program sees: the byte at offset \<open>j\<close> of page \<open>p\<close>, whichever device holds the page;
  nothing for a page that was never mapped.
\<close>

definition content_of :: "(nat \<Rightarrow> pte_view) \<Rightarrow> byte list \<Rightarrow> byte list \<Rightarrow> nat \<Rightarrow> nat \<Rightarrow> byte option" where
  "content_of v ram swp p j =
     (if j < 256 then case v p of
         Unmapped \<Rightarrow> None
       | Present f \<Rightarrow> Some (cell ram f j)
       | Swapped f \<Rightarrow> Some (cell swp f j)
      else None)"

definition content :: "krnl_t \<Rightarrow> nat \<Rightarrow> nat \<Rightarrow> byte option" where
  "content k = (case mm k of
      None \<Rightarrow> (\<lambda>_ _. None)
    | Some m \<Rightarrow> content_of (pview m) (storage (mram k)) (storage (active_mswp k)))"

text \<open>The frames of a device that the process holds or can still get.\<close>

definition reach :: "(nat \<Rightarrow> pte_view) \<Rightarrow> mm_struct \<Rightarrow> memphy_struct \<Rightarrow> nat set" where
  "reach mk m d = owned mk (pview m) \<union> free_frames d"

text \<open>
  A device changes only in frames of \<open>R\<close>, and afterwards the process reaches no frame but those
  of \<open>R\<close>.
\<close>

definition dev_step :: "nat set \<Rightarrow> nat set \<Rightarrow> memphy_struct \<Rightarrow> memphy_struct \<Rightarrow> bool" where
  "dev_step R R' d d' \<longleftrightarrow> R' \<subseteq> R \<and> length (storage d') = length (storage d)
     \<and> maxsz d' = maxsz d \<and> rdmflg d' = rdmflg d
     \<and> (\<forall>f j. f < nframes d \<longrightarrow> f \<notin> R \<longrightarrow> j < 256 \<longrightarrow> cell (storage d') f j = cell (storage d) f j)"

definition pg_step :: "mm_struct \<Rightarrow> krnl_t \<Rightarrow> mm_struct \<Rightarrow> krnl_t \<Rightarrow> bool" where
  "pg_step m k m' k' \<longleftrightarrow>
     dev_step (reach Present m (mram k)) (reach Present m' (mram k')) (mram k) (mram k')
   \<and> dev_step (reach Swapped m (active_mswp k)) (reach Swapped m' (active_mswp k'))
       (active_mswp k) (active_mswp k')"

definition same_areas :: "mm_struct \<Rightarrow> mm_struct \<Rightarrow> bool" where
  "same_areas m m' \<longleftrightarrow> mmap m' = mmap m \<and> symrgtbl m' = symrgtbl m"

lemma same_areas_simps [simp]:
  "same_areas m m" "same_areas m (m\<lparr>pgd := t\<rparr>)" "same_areas m (m\<lparr>fifo_pgn := l\<rparr>)"
  by (simp_all add: same_areas_def)

lemma same_areas_trans: "same_areas m m' \<Longrightarrow> same_areas m' m'' \<Longrightarrow> same_areas m m''"
  by (simp add: same_areas_def)

lemma dev_step_refl: "R' \<subseteq> R \<Longrightarrow> dev_step R R' d d"
  by (simp add: dev_step_def)

lemma nframes_cong: "length (storage d') = length (storage d) \<Longrightarrow> nframes d' = nframes d"
  by (simp add: nframes_def)

lemma dev_step_trans:
  assumes "dev_step R R' d d'" and "dev_step R' R'' d' d''"
  shows "dev_step R R'' d d''"
  using assms nframes_cong [of d' d] unfolding dev_step_def by (metis subset_iff)

lemma pg_step_refl: "pg_step m k m k"
  by (simp add: pg_step_def dev_step_refl)

lemma pg_step_trans: "pg_step m k m' k' \<Longrightarrow> pg_step m' k' m'' k'' \<Longrightarrow> pg_step m k m'' k''"
  unfolding pg_step_def using dev_step_trans by blast

lemma dev_step_widen:
  "dev_step R1 R1' d d' \<Longrightarrow> R1 \<subseteq> R \<Longrightarrow> R' \<subseteq> R \<Longrightarrow> dev_step R R' d d'"
  unfolding dev_step_def by blast

lemma free_frames_rest: "mem_rest d' = mem_rest d \<Longrightarrow> free_frames d' = free_frames d"
  by (simp add: free_frames_def mem_rest_def)

lemma content_mm: "mm k = Some m \<Longrightarrow>
    content k = content_of (pview m) (storage (mram k)) (storage (active_mswp k))"
  by (simp add: content_def)

lemma content_of_cong:
  assumes "\<And>p. v' p = v p"
    and "\<And>p f j. v p = Present f \<Longrightarrow> j < 256 \<Longrightarrow> cell ram' f j = cell ram f j"
    and "\<And>p f j. v p = Swapped f \<Longrightarrow> j < 256 \<Longrightarrow> cell swp' f j = cell swp f j"
  shows "content_of v' ram' swp' = content_of v ram swp"
  using assms by (auto simp: content_of_def fun_eq_iff split: pte_view.splits)

text \<open>Popping the free list.\<close>

lemma pop_frame:
  assumes "mem_wf d" and "free_fp_list d = f # free_fp_list d'"
    and "d' = d\<lparr>free_fp_list := tl (free_fp_list d)\<rparr>"
  shows "free_frames d = insert (unat f) (free_frames d')" and "unat f \<notin> free_frames d'"
    and "storage d' = storage d" and "nframes d' = nframes d"
    and "maxsz d' = maxsz d" and "rdmflg d' = rdmflg d"
proof -
  show "free_frames d = insert (unat f) (free_frames d')"
    unfolding free_frames_def assms(2) by simp
  show "unat f \<notin> free_frames d'"
    using assms(1) unfolding free_frames_def mem_wf_def assms(2) by (auto dest!: unsigned_word_eqI)
qed (simp_all add: assms(3) nframes_def)

lemma pg_invD:
  assumes "pg_inv m k"
  shows "mm k = Some m" "length (pgd m) = 16384" "mem_wf (mram k)" "mem_wf (active_mswp k)"
    "nframes (mram k) \<le> 8192" "nframes (active_mswp k) \<le> 2097152"
    "slots_ok Present (pview m) (mram k)" "slots_ok Swapped (pview m) (active_mswp k)" "fifo_ok m"
  using assms by (auto simp: pg_inv_def PAGING_MAX_PGN_eq)

lemma pg_invI:
  assumes "mm k = Some m" "length (pgd m) = 16384" "mem_wf (mram k)" "mem_wf (active_mswp k)"
    "nframes (mram k) \<le> 8192" "nframes (active_mswp k) \<le> 2097152"
    "slots_ok Present (pview m) (mram k)" "slots_ok Swapped (pview m) (active_mswp k)" "fifo_ok m"
  shows "pg_inv m k"
  using assms by (auto simp: pg_inv_def PAGING_MAX_PGN_eq)

lemma fifo_ok_butlast: "fifo_ok m \<Longrightarrow> fifo_ok (m\<lparr>fifo_pgn := butlast (fifo_pgn m)\<rparr>)"
  by (auto simp: fifo_ok_def distinct_butlast dest: in_set_butlastD)

section \<open>Finding a frame\<close>

text \<open>Swap frames only leave the free list, and a page that is swapped out takes one of them.\<close>

definition swap_use :: "mm_struct \<Rightarrow> krnl_t \<Rightarrow> mm_struct \<Rightarrow> krnl_t \<Rightarrow> bool" where
  "swap_use m k m' k' \<longleftrightarrow> free_frames (active_mswp k') \<subseteq> free_frames (active_mswp k)
     \<and> (\<forall>q s. pview m' q = Swapped s \<longrightarrow> pview m q = Swapped s \<or> s \<in> free_frames (active_mswp k))"

lemma swap_use_refl [simp]: "swap_use m k m k"
  by (simp add: swap_use_def)

text \<open>
  What \<open>take_frame\<close> leaves: content and bounds are kept, the entry of a page that was not in RAM
  is untouched, and the frame is nobody's.
\<close>

definition frame_taken :: "mm_struct \<Rightarrow> krnl_t \<Rightarrow> addr option \<Rightarrow> mm_struct \<Rightarrow> krnl_t \<Rightarrow> bool" where
  "frame_taken m k r m' k' \<longleftrightarrow> pg_inv m' k' \<and> same_areas m m' \<and> content k' = content k
     \<and> pg_step m k m' k' \<and> swap_use m k m' k'
     \<and> (\<forall>p. (\<forall>f. pview m p \<noteq> Present f) \<longrightarrow> pview m' p = pview m p)
     \<and> (case r of
          None \<Rightarrow> reach Present m' (mram k') = reach Present m (mram k)
        | Some f \<Rightarrow> unat f < nframes (mram k) \<and> unat f \<notin> reach Present m' (mram k')
            \<and> reach Present m (mram k) = insert (unat f) (reach Present m' (mram k')))"

lemma owned_not_free:
  "slots_ok mk (pview m) d \<Longrightarrow> f \<in> owned mk (pview m) \<Longrightarrow> f < nframes d \<and> f \<notin> free_frames d"
  by (auto simp: owned_def slots_ok_def)

text \<open>A free RAM frame is taken.\<close>

lemma take_free:
  assumes inv: "pg_inv m k" and f: "free_fp_list (mram k) = f # free_fp_list d'"
    "d' = (mram k)\<lparr>free_fp_list := tl (free_fp_list (mram k))\<rparr>" "mem_wf d'" "unat f < nframes (mram k)"
  shows "frame_taken m k (Some f) m (k\<lparr>mram := d'\<rparr>)"
proof -
  note i = pg_invD [OF inv]
  note p = pop_frame [OF i(3) f(1,2)]
  have so: "slots_ok Present (pview m) d'"
    by (rule slots_ok_dev [OF i(7)]) (use p in auto)
  have "unat f \<notin> owned Present (pview m)"
    using owned_not_free [OF i(7)] p(1) by blast
  then have r: "reach Present m (mram k) = insert (unat f) (reach Present m d')"
      "unat f \<notin> reach Present m d'"
    using p(1,2) by (auto simp: reach_def)
  have "pg_inv m (k\<lparr>mram := d'\<rparr>)"
    by (rule pg_invI) (use i so f(3) p(4) in simp_all)
  moreover have "pg_step m k m (k\<lparr>mram := d'\<rparr>)"
    using r(1) p by (auto simp: pg_step_def dev_step_def)
  moreover have "content (k\<lparr>mram := d'\<rparr>) = content k"
    using i(1) p(3) by (simp add: content_def)
  ultimately show ?thesis using r f(4) by (simp add: frame_taken_def swap_use_def)
qed

text \<open>No frame is free and no victim or no swap frame is found: at most the list is shorter.\<close>

lemma take_none:
  assumes inv: "pg_inv m k" and l: "l = fifo_pgn m \<or> l = butlast (fifo_pgn m)"
  shows "frame_taken m k None (m\<lparr>fifo_pgn := l\<rparr>) (k\<lparr>mm := Some (m\<lparr>fifo_pgn := l\<rparr>)\<rparr>)"
proof -
  note i = pg_invD [OF inv]
  have "fifo_ok (m\<lparr>fifo_pgn := l\<rparr>)" using i(9) l fifo_ok_butlast [OF i(9)] by auto
  then have "pg_inv (m\<lparr>fifo_pgn := l\<rparr>) (k\<lparr>mm := Some (m\<lparr>fifo_pgn := l\<rparr>)\<rparr>)"
    by (intro pg_invI) (use i in simp_all)
  then show ?thesis
    using i(1) by (simp add: frame_taken_def content_def pg_step_def dev_step_def reach_def swap_use_def)
qed

text \<open>
  A victim page \<open>v\<close> in frame \<open>vf\<close> moves to the swap frame \<open>s\<close>: \<open>d\<close> is the swap device without that
  frame, \<open>src\<close> and \<open>dst\<close> are the devices after the copy, \<open>m'\<close> is the memory of the process.
\<close>

definition victim_moved :: "mm_struct \<Rightarrow> krnl_t \<Rightarrow> addr \<Rightarrow> addr \<Rightarrow> addr \<Rightarrow> memphy_struct \<Rightarrow> memphy_struct \<Rightarrow> memphy_struct
    \<Rightarrow> mm_struct \<Rightarrow> bool" where
  "victim_moved m k v vf s d src dst m' \<longleftrightarrow> pg_inv m k \<and> fifo_pgn m = butlast (fifo_pgn m) @ [v]
     \<and> pview m (unat v) = Present (unat vf)
     \<and> free_fp_list (active_mswp k) = s # free_fp_list d
     \<and> d = (active_mswp k)\<lparr>free_fp_list := tl (free_fp_list (active_mswp k))\<rparr>
     \<and> mem_wf d \<and> unat s < nframes (active_mswp k)
     \<and> storage src = storage (mram k) \<and> mem_rest src = mem_rest (mram k)
     \<and> mem_rest dst = mem_rest d \<and> length (storage dst) = length (storage d)
     \<and> (\<forall>g j. g < nframes d \<longrightarrow> j < 256 \<longrightarrow> cell (storage dst) g j =
         (if g = unat s then cell (storage (mram k)) (unat vf) j else cell (storage d) g j))
     \<and> (\<exists>e. m' = m\<lparr>fifo_pgn := butlast (fifo_pgn m), pgd := (pgd m)[unat v := swap_entry e 0 s]\<rparr>)"

lemma victim_movedD:
  assumes "victim_moved m k v vf s d src dst m'"
  shows "pg_inv m k" "fifo_pgn m = butlast (fifo_pgn m) @ [v]" "pview m (unat v) = Present (unat vf)"
    "free_fp_list (active_mswp k) = s # free_fp_list d" "d = (active_mswp k)\<lparr>free_fp_list := tl (free_fp_list (active_mswp k))\<rparr>"
    "mem_wf d" "unat s < nframes (active_mswp k)" "storage src = storage (mram k)" "mem_rest src = mem_rest (mram k)"
    "mem_rest dst = mem_rest d" "length (storage dst) = length (storage d)"
    "g < nframes d \<Longrightarrow> j < 256 \<Longrightarrow> cell (storage dst) g j =
         (if g = unat s then cell (storage (mram k)) (unat vf) j else cell (storage d) g j)"
    "fifo_pgn m' = butlast (fifo_pgn m)" "same_areas m m'" "length (pgd m') = length (pgd m)"
proof -
  obtain e where "m' = m\<lparr>fifo_pgn := butlast (fifo_pgn m), pgd := (pgd m)[unat v := swap_entry e 0 s]\<rparr>"
    using assms unfolding victim_moved_def by blast
  then show "fifo_pgn m' = butlast (fifo_pgn m)" "same_areas m m'" "length (pgd m') = length (pgd m)"
    by (simp_all add: same_areas_def)
qed (use assms in \<open>unfold victim_moved_def, blast+\<close>)

lemma victim_view:
  assumes vm: "victim_moved m k v vf s d src dst m'"
  shows "pview m' = (pview m)(unat v := Swapped (unat s))"
proof -
  note V = victim_movedD [OF vm]
  note i = pg_invD [OF V(1)]
  obtain e where m': "m' = m\<lparr>fifo_pgn := butlast (fifo_pgn m), pgd := (pgd m)[unat v := swap_entry e 0 s]\<rparr>"
    using vm unfolding victim_moved_def by blast
  have "unat v < 16384" using pview_mapped [of m "unat v"] V(3) i(2) by simp
  then show ?thesis
    using pview_set [of m' m "unat v" "swap_entry e 0 s"] i(2,6) V(7) by (simp add: m' decode_swap_entry)
qed

lemma victim_devices:
  assumes vm: "victim_moved m k v vf s d src dst m'"
  shows "nframes src = nframes (mram k)" "nframes dst = nframes (active_mswp k)" "nframes d = nframes (active_mswp k)"
    "free_frames src = free_frames (mram k)" "free_frames dst = free_frames d"
    "free_frames (active_mswp k) = insert (unat s) (free_frames d)" "unat s \<notin> free_frames d" "unat s \<notin> owned Swapped (pview m)"
    "slots_ok Present (pview m') src" "slots_ok Swapped (pview m') dst"
proof -
  note V = victim_movedD [OF vm]
  note i = pg_invD [OF V(1)] and p = pop_frame [OF pg_invD(4) [OF V(1)] V(4,5)] and view = victim_view [OF vm]
  show nf: "nframes src = nframes (mram k)" "nframes dst = nframes (active_mswp k)" "nframes d = nframes (active_mswp k)"
    using V(8,11) p(3) by (simp_all add: nframes_def)
  show fr: "free_frames src = free_frames (mram k)" "free_frames dst = free_frames d"
    by (rule free_frames_rest [OF V(9)], rule free_frames_rest [OF V(10)])
  show "free_frames (active_mswp k) = insert (unat s) (free_frames d)" "unat s \<notin> free_frames d" by (rule p)+
  show new: "unat s \<notin> owned Swapped (pview m)" using owned_not_free [OF i(8)] p(1) by blast
  have "slots_ok Present (pview m) src" by (rule slots_ok_dev [OF i(7)]) (simp_all add: nf fr)
  then show "slots_ok Present (pview m') src" unfolding view by (rule slots_ok_del) simp
  have "slots_ok Swapped (pview m) dst" by (rule slots_ok_dev [OF i(8)]) (use nf fr p(1) in auto)
  then show "slots_ok Swapped (pview m') dst" unfolding view
    by (rule slots_ok_add) (simp_all add: nf fr p(2) V(7) new)
qed

lemma victim_fifo:
  assumes vm: "victim_moved m k v vf s d src dst m'"
  shows "fifo_ok m'"
proof -
  note V = victim_movedD [OF vm]
  note i = pg_invD [OF V(1)]
  have dist: "distinct (fifo_pgn m)" using i(9) by (simp add: fifo_ok_def)
  then have nv: "v \<notin> set (butlast (fifo_pgn m))" using V(2)
    by (metis distinct.simps(2) distinct_rev rev.simps(2) rev_rev_ident set_rev)
  have "\<exists>f. pview m' (unat x) = Present f" if "x \<in> set (butlast (fifo_pgn m))" for x
  proof -
    have "unat x \<noteq> unat v" using that nv by (auto dest!: unsigned_word_eqI)
    moreover have "\<exists>f. pview m (unat x) = Present f"
      using i(9) that by (auto simp: fifo_ok_def dest: in_set_butlastD)
    ultimately show ?thesis by (simp add: victim_view [OF vm])
  qed
  then show ?thesis using dist by (simp add: fifo_ok_def V(13) distinct_butlast)
qed

lemma victim_content:
  assumes vm: "victim_moved m k v vf s d src dst m'"
  shows "content (k\<lparr>mm := Some m', mram := src, active_mswp := dst\<rparr>) = content k"
proof -
  note V = victim_movedD [OF vm]
  note i = pg_invD [OF V(1)] and p = pop_frame [OF pg_invD(4) [OF V(1)] V(4,5)] and D = victim_devices [OF vm]
  have "cell (storage dst) f j = cell (storage (active_mswp k)) f j"
    if "pview m p = Swapped f" "j < 256" for p f j
    using that V(12) p(3) D(8) slots_ok_bound [OF i(8) that(1)] D(3) by (auto simp: owned_def)
  moreover have "cell (storage dst) (unat s) j = cell (storage (mram k)) (unat vf) j"
    if "j < 256" for j using that V(12) D(3) V(7) by simp
  ultimately show ?thesis using V(3)
    by (auto simp: content_def i(1) victim_view [OF vm] content_of_def V(8) fun_eq_iff split: pte_view.splits)
qed

lemma victim_reach:
  assumes vm: "victim_moved m k v vf s d src dst m'"
  shows "reach Present m (mram k) = insert (unat vf) (reach Present m' src)" "unat vf \<notin> reach Present m' src"
    "reach Swapped m' dst \<subseteq> reach Swapped m (active_mswp k)" "unat s \<in> reach Swapped m (active_mswp k)"
proof -
  note V = victim_movedD [OF vm]
  note i = pg_invD [OF V(1)] and D = victim_devices [OF vm] and view = victim_view [OF vm]
  show "reach Present m (mram k) = insert (unat vf) (reach Present m' src)" "unat vf \<notin> reach Present m' src"
    using owned_move [OF inj_Present i(7) V(3), of "Swapped (unat s)"] slots_ok_bound [OF i(7) V(3)] D(4)
    by (simp_all add: reach_def view)
  show "reach Swapped m' dst \<subseteq> reach Swapped m (active_mswp k)" "unat s \<in> reach Swapped m (active_mswp k)"
    using owned_add [OF inj_Swapped, of "pview m" "unat v" "unat s"] V(3) D(5,6)
    by (auto simp: reach_def view)
qed

lemma victim_step:
  assumes vm: "victim_moved m k v vf s d src dst m'"
  shows "pg_step m k m' (k\<lparr>mm := Some m', mram := src, active_mswp := dst\<rparr>)"
proof -
  note V = victim_movedD [OF vm]
  note i = pg_invD [OF V(1)] and D = victim_devices [OF vm] and reach = victim_reach [OF vm]
  note p = pop_frame [OF pg_invD(4) [OF V(1)] V(4,5)] and rs = mem_rest_sel [OF V(9)] mem_rest_sel [OF V(10)]
  have "dev_step (reach Present m (mram k)) (reach Present m' src) (mram k) src"
    unfolding dev_step_def using rs(1) by (simp add: reach(1) V(8) subset_insertI)
  moreover have "dev_step (reach Swapped m (active_mswp k)) (reach Swapped m' dst) (active_mswp k) dst"
    unfolding dev_step_def
  proof (intro conjI allI impI)
    fix f j assume "f < nframes (active_mswp k)" "f \<notin> reach Swapped m (active_mswp k)" "j < (256 :: nat)"
    then have "f \<noteq> unat s" "f < nframes d" using reach(4) D(3) by auto
    then show "cell (storage dst) f j = cell (storage (active_mswp k)) f j"
      using V(12) \<open>j < 256\<close> p(3) by simp
  qed (use reach(3) rs(2) V(11) p(3,5,6) in simp_all)
  ultimately show ?thesis by (simp add: pg_step_def)
qed

lemma take_victim:
  assumes vm: "victim_moved m k v vf s d src dst m'"
  shows "frame_taken m k (Some vf) m' (k\<lparr>mm := Some m', mram := src, active_mswp := dst\<rparr>)"
    (is "frame_taken m k _ m' ?k")
proof -
  note V = victim_movedD [OF vm]
  note i = pg_invD [OF V(1)] and D = victim_devices [OF vm] and view = victim_view [OF vm]
  have "pg_inv m' ?k"
    by (intro pg_invI) (use i D V(14,15) victim_fifo [OF vm] mem_wf_cong [of src "mram k"] mem_wf_cong [of dst d] V(6,8-11)
        in simp_all)
  moreover have "unat vf < nframes (mram k)" using slots_ok_bound [OF i(7) V(3)] by simp
  moreover have "pview m' p = pview m p" if "\<forall>f. pview m p \<noteq> Present f" for p
    using that V(3) view by auto
  moreover have "swap_use m k m' ?k" using D(5,6) by (auto simp: swap_use_def view)
  ultimately show ?thesis
    using V(14) victim_content [OF vm] victim_step [OF vm] victim_reach [OF vm] by (simp add: frame_taken_def)
qed

text \<open>The list never gets so long that the safety counter of \<open>find_victim_page\<close> trips.\<close>

lemma fifo_length:
  assumes "pg_inv m k"
  shows "length (fifo_pgn m) \<le> 8192"
proof -
  note i = pg_invD [OF assms]
  let ?fr = "\<lambda>x :: addr. THE f. pview m (unat x) = Present f"
  have fr: "pview m (unat x) = Present (?fr x)" if "x \<in> set (fifo_pgn m)" for x
    using i(9) that by (auto simp: fifo_ok_def)
  have "inj_on ?fr (set (fifo_pgn m))"
  proof (rule inj_onI)
    fix x y assume "x \<in> set (fifo_pgn m)" "y \<in> set (fifo_pgn m)" "?fr x = ?fr y"
    then have "unat x = unat y" using slots_ok_unique [OF i(7), of "unat x" _ "unat y"] fr by metis
    then show "x = y" by (rule unsigned_word_eqI)
  qed
  moreover have "?fr ` set (fifo_pgn m) \<subseteq> {..<8192}"
    using slots_ok_bound [OF i(7) fr] i(5) by fastforce
  ultimately have "card (set (fifo_pgn m)) \<le> card {..<8192::nat}"
    by (intro card_inj_on_le) auto
  moreover have "distinct (fifo_pgn m)" using i(9) by (simp add: fifo_ok_def)
  ultimately show ?thesis by (simp add: distinct_card)
qed

lemma find_victim_eq:
  assumes "pg_inv m k"
  shows "find_victim_page m = (if fifo_pgn m = [] then (None, m)
     else (Some (last (fifo_pgn m)), m\<lparr>fifo_pgn := butlast (fifo_pgn m)\<rparr>))"
  using victim_loop_eq [of "fifo_pgn m" 0 "[]"] fifo_length [OF assms]
  by (auto simp: find_victim_page_def)

text \<open>With no free frame and a listed page, \<open>take_frame\<close> asks for a swap frame for the last listed page.\<close>

lemma take_frame_swaps:
  assumes inv: "pg_inv m k" and none: "MEMPHY_get_freefp (mram k) = Inr (None, mram k)" and ne: "fifo_pgn m \<noteq> []"
  obtains v vf where "fifo_pgn m = butlast (fifo_pgn m) @ [v]" "unat v < length (pgd m)" "pview m (unat v) = Present (unat vf)"
    "take_frame k = rbind (MEMPHY_get_freefp (active_mswp k)) (\<lambda>(swpfpn, mp).
       let k = k\<lparr>mm := Some (m\<lparr>fifo_pgn := butlast (fifo_pgn m)\<rparr>), active_mswp := mp\<rparr> in
       case swpfpn of
         None \<Rightarrow> Inr (None, k)
       | Some s \<Rightarrow>
           rbind (swap_cp_page (mram k) vf (active_mswp k) s) (\<lambda>(src, dst).
           rbind (pte_set_swap (k\<lparr>mram := src, active_mswp := dst\<rparr>) v 0 s) (\<lambda>(_, k). Inr (Some vf, k))))"
proof -
  note i = pg_invD [OF inv]
  let ?v = "last (fifo_pgn m)"
  let ?vf = "ucast (PAGING_FPN (ucast (pgd m ! unat ?v))) :: addr"
  have v: "fifo_pgn m = butlast (fifo_pgn m) @ [?v]" using ne by simp
  obtain g where vw: "pview m (unat ?v) = Present g" using i(9) last_in_set [OF ne] unfolding fifo_ok_def by blast
  then have vlen: "unat ?v < length (pgd m)" by (intro pview_mapped) simp
  have vf: "pview m (unat ?v) = Present (unat ?vf)" using vw vlen by (simp add: pview_def decode_ucast)
  have k: "k\<lparr>mram := mram k\<rparr> = k" by simp
  show ?thesis
    by (rule that [OF v vlen vf]) (unfold take_frame_def none,
      use ne vlen in \<open>simp add: Let_def k the_mm_def i(1) find_victim_eq [OF inv] pte_get_entry_in cong: option.case_cong\<close>)
qed

lemma take_frame_evict:
  assumes inv: "pg_inv m k" and none: "MEMPHY_get_freefp (mram k) = Inr (None, mram k)" and ne: "fifo_pgn m \<noteq> []"
  shows "returns (take_frame k) (\<lambda>(r, k'). (\<exists>m'. frame_taken m k r m' k') \<and> (r = None \<longleftrightarrow> free_fp_list (active_mswp k) = []))"
proof -
  note i = pg_invD [OF inv]
  obtain v vf where v: "fifo_pgn m = butlast (fifo_pgn m) @ [v]" "unat v < length (pgd m)" "pview m (unat v) = Present (unat vf)"
    and t: "take_frame k = rbind (MEMPHY_get_freefp (active_mswp k)) (\<lambda>(swpfpn, mp).
       let k = k\<lparr>mm := Some (m\<lparr>fifo_pgn := butlast (fifo_pgn m)\<rparr>), active_mswp := mp\<rparr> in
       case swpfpn of
         None \<Rightarrow> Inr (None, k)
       | Some s \<Rightarrow>
           rbind (swap_cp_page (mram k) vf (active_mswp k) s) (\<lambda>(src, dst).
           rbind (pte_set_swap (k\<lparr>mram := src, active_mswp := dst\<rparr>) v 0 s) (\<lambda>(_, k). Inr (Some vf, k))))"
    using take_frame_swaps [OF assms] by blast
  from i(4) show ?thesis
  proof (cases rule: MEMPHY_get_freefp_cases)
    case no_swap: none
    have "k\<lparr>mm := Some x, active_mswp := active_mswp k\<rparr> = k\<lparr>mm := Some x\<rparr>" for x by simp
    then have "take_frame k = Inr (None, k\<lparr>mm := Some (m\<lparr>fifo_pgn := butlast (fifo_pgn m)\<rparr>)\<rparr>)"
      unfolding t no_swap(2) by (simp add: Let_def)
    then show ?thesis using take_none [OF inv, of "butlast (fifo_pgn m)"] no_swap by auto
  next
    case (some s d')
    have len: "length (storage (mram k)) < 2 ^ 64" "length (storage d') < 2 ^ 64" "nframes d' = nframes (active_mswp k)"
      using i(3,4) some(2) by (simp_all add: mem_wf_def nframes_def)
    have vflt: "unat vf < nframes (mram k)" using slots_ok_bound [OF i(7) v(3)] by simp
    obtain src dst where cp: "swap_cp_page (mram k) vf d' s = Inr (src, dst)"
      "storage src = storage (mram k)" "mem_rest src = mem_rest (mram k)" "mem_rest dst = mem_rest d'"
      "length (storage dst) = length (storage d')"
      "\<forall>g j. g < nframes d' \<longrightarrow> j < 256 \<longrightarrow> cell (storage dst) g j =
         (if g = unat s then cell (storage (mram k)) (unat vf) j else cell (storage d') g j)"
      using swap_cp_page_ok [of vf "mram k" s d'] len some(5) vflt by (auto elim!: returnsE)
    let ?m' = "m\<lparr>fifo_pgn := butlast (fifo_pgn m), pgd := (pgd m)[unat v := swap_entry (pgd m ! unat v) 0 s]\<rparr>"
    have "take_frame k = Inr (Some vf, k\<lparr>mm := Some ?m', mram := src, active_mswp := dst\<rparr>)"
      unfolding t some(1) using v(2) by (simp add: Let_def cp(1) pte_set_swap_def pte_modify_in)
    moreover have "victim_moved m k v vf s d' src dst ?m'"
      unfolding victim_moved_def using inv v(1,3) some(3,2,4,5) cp(2-6) by blast
    then have "frame_taken m k (Some vf) ?m' (k\<lparr>mm := Some ?m', mram := src, active_mswp := dst\<rparr>)" by (rule take_victim)
    moreover have "free_fp_list (active_mswp k) \<noteq> []" using some(3) by auto
    ultimately show ?thesis by auto
  qed
qed

lemma take_frame_spec:
  assumes inv: "pg_inv m k"
  shows "returns (take_frame k) (\<lambda>(r, k'). (\<exists>m'. frame_taken m k r m' k') \<and>
     (r = None \<longleftrightarrow> free_fp_list (mram k) = [] \<and>
        (fifo_pgn m = [] \<or> free_fp_list (active_mswp k) = [])))"
proof -
  note i = pg_invD [OF inv]
  from i(3) show ?thesis
  proof (cases rule: MEMPHY_get_freefp_cases)
    case (some f d')
    have "take_frame k = Inr (Some f, k\<lparr>mram := d'\<rparr>)"
      unfolding take_frame_def some(1) by (simp add: Let_def)
    moreover have "frame_taken m k (Some f) m (k\<lparr>mram := d'\<rparr>)"
      by (rule take_free [OF inv some(3,2,4,5)])
    moreover have "free_fp_list (mram k) \<noteq> []" using some(3) by auto
    ultimately show ?thesis by auto
  next
    case none
    show ?thesis
    proof (cases "fifo_pgn m = []")
      case True
      have "k\<lparr>mram := mram k\<rparr> = k" by simp
      then have "take_frame k = Inr (None, k\<lparr>mm := Some m\<rparr>)"
        unfolding take_frame_def none(2) by (simp add: Let_def the_mm_def i(1) find_victim_eq [OF inv] True)
      moreover have "frame_taken m k None m (k\<lparr>mm := Some m\<rparr>)"
        using take_none [OF inv, of "fifo_pgn m"] by simp
      ultimately show ?thesis using none(1) True by auto
    next
      case False
      from take_frame_evict [OF inv none(2) False] show ?thesis using none(1) False by simp
    qed
  qed
qed

section \<open>Loading a page\<close>

text \<open>What \<open>load_page\<close> leaves when page \<open>p\<close> gets the frame \<open>f\<close>.\<close>

definition page_loaded :: "mm_struct \<Rightarrow> krnl_t \<Rightarrow> nat \<Rightarrow> nat \<Rightarrow> mm_struct \<Rightarrow> krnl_t \<Rightarrow> bool" where
  "page_loaded m k p f m' k' \<longleftrightarrow> pg_inv m' k' \<and> same_areas m m'
     \<and> pview m' = (pview m)(p := Present f)
     \<and> free_frames (active_mswp k') = free_frames (active_mswp k)
     \<and> (\<forall>q. q \<noteq> p \<or> pview m p \<noteq> Unmapped \<longrightarrow> content k' q = content k q)
     \<and> reach Present m' (mram k') = insert f (reach Present m (mram k))
     \<and> dev_step (insert f (reach Present m (mram k))) (insert f (reach Present m (mram k))) (mram k) (mram k')
     \<and> dev_step (reach Swapped m (active_mswp k)) (reach Swapped m' (active_mswp k'))
         (active_mswp k) (active_mswp k')"

lemma load_result:
  fixes pgn f :: addr
  assumes inv: "pg_inv m k" and p: "unat pgn < 16384" "\<forall>g. pview m (unat pgn) \<noteq> Present g"
    and f: "unat f < nframes (mram k)" "unat f \<notin> reach Present m (mram k)"
    and swp: "storage swp' = storage (active_mswp k)" "mem_rest swp' = mem_rest (active_mswp k)"
    and ram: "mem_rest ram' = mem_rest (mram k)" "length (storage ram') = length (storage (mram k))"
      "\<And>g j. g < nframes (mram k) \<Longrightarrow> j < 256 \<Longrightarrow> g \<noteq> unat f \<Longrightarrow>
         cell (storage ram') g j = cell (storage (mram k)) g j"
      "\<And>s j. pview m (unat pgn) = Swapped s \<Longrightarrow> j < 256 \<Longrightarrow>
         cell (storage ram') (unat f) j = cell (storage (active_mswp k)) s j"
    and m': "m' = m\<lparr>pgd := (pgd m)[unat pgn := fpn_entry e f], fifo_pgn := fifo_pgn m @ [pgn]\<rparr>"
  shows "page_loaded m k (unat pgn) (unat f) m' (k\<lparr>mram := ram', active_mswp := swp', mm := Some m'\<rparr>)"
    (is "page_loaded m k _ _ m' ?k")
proof -
  note i = pg_invD [OF inv] and rs = mem_rest_sel [OF swp(2)] mem_rest_sel [OF ram(1)]
  have view: "pview m' = (pview m)(unat pgn := Present (unat f))"
    using pview_set [of m' m "unat pgn" "fpn_entry e f"] p(1) i(2,5) f(1)
    by (simp add: m' decode_fpn_entry)
  have nf: "nframes ram' = nframes (mram k)" "nframes swp' = nframes (active_mswp k)"
    using ram(2) swp(1) by (simp_all add: nframes_def)
  have fr: "free_frames ram' = free_frames (mram k)" "free_frames swp' = free_frames (active_mswp k)"
    by (rule free_frames_rest [OF ram(1)], rule free_frames_rest [OF swp(2)])
  have fnew: "unat f \<notin> owned Present (pview m)" "unat f \<notin> free_frames (mram k)"
    using f(2) by (auto simp: reach_def)
  have "slots_ok Present (pview m) ram'"
    by (rule slots_ok_dev [OF i(7)]) (simp_all add: nf fr)
  then have sr: "slots_ok Present (pview m') ram'" unfolding view
    by (rule slots_ok_add) (simp_all add: nf fr f(1) fnew)
  have "slots_ok Swapped (pview m) swp'"
    by (rule slots_ok_dev [OF i(8)]) (simp_all add: nf fr)
  then have ss: "slots_ok Swapped (pview m') swp'" unfolding view by (rule slots_ok_del) simp
  have fif: "\<exists>g. pview m (unat x) = Present g" if "x \<in> set (fifo_pgn m)" for x
    using i(9) that by (simp add: fifo_ok_def)
  have "pgn \<notin> set (fifo_pgn m)" using fif p(2) by blast
  moreover have "fifo_pgn m' = fifo_pgn m @ [pgn]" by (simp add: m')
  ultimately have "fifo_ok m'" using i(9) fif by (auto simp: fifo_ok_def view)
  then have inv': "pg_inv m' ?k"
    by (intro pg_invI) (use i sr ss nf m' mem_wf_cong [OF ram(1,2)] mem_wf_cong [OF swp(2)] swp(1) in simp_all)
  have "content ?k q = content k q" if q: "q \<noteq> unat pgn \<or> pview m (unat pgn) \<noteq> Unmapped" for q
  proof (cases "q = unat pgn")
    case True
    then obtain s where s: "pview m q = Swapped s" using q p(2) by (cases "pview m q") auto
    then show ?thesis using True ram(4) i(1)
      by (auto simp: content_def content_of_def view fun_eq_iff)
  next
    case False
    have "cell (storage ram') g j = cell (storage (mram k)) g j" if "pview m q = Present g" "j < 256" for g j
      using slots_ok_bound [OF i(7) that(1)] fnew(1) that by (intro ram(3)) (auto simp: owned_def)
    then show ?thesis using False i(1) swp(1)
      by (auto simp: content_def content_of_def view fun_eq_iff split: pte_view.splits)
  qed
  moreover have rr: "reach Present m' ram' = insert (unat f) (reach Present m (mram k))"
    using owned_add [of Present "pview m" "unat pgn" "unat f"] p(2) by (auto simp: reach_def view fr)
  moreover have rs': "reach Swapped m' swp' \<subseteq> reach Swapped m (active_mswp k)"
    using owned_del [of "Present (unat f)" Swapped "pview m" "unat pgn"] by (auto simp: reach_def view fr)
  moreover have "dev_step (insert (unat f) (reach Present m (mram k)))
      (insert (unat f) (reach Present m (mram k))) (mram k) ram'"
    using ram(2,3) rs(2) by (simp add: dev_step_def)
  moreover have "dev_step (reach Swapped m (active_mswp k)) (reach Swapped m' swp') (active_mswp k) swp'"
    using rs' rs(1) swp(1) by (simp add: dev_step_def)
  moreover have "same_areas m m'" by (simp add: m' same_areas_def)
  ultimately show ?thesis using inv' view fr(2) by (simp add: page_loaded_def)
qed

lemma load_page_spec:
  fixes pgn f :: addr
  assumes inv: "pg_inv m k" and p: "unat pgn < 16384" "\<forall>g. pview m (unat pgn) \<noteq> Present g"
    and f: "unat f < nframes (mram k)" "unat f \<notin> reach Present m (mram k)"
    and pte: "PAGE_SWAPPED pte \<longleftrightarrow> pview m (unat pgn) = Swapped (unat (PAGING_SWP pte))"
      "pview m (unat pgn) \<noteq> Unmapped \<longrightarrow> PAGE_SWAPPED pte"
  shows "returns (load_page k pgn pte f) (\<lambda>k'. \<exists>m'. page_loaded m k (unat pgn) (unat f) m' k')"
proof -
  note i = pg_invD [OF inv]
  let ?m' = "m\<lparr>pgd := (pgd m)[unat pgn := fpn_entry (pgd m ! unat pgn) f], fifo_pgn := fifo_pgn m @ [pgn]\<rparr>"
  have fin: "rbind (pte_set_fpn (k\<lparr>active_mswp := s, mram := r\<rparr>) pgn f) (\<lambda>(_, k). enlist_fifo k pgn)
      = Inr (k\<lparr>mram := r, active_mswp := s, mm := Some ?m'\<rparr>)" for r s
    using p(1) i(1,2) by (simp add: pte_set_fpn_def pte_modify_in enlist_fifo_def the_mm_def enlist_pgn_node_def)
  show ?thesis
  proof (cases "PAGE_SWAPPED pte")
    case True
    let ?s = "ucast (PAGING_SWP pte) :: addr"
    have s: "unat ?s = unat (PAGING_SWP pte)" by (rule unat_ucast_32_64)
    then have sw: "pview m (unat pgn) = Swapped (unat ?s)" using pte(1) True by simp
    obtain src dst where cp: "swap_cp_page (active_mswp k) ?s (mram k) f = Inr (src, dst)"
        "storage src = storage (active_mswp k)" "mem_rest src = mem_rest (active_mswp k)"
        "mem_rest dst = mem_rest (mram k)" "length (storage dst) = length (storage (mram k))"
        "\<forall>g j. g < nframes (mram k) \<longrightarrow> j < 256 \<longrightarrow> cell (storage dst) g j =
           (if g = unat f then cell (storage (active_mswp k)) (unat ?s) j else cell (storage (mram k)) g j)"
      using swap_cp_page_ok [of ?s "active_mswp k" f "mram k"] i(3,4) f(1) slots_ok_bound [OF i(8) sw]
      by (auto simp: mem_wf_def elim!: returnsE)
    have "page_loaded m k (unat pgn) (unat f) ?m' (k\<lparr>mram := dst, active_mswp := src, mm := Some ?m'\<rparr>)"
      by (rule load_result [OF inv p f cp(2-5) _ _ refl]) (use cp(6) sw f(1) in auto)
    moreover have "load_page k pgn pte f = Inr (k\<lparr>mram := dst, active_mswp := src, mm := Some ?m'\<rparr>)"
      using True fin [of dst src] by (simp add: load_page_def cp(1))
    ultimately show ?thesis by auto
  next
    case False
    then have "pview m (unat pgn) = Unmapped" using pte(2) by simp
    then have "page_loaded m k (unat pgn) (unat f) ?m'
        (k\<lparr>mram := mram k, active_mswp := active_mswp k, mm := Some ?m'\<rparr>)"
      by (intro load_result [OF inv p f refl refl refl refl _ _ refl]) simp_all
    moreover have "load_page k pgn pte f
        = Inr (k\<lparr>mram := mram k, active_mswp := active_mswp k, mm := Some ?m'\<rparr>)"
      using False fin [of "mram k" "active_mswp k"] by (simp add: load_page_def)
    ultimately show ?thesis by auto
  qed
qed

section \<open>Getting a page\<close>

text \<open>
  When \<open>pg_getpage\<close> fails: the page is not in RAM, no frame is free, and no victim or no free
  swap frame can be found.
\<close>

definition out_of_frames :: "mm_struct \<Rightarrow> krnl_t \<Rightarrow> nat \<Rightarrow> bool" where
  "out_of_frames m k p \<longleftrightarrow> (\<forall>f. pview m p \<noteq> Present f) \<and> free_fp_list (mram k) = []
     \<and> (fifo_pgn m = [] \<or> free_fp_list (active_mswp k) = [])"

definition page_got :: "mm_struct \<Rightarrow> krnl_t \<Rightarrow> nat \<Rightarrow> int option \<Rightarrow> mm_struct \<Rightarrow> krnl_t \<Rightarrow> bool" where
  "page_got m k p r m' k' \<longleftrightarrow> pg_inv m' k' \<and> same_areas m m' \<and> pg_step m k m' k' \<and> swap_use m k m' k'
     \<and> reach Present m' (mram k') = reach Present m (mram k)
     \<and> (\<forall>q. q \<noteq> p \<or> pview m p \<noteq> Unmapped \<longrightarrow> content k' q = content k q)
     \<and> (case r of None \<Rightarrow> content k' = content k | Some f \<Rightarrow> 0 \<le> f \<and> pview m' p = Present (nat f))"

lemma loaded_got:
  assumes t: "frame_taken m k (Some f) m1 k1" and l: "page_loaded m1 k1 p (unat f) m2 k2"
    and p: "\<forall>g. pview m p \<noteq> Present g"
  shows "page_got m k p (Some (int (unat f))) m2 k2"
proof -
  have fr: "swap_use m k m2 k2"
    using t l by (auto simp: frame_taken_def page_loaded_def swap_use_def split: if_splits)
  have t': "pg_inv m1 k1" "same_areas m m1" "content k1 = content k" "pg_step m k m1 k1"
    "pview m1 p = pview m p" "reach Present m (mram k) = insert (unat f) (reach Present m1 (mram k1))"
    using t p by (simp_all add: frame_taken_def)
  have l': "pg_inv m2 k2" "same_areas m1 m2" "pview m2 = (pview m1)(p := Present (unat f))"
    "\<forall>q. q \<noteq> p \<or> pview m1 p \<noteq> Unmapped \<longrightarrow> content k2 q = content k1 q"
    "reach Present m2 (mram k2) = insert (unat f) (reach Present m1 (mram k1))"
    using l by (simp_all add: page_loaded_def)
  have "dev_step (insert (unat f) (reach Present m1 (mram k1)))
      (insert (unat f) (reach Present m1 (mram k1))) (mram k1) (mram k2)"
    using l by (simp add: page_loaded_def)
  then have d2: "dev_step (reach Present m (mram k)) (reach Present m2 (mram k2)) (mram k1) (mram k2)"
    using t'(6) l'(5) by simp
  have "dev_step (reach Present m (mram k)) (reach Present m (mram k)) (mram k) (mram k1)"
    using t'(4) unfolding pg_step_def by (elim conjE dev_step_widen) simp_all
  then have "dev_step (reach Present m (mram k)) (reach Present m2 (mram k2)) (mram k) (mram k2)"
    using d2 by (rule dev_step_trans)
  moreover have "dev_step (reach Swapped m (active_mswp k)) (reach Swapped m2 (active_mswp k2))
      (active_mswp k) (active_mswp k2)"
    using t'(4) l unfolding pg_step_def page_loaded_def by (blast intro: dev_step_trans)
  ultimately show ?thesis
    using t' l' fr same_areas_trans [OF t'(2) l'(2)] by (simp add: page_got_def pg_step_def)
qed

lemma word_of_page: "p < 16384 \<Longrightarrow> unat (word_of_int (int p) :: addr) = p"
  by (simp add: unat_of_nat)

lemma sint_FPN: "sint (PAGING_FPN pte) = int (unat (PAGING_FPN pte))"
proof -
  have "unat (PAGING_FPN pte) < 2 ^ 13"
    using take_bit_nat_less_exp [of 13 "unat pte"] by (simp add: PAGING_FPN_take_bit unsigned_take_bit_eq)
  then show ?thesis by (intro sint_u32) simp
qed

text \<open>
  \<open>pg_getpage\<close> never faults. On success the page is in RAM at the returned frame; in every case
  the content of all mapped pages, the frames of other processes, the number of RAM frames and
  the regions are kept.
\<close>

lemma pg_getpage_spec:
  assumes inv: "pg_inv m k" and p: "p < 16384"
  shows "returns (pg_getpage k (int p)) (\<lambda>(r, k'). (\<exists>m'. page_got m k p r m' k') \<and>
     (r = None \<longleftrightarrow> out_of_frames m k p))"
proof -
  note i = pg_invD [OF inv]
  obtain w where wd: "w = (word_of_int (int p) :: addr)" by blast
  have w: "unat w = p" unfolding wd using p by (rule word_of_page)
  note getpage = pg_getpage_def [of k "int p", folded wd]
  have lp: "unat w < length (pgd m)" using w p i(2) by simp
  obtain pte where pte: "pte_get_entry k w = Inr pte"
      "PAGING_PAGE_PRESENT pte \<longleftrightarrow> pview m p = Present (unat (PAGING_FPN pte))"
      "\<not> PAGING_PAGE_PRESENT pte \<Longrightarrow> PAGE_SWAPPED pte \<longleftrightarrow> pview m p = Swapped (unat (PAGING_SWP pte))"
    and np: "\<not> PAGING_PAGE_PRESENT pte \<Longrightarrow> \<forall>g. pview m p \<noteq> Present g"
    and sw: "\<not> PAGING_PAGE_PRESENT pte \<Longrightarrow> pview m p \<noteq> Unmapped \<Longrightarrow> PAGE_SWAPPED pte"
    using pte_get_entry_in [OF i(1) lp] w p i(2) by (fastforce simp: pview_def decode_ucast)
  show ?thesis
  proof (cases "PAGING_PAGE_PRESENT pte")
    case True
    then have "page_got m k p (Some (sint (PAGING_FPN pte))) m k" "\<not> out_of_frames m k p"
      using inv pte(2) by (simp_all add: page_got_def pg_step_refl sint_FPN out_of_frames_def)
    then show ?thesis using pte(1) True by (auto simp: getpage)
  next
    case False
    obtain r k1 m1 where t: "take_frame k = Inr (r, k1)" "frame_taken m k r m1 k1"
        "r = None \<longleftrightarrow> out_of_frames m k p"
      using take_frame_spec [OF inv] np [OF False] by (auto simp: out_of_frames_def elim!: returnsE)
    show ?thesis
    proof (cases r)
      case None
      then have "page_got m k p None m1 k1" using t(2) by (simp add: frame_taken_def page_got_def)
      then show ?thesis using pte(1) False t None by (auto simp: getpage)
    next
      case (Some f)
      have v1: "pview m1 p = pview m p" "pg_inv m1 k1" using t(2) np [OF False] by (simp_all add: frame_taken_def)
      have "nframes (mram k1) = nframes (mram k)"
        using t(2) by (auto simp: frame_taken_def pg_step_def dev_step_def nframes_def)
      then have f: "unat f < nframes (mram k1)" "unat f \<notin> reach Present m1 (mram k1)"
        using t(2) Some by (simp_all add: frame_taken_def)
      obtain k2 m2 where l: "load_page k1 w pte f = Inr k2" "page_loaded m1 k1 p (unat f) m2 k2"
        using load_page_spec [of m1 k1 w f pte] v1 w p np [OF False] f pte(3) [OF False] sw [OF False]
        by (auto elim!: returnsE)
      have inv2: "pg_inv m2 k2" and v2: "pview m2 p = Present (unat f)"
        using l(2) by (simp_all add: page_loaded_def)
      have lp2: "unat w < length (pgd m2)" using w p pg_invD(2) [OF inv2] by simp
      have "pte_get_entry k2 w = Inr (ucast (pgd m2 ! p))" and
        "sint (PAGING_FPN (ucast (pgd m2 ! p))) = int (unat f)"
        using pte_get_entry_in [OF pg_invD(1) [OF inv2] lp2] v2 lp2 w
        by (simp_all add: sint_FPN pview_def decode_ucast)
      then have "pg_getpage k (int p) = Inr (Some (int (unat f)), k2)"
        using False by (simp add: getpage pte(1) t(1) Some l(1))
      moreover have "page_got m k p (Some (int (unat f))) m2 k2"
        using loaded_got [OF _ l(2) np [OF False]] t(2) Some by simp
      ultimately show ?thesis using t(3) Some by auto
    qed
  qed
qed

section \<open>Reading and writing a byte\<close>

definition page_of :: "'a::len word \<Rightarrow> nat" where "page_of a = unat a div 256 mod 16384"
definition off_of :: "'a::len word \<Rightarrow> nat" where "off_of a = unat a mod 256"

lemma page_of_less [simp]: "page_of a < 16384" and off_of_less [simp]: "off_of a < 256"
  by (simp_all add: page_of_def off_of_def)

text \<open>
  What every access keeps: the invariant, the regions, the frames of other processes, and the
  RAM frames that are free or held.
\<close>

definition keeps :: "mm_struct \<Rightarrow> krnl_t \<Rightarrow> mm_struct \<Rightarrow> krnl_t \<Rightarrow> bool" where
  "keeps m k m' k' \<longleftrightarrow> pg_inv m' k' \<and> same_areas m m' \<and> pg_step m k m' k'
     \<and> reach Present m' (mram k') = reach Present m (mram k)"

lemma keeps_trans: "keeps m k m' k' \<Longrightarrow> keeps m' k' m'' k'' \<Longrightarrow> keeps m k m'' k''"
  unfolding keeps_def using same_areas_trans pg_step_trans by metis

lemma keeps_refl: "pg_inv m k \<Longrightarrow> keeps m k m k"
  by (simp add: keeps_def pg_step_refl)

lemma page_got_keeps: "page_got m k p r m' k' \<Longrightarrow> keeps m k m' k'"
  by (simp add: page_got_def keeps_def)

text \<open>A RAM device that differs in the frame of one page and in its cursor only.\<close>

lemma ram_changed:
  assumes inv: "pg_inv m k" and f: "pview m p = Present f"
    and d: "mem_rest d = mem_rest (mram k)" "length (storage d) = length (storage (mram k))"
      "\<And>g j. g < nframes (mram k) \<Longrightarrow> j < 256 \<Longrightarrow> g \<noteq> f \<Longrightarrow>
         cell (storage d) g j = cell (storage (mram k)) g j"
  shows "keeps m k m (k\<lparr>mram := d\<rparr>)"
    and "content (k\<lparr>mram := d\<rparr>) = (content k)(p := \<lambda>j. if j < 256 then Some (cell (storage d) f j) else None)"
proof -
  note i = pg_invD [OF inv] and r = mem_rest_sel [OF d(1)]
  have fr: "free_frames d = free_frames (mram k)" by (rule free_frames_rest [OF d(1)])
  have nf: "nframes d = nframes (mram k)" using d(2) by (simp add: nframes_def)
  have "slots_ok Present (pview m) d" by (rule slots_ok_dev [OF i(7)]) (simp_all add: nf fr)
  then have "pg_inv m (k\<lparr>mram := d\<rparr>)"
    by (intro pg_invI) (use i nf mem_wf_cong [OF d(1,2)] in simp_all)
  moreover have rr: "reach Present m d = reach Present m (mram k)" by (simp add: reach_def fr)
  have own: "f \<in> reach Present m (mram k)" using f by (auto simp: reach_def owned_def)
  have "cell (storage d) g j = cell (storage (mram k)) g j"
    if "g < nframes (mram k)" "g \<notin> reach Present m (mram k)" "j < 256" for g j
    using that own by (intro d(3)) auto
  then have "dev_step (reach Present m (mram k)) (reach Present m d) (mram k) d"
    using d(2) r rr by (simp add: dev_step_def)
  ultimately show "keeps m k m (k\<lparr>mram := d\<rparr>)"
    using rr by (simp add: keeps_def pg_step_def dev_step_refl)
  have "cell (storage d) g j = cell (storage (mram k)) g j" if "pview m q = Present g" "q \<noteq> p" "j < 256" for q g j
  proof (rule d(3))
    show "g \<noteq> f" using slots_ok_unique [OF i(7) that(1), of p] f that(2) by blast
  qed (use that slots_ok_bound [OF i(7) that(1)] in simp_all)
  then show "content (k\<lparr>mram := d\<rparr>) =
      (content k)(p := \<lambda>j. if j < 256 then Some (cell (storage d) f j) else None)"
    using f i(1) by (auto simp: content_def content_of_def fun_eq_iff split: pte_view.splits)
qed

lemma PGN_int: "sint (PAGING_PGN (w :: u32)) = int (page_of w)"
  using PAGING_PGN_unat [of w] by (simp add: sint_u32 page_of_def del: of_nat_unat)

lemma OFFST_int: "sint (PAGING_OFFST (w :: u32)) = int (off_of w)"
  using PAGING_OFFST_unat [of w] by (simp add: sint_u32 off_of_def del: of_nat_unat)

text \<open>The physical address of a byte of a frame in RAM.\<close>

lemma phys_addr:
  assumes "f < 8192" and "j < 256"
  shows "unat (word_of_int (push_bit PAGING_ADDR_FPN_LOBIT (int f) + int j) :: addr) = 256 * f + j"
    and "unat (push_bit PAGING_ADDR_FPN_LOBIT (word_of_int (int f)) + word_of_int (int j) :: addr) = 256 * f + j"
proof -
  have e: "push_bit PAGING_ADDR_FPN_LOBIT (int f) + int j = int (256 * f + j)"
    by (simp add: PAGING_ADDR_FPN_LOBIT_def push_bit_eq_mult)
  have "256 * f + j < 2 ^ 64" using assms by simp
  then have u: "unat (word_of_int (int (256 * f + j)) :: addr) = 256 * f + j"
    by (simp only: of_int_of_nat_eq unat_of_nat) (simp add: take_bit_nat_eq_self)
  then show "unat (word_of_int (push_bit PAGING_ADDR_FPN_LOBIT (int f) + int j) :: addr) = 256 * f + j"
    by (simp only: e)
  have "push_bit PAGING_ADDR_FPN_LOBIT (word_of_int (int f)) + word_of_int (int j)
      = (word_of_int (int (256 * f + j)) :: addr)"
    by (simp add: PAGING_ADDR_FPN_LOBIT_def push_bit_eq_mult)
  then show "unat (push_bit PAGING_ADDR_FPN_LOBIT (word_of_int (int f)) + word_of_int (int j) :: addr)
      = 256 * f + j"
    by (simp only: u)
qed

text \<open>
  What an access at page \<open>p\<close> does: it fails exactly when a frame is needed and none can be had,
  and then changes no content; otherwise the page is in RAM, the byte at \<open>(p, j)\<close> is \<open>v\<close> and every byte of every
  page that was mapped is as before, but for that one byte when it is written.
\<close>

definition accessed :: "bool \<Rightarrow> mm_struct \<Rightarrow> krnl_t \<Rightarrow> nat \<Rightarrow> nat \<Rightarrow> byte option \<Rightarrow> krnl_t \<Rightarrow> bool" where
  "accessed written m k p j r k' \<longleftrightarrow>
     (\<exists>m'. keeps m k m' k' \<and> (r \<noteq> None \<longrightarrow> (\<exists>f. pview m' p = Present f)))
     \<and> (r = None \<longleftrightarrow> out_of_frames m k p)
     \<and> (case r of
          None \<Rightarrow> content k' = content k
        | Some v \<Rightarrow> content k' p j = Some v
            \<and> (\<forall>q i. (q \<noteq> p \<or> pview m p \<noteq> Unmapped) \<longrightarrow> \<not> (written \<and> q = p \<and> i = j) \<longrightarrow>
                 content k' q i = content k q i))"

lemma pg_getval_spec:
  fixes w :: u32
  assumes inv: "pg_inv m k"
  shows "returns (pg_getval k (sint w)) (\<lambda>(r, k'). accessed False m k (page_of w) (off_of w) r k')"
proof -
  let ?p = "page_of w" and ?j = "off_of w"
  obtain r k1 m1 where g: "pg_getpage k (int ?p) = Inr (r, k1)" "page_got m k ?p r m1 k1"
      "r = None \<longleftrightarrow> out_of_frames m k ?p"
    using pg_getpage_spec [OF inv, of ?p] by (auto elim!: returnsE)
  show ?thesis
  proof (cases r)
    case None
    then show ?thesis using g page_got_keeps [OF g(2)]
      by (auto simp: pg_getval_def PGN_int OFFST_int accessed_def page_got_def)
  next
    case (Some f)
    have inv1: "pg_inv m1 k1" and f: "0 \<le> f" "pview m1 ?p = Present (nat f)"
      using g(2) Some by (simp_all add: page_got_def)
    note i = pg_invD [OF inv1] and b = slots_ok_bound [OF pg_invD(7) [OF inv1] f(2)]
    let ?a = "word_of_int (push_bit PAGING_ADDR_FPN_LOBIT f + int ?j) :: addr"
    have a: "unat ?a = 256 * nat f + ?j" using phys_addr(1) [of "nat f" ?j] b i(5) f(1) by simp
    then have lt: "unat ?a < length (storage (mram k1))"
      using in_frames_addr [of "nat f" "storage (mram k1)" ?j] b by (simp add: in_frames_storage)
    obtain d where d: "MEMPHY_read (mram k1) ?a = Inr (Some (storage (mram k1) ! unat ?a), d)"
        "storage d = storage (mram k1)" "mem_rest d = mem_rest (mram k1)"
      using mem.rd [OF lt] by (auto elim!: returnsE)
    have v: "storage (mram k1) ! unat ?a = cell (storage (mram k1)) (nat f) ?j" by (simp only: cell_def a)
    have res: "pg_getval k (sint w) = Inr (Some (cell (storage (mram k1)) (nat f) ?j), k1\<lparr>mram := d\<rparr>)"
      unfolding pg_getval_def PGN_int OFFST_int Let_def by (simp add: g(1) Some d(1) v del: of_int_of_nat_eq of_int_add)
    have k: "keeps m1 k1 m1 (k1\<lparr>mram := d\<rparr>)"
      by (rule ram_changed(1) [OF inv1 f(2)]) (simp_all add: d)
    have c: "content (k1\<lparr>mram := d\<rparr>) = content k1" using d(2) i(1) by (simp add: content_def)
    have "content k1 ?p ?j = Some (cell (storage (mram k1)) (nat f) ?j)"
      using i(1) f(2) by (simp add: content_def content_of_def)
    moreover have "keeps m k m1 (k1\<lparr>mram := d\<rparr>)" using page_got_keeps [OF g(2)] k by (rule keeps_trans)
    ultimately show ?thesis using g Some f(2) by (auto simp: res accessed_def c page_got_def)
  qed
qed

lemma pg_setval_spec:
  fixes w :: u32
  assumes inv: "pg_inv m k"
  shows "returns (pg_setval k (sint w) v) (\<lambda>(r, k').
     accessed True m k (page_of w) (off_of w) (if r = 0 then Some v else None) k' \<and> r \<in> {0, -1})"
proof -
  let ?p = "page_of w" and ?j = "off_of w"
  obtain r k1 m1 where g: "pg_getpage k (int ?p) = Inr (r, k1)" "page_got m k ?p r m1 k1"
      "r = None \<longleftrightarrow> out_of_frames m k ?p"
    using pg_getpage_spec [OF inv, of ?p] by (auto elim!: returnsE)
  show ?thesis
  proof (cases r)
    case None
    then show ?thesis using g page_got_keeps [OF g(2)]
      by (auto simp: pg_setval_def PGN_int OFFST_int accessed_def page_got_def)
  next
    case (Some f)
    have inv1: "pg_inv m1 k1" and f: "0 \<le> f" "pview m1 ?p = Present (nat f)"
      using g(2) Some by (simp_all add: page_got_def)
    note i = pg_invD [OF inv1] and b = slots_ok_bound [OF pg_invD(7) [OF inv1] f(2)]
    let ?a = "push_bit PAGING_ADDR_FPN_LOBIT (word_of_int f) + word_of_int (int ?j) :: addr"
    have a: "unat ?a = 256 * nat f + ?j" using phys_addr(2) [of "nat f" ?j] b i(5) f(1) by simp
    have fr: "in_frames (nat f) (storage (mram k1))" using b by (simp add: in_frames_storage)
    then have lt: "unat ?a < length (storage (mram k1))"
      using in_frames_addr [of "nat f" "storage (mram k1)" ?j] a by simp
    obtain d where d: "MEMPHY_write (mram k1) ?a v = Inr (0, d)"
        "storage d = (storage (mram k1))[unat ?a := v]" "mem_rest d = mem_rest (mram k1)"
      using mem.wr [OF lt, of v] by (auto elim!: returnsE)
    have up: "cell (storage d) q l = (if nat f = q \<and> ?j = l then v else cell (storage (mram k1)) q l)"
      if "q < nframes (mram k1)" "l < 256" for q l
      unfolding d(2) a using that by (intro cell_update) (simp_all add: in_frames_storage)
    have len: "length (storage d) = length (storage (mram k1))" by (simp add: d(2))
    have res: "pg_setval k (sint w) v = Inr (0, k1\<lparr>mram := d\<rparr>)"
      unfolding pg_setval_def PGN_int OFFST_int Let_def by (simp add: g(1) Some d(1) del: of_int_of_nat_eq)
    have k: "keeps m1 k1 m1 (k1\<lparr>mram := d\<rparr>)"
      by (rule ram_changed(1) [OF inv1 f(2) d(3) len]) (simp add: up)
    have c: "content (k1\<lparr>mram := d\<rparr>) =
        (content k1)(?p := \<lambda>j. if j < 256 then Some (cell (storage d) (nat f) j) else None)"
      by (rule ram_changed(2) [OF inv1 f(2) d(3) len]) (simp add: up)
    have "content k1 ?p l = (if l < 256 then Some (cell (storage (mram k1)) (nat f) l) else None)" for l
      using i(1) f(2) by (simp add: content_def content_of_def)
    then have "content (k1\<lparr>mram := d\<rparr>) q l = (if q = ?p \<and> l = ?j then Some v else content k1 q l)" for q l
      using b up by (auto simp: c)
    moreover have "keeps m k m1 (k1\<lparr>mram := d\<rparr>)" using page_got_keeps [OF g(2)] k by (rule keeps_trans)
    ultimately show ?thesis using g Some f(2) by (auto simp: res accessed_def page_got_def)
  qed
qed

end
