(* ===== verification/Page_Range.thy ===== *)
theory Page_Range
  imports Paging
begin

text \<open>
  What \<open>vm_map_ram\<close> of \<^verbatim>\<open>src/mm64.c\<close> does to the page map: all the requested frames or
  none are taken, and the pages of the range that were unmapped get them in order.
\<close>

section \<open>Taking several frames\<close>

lemma put_frames_eq:
  "put_frames mp fs = mp\<lparr>free_fp_list := rev fs @ free_fp_list mp\<rparr>"
proof (induction fs arbitrary: mp)
  case (Cons f fs)
  then show ?case by (simp add: put_frames_def MEMPHY_put_freefp_def)
qed (simp add: put_frames_def)

lemma alloc_loop_eq:
  assumes "fp_term (mram k)" and "0 \<le> i"
  shows "alloc_loop k n fl taken i =
     (if nat (n - i) \<le> length (free_fp_list (mram k))
      then Inr (0, taken @ take (nat (n - i)) (free_fp_list (mram k)),
                k\<lparr>mram := (mram k)\<lparr>free_fp_list := drop (nat (n - i)) (free_fp_list (mram k))\<rparr>\<rparr>)
      else if i = 0 \<and> free_fp_list (mram k) = [] then Inr (-3000, fl, k)
      else Inr (-1, fl, k\<lparr>mram := (mram k)\<lparr>free_fp_list := rev (taken @ free_fp_list (mram k))\<rparr>\<rparr>))"
  using assms
proof (induction "nat (n - i)" arbitrary: k taken i)
  case 0
  then show ?case by (subst alloc_loop.simps) simp
next
  case (Suc c)
  then have i: "i < n" "c = nat (n - (i + 1))" by simp_all
  show ?case
  proof (cases "free_fp_list (mram k)")
    case Nil
    then show ?thesis using Suc.prems Suc.hyps(2) i(1)
      by (subst alloc_loop.simps) (auto simp: MEMPHY_get_freefp_def put_frames_eq)
  next
    case (Cons f fs)
    let ?k = "k\<lparr>mram := (mram k)\<lparr>free_fp_list := fs\<rparr>\<rparr>"
    have "alloc_loop k n fl taken i = alloc_loop ?k n fl (taken @ [f]) (i + 1)"
      using i(1) Cons by (subst alloc_loop.simps) (simp add: MEMPHY_get_freefp_def)
    also have "\<dots> = (if c \<le> length fs
      then Inr (0, (taken @ [f]) @ take c fs, ?k\<lparr>mram := (mram ?k)\<lparr>free_fp_list := drop c fs\<rparr>\<rparr>)
      else Inr (-1, fl, ?k\<lparr>mram := (mram ?k)\<lparr>free_fp_list := rev ((taken @ [f]) @ fs)\<rparr>\<rparr>))"
      using Suc.hyps(1) [OF i(2), of ?k "taken @ [f]"] Suc.prems i(2) by simp
    finally show ?thesis using Cons Suc.hyps(2) Suc.prems(2) by (auto simp flip: Suc.hyps(2))
  qed
qed

lemma alloc_pages_range_eq:
  "fp_term (mram k) \<Longrightarrow> alloc_pages_range k n [] =
     (if nat n \<le> length (free_fp_list (mram k))
      then Inr (0, take (nat n) (free_fp_list (mram k)),
                k\<lparr>mram := (mram k)\<lparr>free_fp_list := drop (nat n) (free_fp_list (mram k))\<rparr>\<rparr>)
      else if free_fp_list (mram k) = [] then Inr (-3000, [], k)
      else Inr (-1, [], k\<lparr>mram := (mram k)\<lparr>free_fp_list := rev (free_fp_list (mram k))\<rparr>\<rparr>))"
  using alloc_loop_eq [of k 0 n "[]" "[]"] by (simp add: alloc_pages_range_def)

section \<open>Entering the frames in the page table\<close>

definition range_mapped :: "mm_struct \<Rightarrow> krnl_t \<Rightarrow> nat \<Rightarrow> addr list \<Rightarrow> mm_struct \<Rightarrow> krnl_t \<Rightarrow> bool" where
  "range_mapped m k lo fs m' k' \<longleftrightarrow> pg_inv m' k' \<and> same_areas m m' \<and> k' = k\<lparr>mm := Some m'\<rparr>
     \<and> reach Present m' (mram k) = reach Present m (mram k) \<union> unat ` set fs
     \<and> reach Swapped m' (active_mswp k) \<subseteq> reach Swapped m (active_mswp k)
     \<and> (\<forall>q. pview m' q = (if lo \<le> q \<and> q < lo + length fs then Present (unat (fs ! (q - lo))) else pview m q))"

lemma range_mapped_Cons:
  assumes one: "pg_inv m1 k1" "same_areas m m1" "k1 = k\<lparr>mm := Some m1\<rparr>"
      "pview m1 = (pview m)(lo := Present (unat f))"
      "reach Present m1 (mram k) = insert (unat f) (reach Present m (mram k))"
      "reach Swapped m1 (active_mswp k) \<subseteq> reach Swapped m (active_mswp k)"
    and rest: "range_mapped m1 k1 (lo + 1) fs m' k'"
  shows "range_mapped m k lo (f # fs) m' k'"
proof -
  have r: "pg_inv m' k'" "same_areas m1 m'" "k' = k\<lparr>mm := Some m'\<rparr>"
    "reach Present m' (mram k) = reach Present m1 (mram k) \<union> unat ` set fs"
    "reach Swapped m' (active_mswp k) \<subseteq> reach Swapped m1 (active_mswp k)"
    "\<And>q. pview m' q = (if lo + 1 \<le> q \<and> q < lo + 1 + length fs then Present (unat (fs ! (q - (lo + 1)))) else pview m1 q)"
    using rest unfolding range_mapped_def one(3) by auto
  have "pview m' q = (if lo \<le> q \<and> q < lo + length (f # fs) then Present (unat ((f # fs) ! (q - lo)))
      else pview m q)" for q
    unfolding r(6) one(4) by (cases "q = lo") (auto simp: nth_Cons')
  moreover have "reach Present m' (mram k) = reach Present m (mram k) \<union> unat ` set (f # fs)"
    unfolding r(4) one(5) by simp
  ultimately show ?thesis
    using r(1,3,5) one(6) same_areas_trans [OF one(2) r(2)] by (auto simp: range_mapped_def)
qed

lemma vmap_loop_spec:
  assumes "pg_inv m k" and "distinct fs" and "0 \<le> i"
    and "\<forall>f \<in> set fs. unat f < nframes (mram k) \<and> unat f \<notin> reach Present m (mram k)"
    and "unat s + nat i + length fs \<le> 16384" and "n = i + int (length fs)"
    and "\<forall>q. unat s + nat i \<le> q \<longrightarrow> q < unat s + nat i + length fs \<longrightarrow> pview m q = Unmapped"
  shows "returns (vmap_loop k s n fs i) (\<lambda>(i', k'). i' = n \<and> (\<exists>m'. range_mapped m k (unat s + nat i) fs m' k'))"
  using assms
proof (induction fs arbitrary: m k i)
  case Nil
  have "k = k\<lparr>mm := Some m\<rparr>" using pg_invD(1) [OF Nil(1)] by simp
  then have "range_mapped m k (unat s + nat i) [] m k" using Nil(1) by (auto simp: range_mapped_def)
  then show ?case using Nil by (subst vmap_loop.simps) auto
next
  case (Cons f fs)
  note i = pg_invD [OF Cons.prems(1)]
  let ?w = "s + word_of_int i :: addr"
  have iw: "unat (word_of_int i :: addr) = nat i"
    using Cons.prems(3,5) word_of_page [of "nat i"] by simp
  have w: "unat ?w = unat s + nat i"
    using Cons.prems(5) unsigned_less [of s] by (subst unat_add_no_wrap) (simp_all add: iw)
  have un: "pview m (unat ?w) = Unmapped" using Cons.prems(7) w by simp
  let ?m = "m\<lparr>pgd := (pgd m)[unat ?w := fpn_entry (pgd m ! unat ?w) f], fifo_pgn := fifo_pgn m @ [?w]\<rparr>"
  let ?k = "k\<lparr>mm := Some ?m\<rparr>"
  have "page_loaded m k (unat ?w) (unat f) ?m (k\<lparr>mram := mram k, active_mswp := active_mswp k, mm := Some ?m\<rparr>)"
    using w un Cons.prems(4,5)
    by (intro load_result [OF Cons.prems(1) _ _ _ _ refl refl refl refl _ _ refl]) simp_all
  then have one: "pg_inv ?m ?k" "same_areas m ?m" "pview ?m = (pview m)(unat ?w := Present (unat f))"
      "reach Present ?m (mram k) = insert (unat f) (reach Present m (mram k))"
      "reach Swapped ?m (active_mswp k) \<subseteq> reach Swapped m (active_mswp k)"
    by (simp_all add: page_loaded_def dev_step_def)
  have st: "vmap_loop k s n (f # fs) i = vmap_loop ?k s n fs (i + 1)"
    using Cons.prems(5,6) w i(1,2)
    by (subst vmap_loop.simps) (simp add: pte_set_fpn_def pte_modify_in enlist_fifo_def the_mm_def enlist_pgn_node_def)
  have ni: "nat (i + 1) = nat i + 1" using Cons.prems(3) by simp
  have "returns (vmap_loop ?k s n fs (i + 1)) (\<lambda>(i', k'). i' = n \<and>
      (\<exists>m'. range_mapped ?m ?k (unat s + nat (i + 1)) fs m' k'))"
  proof (rule Cons.IH [OF one(1)])
    show "\<forall>g \<in> set fs. unat g < nframes (mram ?k) \<and> unat g \<notin> reach Present ?m (mram ?k)"
      using Cons.prems(2,4) by (auto simp: one(4) dest!: unsigned_word_eqI)
    show "\<forall>q. unat s + nat (i + 1) \<le> q \<longrightarrow> q < unat s + nat (i + 1) + length fs \<longrightarrow> pview ?m q = Unmapped"
      unfolding one(3) ni using Cons.prems(7) w by simp
  qed (use Cons.prems ni in simp_all)
  then obtain k2 m2 where r: "vmap_loop ?k s n fs (i + 1) = Inr (n, k2)"
      "range_mapped ?m ?k (unat s + nat i + 1) fs m2 k2"
    by (auto simp: ni elim!: returnsE)
  have "range_mapped m k (unat ?w) (f # fs) m2 k2"
    by (rule range_mapped_Cons [OF one(1,2) refl one(3-5) r(2) [folded w]])
  then show ?case unfolding st r(1) w [symmetric] by auto
qed

section \<open>Mapping a range\<close>

lemma pg_inv_free_list:
  assumes inv: "pg_inv m k" and l: "set l \<subseteq> set (free_fp_list (mram k))" "distinct l"
  shows "pg_inv m (k\<lparr>mram := (mram k)\<lparr>free_fp_list := l\<rparr>\<rparr>)"
proof -
  note i = pg_invD [OF inv]
  let ?d = "(mram k)\<lparr>free_fp_list := l\<rparr>"
  have "slots_ok Present (pview m) ?d"
    by (rule slots_ok_dev [OF i(7)]) (use l in \<open>auto simp: nframes_def free_frames_def\<close>)
  moreover have "mem_wf ?d" using i(3) l by (auto simp: mem_wf_def nframes_def)
  ultimately show ?thesis using i by (intro pg_invI) (simp_all add: nframes_def)
qed

text \<open>
  \<open>vm_map_ram\<close> on a range of unmapped pages: either there are enough frames and the whole range
  is in RAM, or nothing is mapped; the content of every mapped page is kept, and so are the
  frames of other processes.
\<close>

definition ram_mapped :: "mm_struct \<Rightarrow> krnl_t \<Rightarrow> nat \<Rightarrow> nat \<Rightarrow> mm_struct \<Rightarrow> krnl_t \<Rightarrow> bool" where
  "ram_mapped m k lo n m' k' \<longleftrightarrow> keeps m k m' k'
     \<and> (\<forall>q. pview m q \<noteq> Unmapped \<longrightarrow> content k' q = content k q)
     \<and> (if n \<le> length (free_fp_list (mram k))
        then \<forall>q. (lo \<le> q \<and> q < lo + n \<longrightarrow> (\<exists>f. pview m' q = Present f))
               \<and> (\<not> (lo \<le> q \<and> q < lo + n) \<longrightarrow> pview m' q = pview m q)
        else m' = m)"

lemma ram_mapped_new:
  assumes "ram_mapped m k lo n m' k'" and "pview m' q \<noteq> Unmapped" and "pview m q = Unmapped"
  shows "lo \<le> q \<and> q < lo + n"
proof (rule ccontr)
  assume "\<not> (lo \<le> q \<and> q < lo + n)"
  then have "pview m' q = pview m q" using assms(1) unfolding ram_mapped_def by (metis (full_types))
  then show False using assms(2,3) by simp
qed

lemma ram_mapped_reorder:
  assumes inv: "pg_inv m k" and "mset l = mset (free_fp_list (mram k))"
    and "\<not> n \<le> length (free_fp_list (mram k))"
  shows "ram_mapped m k lo n m (k\<lparr>mram := (mram k)\<lparr>free_fp_list := l\<rparr>\<rparr>)"
proof -
  note i = pg_invD [OF inv]
  have s: "set l = set (free_fp_list (mram k))" using assms(2) by (metis set_mset_mset)
  have "distinct l" using assms(2) i(3) by (metis mem_wf_def mset_eq_imp_distinct_iff)
  then have "pg_inv m (k\<lparr>mram := (mram k)\<lparr>free_fp_list := l\<rparr>\<rparr>)"
    using pg_inv_free_list [OF inv, of l] s by simp
  then show ?thesis using assms(3) s i(1)
    by (simp add: ram_mapped_def keeps_def pg_step_def dev_step_def reach_def free_frames_def content_def)
qed

lemma range_mapped_ram:
  assumes inv: "pg_inv m k" and n: "n \<le> length (free_fp_list (mram k))"
    and un: "\<forall>q. lo \<le> q \<longrightarrow> q < lo + n \<longrightarrow> pview m q = Unmapped"
    and r: "range_mapped m (k\<lparr>mram := (mram k)\<lparr>free_fp_list := drop n (free_fp_list (mram k))\<rparr>\<rparr>) lo
        (take n (free_fp_list (mram k))) m' k'" (is "range_mapped m ?k1 lo ?fs m' k'")
  shows "ram_mapped m k lo n m' k'"
proof -
  note i = pg_invD [OF inv]
  have k': "pg_inv m' k'" "same_areas m m'" "k' = ?k1\<lparr>mm := Some m'\<rparr>"
    "reach Present m' (mram ?k1) = reach Present m (mram ?k1) \<union> unat ` set ?fs"
    "reach Swapped m' (active_mswp k) \<subseteq> reach Swapped m (active_mswp k)"
    "\<And>q. pview m' q = (if lo \<le> q \<and> q < lo + length ?fs then Present (unat (?fs ! (q - lo))) else pview m q)"
    using r unfolding range_mapped_def by auto
  have "set (free_fp_list (mram k)) = set ?fs \<union> set (drop n (free_fp_list (mram k)))"
    by (metis append_take_drop_id set_append)
  then have "reach Present m (mram k) = reach Present m (mram ?k1) \<union> unat ` set ?fs"
    by (auto simp: reach_def free_frames_def)
  then have rr: "reach Present m' (mram k') = reach Present m (mram k)" using k'(3,4) by simp
  have "content k' q = content k q" if "pview m q \<noteq> Unmapped" for q
  proof -
    have "pview m' q = pview m q" using that un n k'(6) [of q] by auto
    then show ?thesis using i(1) k'(3) by (simp add: content_def content_of_def fun_eq_iff)
  qed
  moreover have "keeps m k m' k'"
    using k'(1,2,5) rr k'(3) by (simp add: keeps_def pg_step_def dev_step_def)
  ultimately show ?thesis using n k'(6) by (simp add: ram_mapped_def)
qed

lemma vm_map_ram_spec:
  assumes inv: "pg_inv m k" and n: "page_of old + nat n \<le> 16384"
    and un: "\<forall>q. page_of old \<le> q \<longrightarrow> q < page_of old + nat n \<longrightarrow> pview m q = Unmapped"
  shows "returns (vm_map_ram k a e old n rg) (\<lambda>(ret, rg', k'). \<exists>m'. ram_mapped m k (page_of old) (nat n) m' k')"
proof -
  note i = pg_invD [OF inv]
  have t: "fp_term (mram k)" using i(3) by (simp add: mem_wf_def)
  have pg: "unat (PAGING_PGN old) = page_of old" by (simp add: PAGING_PGN_unat page_of_def)
  let ?free = "free_fp_list (mram k)"
  consider "nat n \<le> length ?free" | "\<not> nat n \<le> length ?free" "?free = []" | "\<not> nat n \<le> length ?free" "?free \<noteq> []"
    by blast
  then show ?thesis
  proof cases
    case 1
    let ?k1 = "k\<lparr>mram := (mram k)\<lparr>free_fp_list := drop (nat n) ?free\<rparr>\<rparr>"
    let ?fs = "take (nat n) ?free"
    have d: "distinct ?free" "\<forall>f \<in> set ?free. unat f < nframes (mram k)"
      using i(3) by (simp_all add: mem_wf_def)
    then have fs: "set ?fs \<inter> set (drop (nat n) ?free) = {}" "distinct ?fs" "distinct (drop (nat n) ?free)"
      using set_take_disj_set_drop_if_distinct [OF d(1)] by auto
    have inv1: "pg_inv m ?k1" by (rule pg_inv_free_list [OF inv]) (auto simp: fs(3) dest: in_set_dropD)
    have nr: "\<forall>f \<in> set ?fs. unat f < nframes (mram ?k1) \<and> unat f \<notin> reach Present m (mram ?k1)"
    proof
      fix f assume f: "f \<in> set ?fs"
      then have ff: "f \<in> set ?free" by (rule in_set_takeD)
      then have "unat f \<notin> owned Present (pview m)"
        using owned_not_free [OF i(7)] by (auto simp: free_frames_def)
      moreover have "unat f \<notin> unat ` set (drop (nat n) ?free)"
        using f fs(1) by (auto dest!: unsigned_word_eqI)
      ultimately show "unat f < nframes (mram ?k1) \<and> unat f \<notin> reach Present m (mram ?k1)"
        using d(2) ff by (simp add: reach_def free_frames_def nframes_def)
    qed
    have l: "length ?fs = nat n" using 1 by simp
    have "returns (vmap_loop ?k1 (PAGING_PGN old) (int (nat n)) ?fs 0)
        (\<lambda>(i', k'). i' = int (nat n) \<and> (\<exists>m'. range_mapped m ?k1 (unat (PAGING_PGN old) + nat 0) ?fs m' k'))"
      by (rule vmap_loop_spec [OF inv1 fs(2) _ nr]) (use n un l pg in simp_all)
    then obtain k' m' where v: "vmap_loop ?k1 (PAGING_PGN old) (int (nat n)) ?fs 0 = Inr (int (nat n), k')"
        "range_mapped m ?k1 (page_of old) ?fs m' k'"
      by (auto simp: pg elim!: returnsE)
    have "vmap_loop ?k1 (PAGING_PGN old) n ?fs 0 = Inr (int (nat n), k')"
    proof (cases "0 \<le> n")
      case False
      then show ?thesis using v(1) by (simp add: vmap_loop.simps [of _ _ _ "[]"] vmap_loop.simps [of _ _ n])
    qed (use v(1) in simp)
    then show ?thesis using 1 range_mapped_ram [OF inv 1 un v(2)]
      by (auto simp: vm_map_ram_def alloc_pages_range_eq [OF t] vmap_page_range_def)
  next
    case 2
    have "ram_mapped m k (page_of old) (nat n) m (k\<lparr>mram := (mram k)\<lparr>free_fp_list := ?free\<rparr>\<rparr>)"
      by (rule ram_mapped_reorder [OF inv refl 2(1)])
    then have "ram_mapped m k (page_of old) (nat n) m k" by simp
    then show ?thesis using 2 by (auto simp: vm_map_ram_def alloc_pages_range_eq [OF t])
  next
    case 3
    have "0 < n" using 3(1) by simp
    then have "vmap_loop k1 s n [] 0 = Inr (0, k1)" for k1 s by (subst vmap_loop.simps) simp
    then show ?thesis using 3 ram_mapped_reorder [OF inv _ 3(1), of "rev ?free" "page_of old"]
      by (auto simp: vm_map_ram_def alloc_pages_range_eq [OF t] vmap_page_range_def)
  qed
qed

end
