(* ===== verification/Vm_Area.thy ===== *)
theory Vm_Area
  imports Page_Range
begin

text \<open>
  \<^verbatim>\<open>src/mm-vm.c\<close> and the region part of \<^verbatim>\<open>src/libmem.c\<close>: the virtual memory area of a
  process, the list of its free regions, and \<open>__alloc\<close> (\<open>alloc_region\<close>) and \<open>__free\<close>
  (\<open>free_region\<close>) on the table of 30 symbolic regions. A pointer to an area is its position in
  the list of areas; a region returned through a pointer is an \<open>option\<close>, \<open>None\<close> where the
  code returns \<open>NULL\<close> or -1.
\<close>

section \<open>Areas\<close>

text \<open>
  The loop of \<open>get_vma_by_num\<close>: it tests the area it stands on for \<open>NULL\<close>, but reads
  \<open>vm_id\<close> of the next one, which is \<open>NULL\<close> at the end of the list.
\<close>

fun vma_loop :: "vm_area_struct list \<Rightarrow> int \<Rightarrow> nat \<Rightarrow> nat res" where
  "vma_loop [] vmaid i = Inl Null_Deref"
| "vma_loop (v # vs) vmaid i =
     (if sint (ucast (vm_id v) :: u32) < vmaid then vma_loop vs vmaid (i + 1) else Inr i)"

definition get_vma_by_num :: "mm_struct \<Rightarrow> int \<Rightarrow> nat option res" where
  "get_vma_by_num m vmaid =
     (if mmap m = [] then Inr None
      else rbind (vma_loop (mmap m) vmaid 0) (\<lambda>i. Inr (Some i)))"

definition mm_swap_page :: "krnl_t \<Rightarrow> addr \<Rightarrow> addr \<Rightarrow> (int \<times> krnl_t) res" where
  "mm_swap_page k vicfpn swpfpn =
     rbind (swap_cp_page (mram k) vicfpn (active_mswp k) swpfpn) (\<lambda>(src, dst).
       Inr (0, k\<lparr>mram := src, active_mswp := dst\<rparr>))"

definition get_vm_area_node_at_brk :: "krnl_t \<Rightarrow> int \<Rightarrow> addr \<Rightarrow> addr \<Rightarrow> vm_rg_struct option res" where
  "get_vm_area_node_at_brk k vmaid sz alignedsz =
     rbind (the_mm k) (\<lambda>m.
     rbind (get_vma_by_num m vmaid) (\<lambda>cur. case cur of
       None \<Rightarrow> Inr None
     | Some i \<Rightarrow>
         if alignedsz < sz then Inr None
         else rbind (arr_get (mmap m) i) (\<lambda>v.
           Inr (Some \<lparr>rg_vmaid = Some vmaid, rg_start = sbrk v, rg_end = sbrk v + alignedsz\<rparr>))))"

definition validate_overlap_vm_area :: "krnl_t \<Rightarrow> int \<Rightarrow> addr \<Rightarrow> addr \<Rightarrow> int res" where
  "validate_overlap_vm_area k vmaid vmastart vmaend =
     (if vmastart \<ge> vmaend then Inr (-1)
      else rbind (the_mm k) (\<lambda>m.
           rbind (get_vma_by_num m vmaid) (\<lambda>cur. case cur of
             None \<Rightarrow> Inr (-1)
           | Some c \<Rightarrow>
               Inr (if list_ex (\<lambda>i. i \<noteq> c \<and> OVERLAP vmastart vmaend (vm_start (mmap m ! i)) (vm_end (mmap m ! i)))
                         [0..<length (mmap m)]
                    then -1 else 0))))"

definition update_vma :: "krnl_t \<Rightarrow> nat \<Rightarrow> (vm_area_struct \<Rightarrow> vm_area_struct) \<Rightarrow> krnl_t res" where
  "update_vma k i f =
     rbind (the_mm k) (\<lambda>m. rbind (arr_get (mmap m) i) (\<lambda>v. rbind (arr_set (mmap m) i (f v)) (\<lambda>l.
       Inr (k\<lparr>mm := Some (m\<lparr>mmap := l\<rparr>)\<rparr>))))"

text \<open>
  \<open>inc_vma_limit\<close>. \<open>vm_map_ram\<close> returns an \<open>addr_t\<close>, so the test \<open>< 0\<close> is on an unsigned
  value. \<open>mapped_rg\<close> is filled in but not read. The area's page size is 4096
  (\<open>PAGING64_PAGESZ\<close>); \<open>vm_map_ram\<close> maps pages of 256 bytes.
\<close>

definition inc_vma_limit :: "krnl_t \<Rightarrow> int \<Rightarrow> addr \<Rightarrow> (int \<times> krnl_t) res" where
  "inc_vma_limit k vmaid inc_sz =
     rbind (the_mm k) (\<lambda>m.
     rbind (get_vma_by_num m vmaid) (\<lambda>cur_vma. case cur_vma of
       None \<Rightarrow> Inr (-1, k)
     | Some c \<Rightarrow>
         if inc_sz = 0 then Inr (-1, k)
         else
           (let aligned_sz = PAGING64_PAGE_ALIGNSZ inc_sz;
                incnumpage = sint (ucast (aligned_sz div PAGING64_PAGESZ) :: u32) in
            rbind (get_vm_area_node_at_brk k vmaid inc_sz aligned_sz) (\<lambda>area. case area of
              None \<Rightarrow> Inr (-1, k)
            | Some a \<Rightarrow>
                rbind (validate_overlap_vm_area k vmaid (rg_start a) (rg_end a)) (\<lambda>ov.
                if ov < 0 then Inr (-1, k)
                else rbind (arr_get (mmap m) c) (\<lambda>v.
                     let old_end = vm_end v in
                     rbind (vm_map_ram k (rg_start a) (rg_end a) old_end incnumpage
                              (Some (init_vm_rg 0 0))) (\<lambda>(ret, _, k).
                     if ret < 0 then Inr (-1, k)
                     else rbind (update_vma k c (\<lambda>v.
                            (let v = v\<lparr>vm_end := rg_end a, sbrk := rg_end a\<rparr> in
                             if rg_start a + inc_sz < rg_end a
                             then v\<lparr>vm_freerg_list := enlist_vm_rg_node (vm_freerg_list v)
                                      ((init_vm_rg (rg_start a + inc_sz) (rg_end a))\<lparr>rg_vmaid := Some vmaid\<rparr>)\<rparr>
                             else v))) (\<lambda>k. Inr (0, k)))))))))"

section \<open>Regions\<close>

definition enlist_vm_freerg_list :: "krnl_t \<Rightarrow> vm_rg_struct \<Rightarrow> (int \<times> krnl_t) res" where
  "enlist_vm_freerg_list k rg_elmt =
     rbind (the_mm k) (\<lambda>m. case mmap m of
       [] \<Rightarrow> Inl Null_Deref
     | v # vs \<Rightarrow>
         if rg_start rg_elmt \<ge> rg_end rg_elmt then Inr (-1, k)
         else Inr (0, k\<lparr>mm := Some (m\<lparr>mmap :=
                v\<lparr>vm_freerg_list := rg_elmt # vm_freerg_list v\<rparr> # vs\<rparr>)\<rparr>))"

definition get_symrg_byid :: "mm_struct \<Rightarrow> int \<Rightarrow> vm_rg_struct option" where
  "get_symrg_byid m rgid =
     (if rgid < 0 \<or> rgid \<ge> int PAGING_MAX_SYMTBL_SZ then None else Some (symrgtbl m ! nat rgid))"

text \<open>
  The loop of \<open>get_free_vmrg_area\<close>: the first region that is large enough gives its start; a
  region that is used up is overwritten by the next one, or left empty when it is the last.
\<close>

fun fit_loop :: "vm_rg_struct list \<Rightarrow> addr \<Rightarrow> vm_rg_struct \<Rightarrow> vm_rg_struct \<times> vm_rg_struct list" where
  "fit_loop [] sz newrg = (newrg, [])"
| "fit_loop (r # rs) sz newrg =
     (if rg_start r + sz \<le> rg_end r then
        (newrg\<lparr>rg_start := rg_start r, rg_end := rg_start r + sz\<rparr>,
         if rg_start r + sz < rg_end r then r\<lparr>rg_start := rg_start r + sz\<rparr> # rs
         else (case rs of
                 n # ns \<Rightarrow> r\<lparr>rg_start := rg_start n, rg_end := rg_end n\<rparr> # ns
               | [] \<Rightarrow> [r\<lparr>rg_start := rg_end r\<rparr>]))
      else (let (n, l) = fit_loop rs sz newrg in (n, r # l)))"

text \<open>\<open>size\<close> is an \<open>int\<close> here; added to an \<open>addr_t\<close> it is sign-extended.\<close>

definition get_free_vmrg_area :: "krnl_t \<Rightarrow> int \<Rightarrow> int \<Rightarrow> (vm_rg_struct option \<times> krnl_t) res" where
  "get_free_vmrg_area k vmaid sz =
     (if mm k = None \<or> sz \<le> 0 then Inr (None, k)
      else rbind (the_mm k) (\<lambda>m.
           rbind (get_vma_by_num m vmaid) (\<lambda>cur_vma. case cur_vma of
             None \<Rightarrow> Inr (None, k)
           | Some c \<Rightarrow>
               rbind (arr_get (mmap m) c) (\<lambda>v.
               if vm_freerg_list v = [] then Inr (None, k)
               else
                 (let (newrg, l) = fit_loop (vm_freerg_list v) (word_of_int sz)
                          \<lparr>rg_vmaid = None, rg_start = -1, rg_end = -1\<rparr> in
                  rbind (update_vma k c (\<lambda>v. v\<lparr>vm_freerg_list := l\<rparr>)) (\<lambda>k.
                    Inr (if rg_start newrg = -1 then None else Some newrg, k)))))))"

definition set_symrg :: "krnl_t \<Rightarrow> int \<Rightarrow> addr \<Rightarrow> addr \<Rightarrow> krnl_t res" where
  "set_symrg k rgid s e =
     rbind (the_mm k) (\<lambda>m.
     rbind (arr_get (symrgtbl m) (nat rgid)) (\<lambda>r.
     rbind (arr_set (symrgtbl m) (nat rgid) (r\<lparr>rg_start := s, rg_end := e\<rparr>)) (\<lambda>t.
       Inr (k\<lparr>mm := Some (m\<lparr>symrgtbl := t\<rparr>)\<rparr>))))"

text \<open>\<open>__alloc\<close>: the address it stores in \<open>*alloc_addr\<close> where it returns 0.\<close>

definition alloc_region :: "krnl_t \<Rightarrow> int \<Rightarrow> int \<Rightarrow> addr \<Rightarrow> (addr option \<times> krnl_t) res" where
  "alloc_region k vmaid rgid sz =
     (if mm k = None \<or> sz = 0 \<or> rgid < 0 \<or> rgid \<ge> int PAGING_MAX_SYMTBL_SZ then Inr (None, k)
      else rbind (the_mm k) (\<lambda>m.
           rbind (get_vma_by_num m vmaid) (\<lambda>cur_vma. case cur_vma of
             None \<Rightarrow> Inr (None, k)
           | Some c \<Rightarrow>
               rbind (get_free_vmrg_area k vmaid (sint (ucast sz :: u32))) (\<lambda>(rgnode, k).
               case rgnode of
                 Some r \<Rightarrow>
                   rbind (set_symrg k rgid (rg_start r) (rg_end r)) (\<lambda>k. Inr (Some (rg_start r), k))
               | None \<Rightarrow>
                   rbind (arr_get (mmap m) c) (\<lambda>v.
                   let old_sbrk = sbrk v in
                   rbind (inc_vma_limit k vmaid sz) (\<lambda>(ret, k).
                   if ret < 0 then Inr (None, k)
                   else rbind (set_symrg k rgid old_sbrk (old_sbrk + sz)) (\<lambda>k.
                          Inr (Some old_sbrk, k))))))))"

text \<open>\<open>__free\<close>; the node put on the free list has no \<open>vmaid\<close>.\<close>

definition free_region :: "krnl_t \<Rightarrow> int \<Rightarrow> int \<Rightarrow> (int \<times> krnl_t) res" where
  "free_region k vmaid rgid =
     (if rgid < 0 \<or> rgid \<ge> int PAGING_MAX_SYMTBL_SZ then Inr (-1, k)
      else rbind (the_mm k) (\<lambda>m.
           rbind (arr_get (symrgtbl m) (nat rgid)) (\<lambda>r.
           if rg_start r = 0 \<and> rg_end r = 0 then Inr (-1, k)
           else rbind (set_symrg k rgid 0 0) (\<lambda>k.
                rbind (enlist_vm_freerg_list k
                         \<lparr>rg_vmaid = None, rg_start = rg_start r, rg_end = rg_end r\<rparr>) (\<lambda>(_, k).
                  Inr (0, k))))))"

section \<open>Counting the regions that cover an address\<close>

definition in_rg :: "vm_rg_struct \<Rightarrow> nat \<Rightarrow> bool" where
  "in_rg r n \<longleftrightarrow> unat (rg_start r) \<le> n \<and> n < unat (rg_end r)"

fun cover :: "vm_rg_struct list \<Rightarrow> nat \<Rightarrow> nat" where
  "cover [] n = 0"
| "cover (r # rs) n = of_bool (in_rg r n) + cover rs n"

definition rg_ok :: "addr \<Rightarrow> vm_rg_struct \<Rightarrow> bool" where
  "rg_ok E r \<longleftrightarrow> rg_start r \<le> rg_end r \<and> rg_end r \<le> E"

lemma cover_append [simp]: "cover (xs @ ys) n = cover xs n + cover ys n"
  by (induction xs) simp_all

lemma cover_update:
  "i < length xs \<Longrightarrow> cover (xs[i := r]) n + of_bool (in_rg (xs ! i) n) = cover xs n + of_bool (in_rg r n)"
proof (induction xs arbitrary: i)
  case (Cons x xs)
  then show ?case
  proof (cases i)
    case (Suc j)
    then show ?thesis using Cons.IH [of j] Cons.prems by simp
  qed simp
qed simp

lemma cover_ge: "r \<in> set xs \<Longrightarrow> in_rg r n \<Longrightarrow> 1 \<le> cover xs n"
  by (induction xs) auto

lemma cover_two:
  "i < length xs \<Longrightarrow> j < length xs \<Longrightarrow> i \<noteq> j \<Longrightarrow> in_rg (xs ! i) n \<Longrightarrow> in_rg (xs ! j) n \<Longrightarrow> 2 \<le> cover xs n"
proof (induction xs arbitrary: i j)
  case (Cons r rs)
  then show ?case
    using cover_ge [OF nth_mem, of "j - 1" rs n] cover_ge [OF nth_mem, of "i - 1" rs n]
    by (cases i; cases j) auto
qed simp

lemma in_rg_ok: "rg_ok E r \<Longrightarrow> in_rg r n \<Longrightarrow> n < unat E"
  by (auto simp: rg_ok_def in_rg_def word_le_nat_alt)

lemma cover_0: "\<forall>r \<in> set rs. rg_ok E r \<Longrightarrow> unat E \<le> n \<Longrightarrow> cover rs n = 0"
  by (induction rs) (auto dest: in_rg_ok)

section \<open>First fit\<close>

definition fits :: "addr \<Rightarrow> addr \<Rightarrow> vm_rg_struct list \<Rightarrow> addr \<Rightarrow> vm_rg_struct list \<Rightarrow> bool" where
  "fits E sz rs s l \<longleftrightarrow> unat s + unat sz \<le> unat E \<and> (\<forall>r \<in> set l. rg_ok E r)
     \<and> (\<forall>n. cover rs n = cover l n + of_bool (unat s \<le> n \<and> n < unat s + unat sz))"

lemma fits_first:
  assumes r: "rg_ok E r" and rs: "\<forall>r \<in> set rs. rg_ok E r"
    and sz: "unat E + unat sz < 2 ^ 64" and le: "rg_start r + sz \<le> rg_end r"
  shows "fits E sz (r # rs) (rg_start r)
     (if rg_start r + sz < rg_end r then r\<lparr>rg_start := rg_start r + sz\<rparr> # rs
      else (case rs of n # ns \<Rightarrow> r\<lparr>rg_start := rg_start n, rg_end := rg_end n\<rparr> # ns
                     | [] \<Rightarrow> [r\<lparr>rg_start := rg_end r\<rparr>]))"
proof -
  have b: "unat (rg_start r) \<le> unat (rg_end r)" "unat (rg_end r) \<le> unat E"
    using r by (simp_all add: rg_ok_def word_le_nat_alt)
  then have s: "unat (rg_start r + sz) = unat (rg_start r) + unat sz"
    using sz by (intro unat_add_no_wrap) simp
  then have le': "unat (rg_start r) + unat sz \<le> unat (rg_end r)" using le by (simp add: word_le_nat_alt)
  show ?thesis
  proof (cases "rg_start r + sz < rg_end r")
    case True
    then show ?thesis using s le' b rs
      by (auto simp: fits_def in_rg_def rg_ok_def word_le_nat_alt word_less_nat_alt)
  next
    case False
    then have "unat (rg_end r) = unat (rg_start r) + unat sz" using s le' by (simp add: word_less_nat_alt)
    then show ?thesis using False b rs
      by (auto simp: fits_def in_rg_def rg_ok_def word_le_nat_alt split: list.split)
  qed
qed

lemma fit_loop_spec:
  assumes "\<forall>r \<in> set rs. rg_ok E r" and "unat E + unat sz < 2 ^ 64"
  shows "(case fit_loop rs sz new of (new', l) \<Rightarrow>
     (new' = new \<and> l = rs \<and> (\<forall>r \<in> set rs. \<not> rg_start r + sz \<le> rg_end r))
   \<or> (\<exists>s. new' = new\<lparr>rg_start := s, rg_end := s + sz\<rparr> \<and> fits E sz rs s l))"
  using assms(1)
proof (induction rs)
  case (Cons r rs)
  show ?case
  proof (cases "rg_start r + sz \<le> rg_end r")
    case True
    then have f: "fits E sz (r # rs) (rg_start r) (snd (fit_loop (r # rs) sz new))"
      using fits_first [of E r rs sz] Cons.prems assms(2) by simp
    have "fst (fit_loop (r # rs) sz new) = new\<lparr>rg_start := rg_start r, rg_end := rg_start r + sz\<rparr>"
      using True by simp
    with f show ?thesis unfolding case_prod_unfold by blast
  next
    case False
    have "fits E sz (r # rs) s (r # l)" if "fits E sz rs s l" for s l
      using that Cons.prems by (simp add: fits_def)
    then show ?thesis using False Cons by (auto split: prod.splits)
  qed
qed simp

section \<open>Invariant of an address space\<close>

text \<open>
  The one area of \<open>init_mm\<close>, whose bound is a multiple of 4096 and at most \<open>2 ^ 22\<close>, the
  addresses the page number field can tell apart. The free and the symbolic regions lie below the
  bound, and no address is in two of them.
\<close>

definition area_ok :: "mm_struct \<Rightarrow> vm_area_struct \<Rightarrow> bool" where
  "area_ok m v \<longleftrightarrow> mmap m = [v] \<and> vm_id v = 0 \<and> vm_start v = 0 \<and> sbrk v = vm_end v
     \<and> length (symrgtbl m) = PAGING_MAX_SYMTBL_SZ
     \<and> (\<forall>r \<in> set (vm_freerg_list v @ symrgtbl m). rg_ok (vm_end v) r)
     \<and> (\<forall>n. cover (vm_freerg_list v @ symrgtbl m) n \<le> 1)
     \<and> unat (vm_end v) \<le> 2 ^ 22 \<and> 4096 dvd unat (vm_end v)"

definition vm_inv :: "mm_struct \<Rightarrow> vm_area_struct \<Rightarrow> krnl_t \<Rightarrow> bool" where
  "vm_inv m v k \<longleftrightarrow> pg_inv m k \<and> area_ok m v
     \<and> (\<forall>p. pview m p \<noteq> Unmapped \<longrightarrow> p * 256 < unat (vm_end v))"

lemma area_okD:
  assumes "area_ok m v"
  shows "mmap m = [v]" "vm_id v = 0" "vm_start v = 0" "sbrk v = vm_end v" "length (symrgtbl m) = 30"
    "\<forall>r \<in> set (vm_freerg_list v). rg_ok (vm_end v) r" "\<forall>r \<in> set (symrgtbl m). rg_ok (vm_end v) r"
    "cover (vm_freerg_list v) n + cover (symrgtbl m) n \<le> 1"
    "unat (vm_end v) \<le> 2 ^ 22" "4096 dvd unat (vm_end v)"
  using assms unfolding area_ok_def PAGING_MAX_SYMTBL_SZ_def by (auto simp del: cover.simps)

lemma area_okI:
  assumes "mmap m = [v]" "vm_id v = 0" "vm_start v = 0" "sbrk v = vm_end v" "length (symrgtbl m) = 30"
    "\<forall>r \<in> set (vm_freerg_list v). rg_ok (vm_end v) r" "\<forall>r \<in> set (symrgtbl m). rg_ok (vm_end v) r"
    "\<And>n. cover (vm_freerg_list v) n + cover (symrgtbl m) n \<le> 1"
    "unat (vm_end v) \<le> 2 ^ 22" "4096 dvd unat (vm_end v)"
  shows "area_ok m v"
  using assms unfolding area_ok_def PAGING_MAX_SYMTBL_SZ_def by auto

lemma get_vma_0: "mmap m = [v] \<Longrightarrow> vm_id v = 0 \<Longrightarrow> get_vma_by_num m 0 = Inr (Some 0)"
  by (simp add: get_vma_by_num_def)

lemma update_vma_0: "mm k = Some m \<Longrightarrow> mmap m = [v] \<Longrightarrow>
    update_vma k 0 f = Inr (k\<lparr>mm := Some (m\<lparr>mmap := [f v]\<rparr>)\<rparr>)"
  by (simp add: update_vma_def the_mm_def)

text \<open>What a change of areas and regions keeps of the pages: all of it.\<close>

definition pg_keeps :: "mm_struct \<Rightarrow> krnl_t \<Rightarrow> mm_struct \<Rightarrow> krnl_t \<Rightarrow> bool" where
  "pg_keeps m k m' k' \<longleftrightarrow> pg_inv m' k' \<and> pg_step m k m' k'
     \<and> reach Present m' (mram k') = reach Present m (mram k)
     \<and> (\<forall>q. pview m q \<noteq> Unmapped \<longrightarrow> pview m' q \<noteq> Unmapped \<and> content k' q = content k q)"

lemma mapped_iff: "mm k = Some m \<Longrightarrow> pview m q \<noteq> Unmapped \<longleftrightarrow> (\<exists>b. content k q 0 = Some b)"
  by (auto simp: content_def content_of_def split: pte_view.splits)

lemma pg_keeps_trans: "pg_keeps m k m' k' \<Longrightarrow> pg_keeps m' k' m'' k'' \<Longrightarrow> pg_keeps m k m'' k''"
  unfolding pg_keeps_def using pg_step_trans by metis

lemma pview_same: "pgd m' = pgd m \<Longrightarrow> pview m' = pview m"
  by (simp add: pview_def fun_eq_iff)

lemma pg_keeps_areas:
  assumes inv: "pg_inv m k" and "pgd m' = pgd m" and "fifo_pgn m' = fifo_pgn m"
  shows "pg_keeps m k m' (k\<lparr>mm := Some m'\<rparr>)"
proof -
  note i = pg_invD [OF inv] and v = pview_same [OF assms(2)]
  have "fifo_ok m'" using i(9) assms(3) by (simp add: fifo_ok_def v)
  then have "pg_inv m' (k\<lparr>mm := Some m'\<rparr>)" using i assms(2) by (intro pg_invI) (simp_all add: v)
  then show ?thesis using i(1)
    by (simp add: pg_keeps_def pg_step_def dev_step_def reach_def v content_def)
qed

lemma ram_mapped_keeps: "ram_mapped m k lo n m' k' \<Longrightarrow> pg_inv m k \<Longrightarrow> pg_keeps m k m' k'"
  unfolding ram_mapped_def keeps_def pg_keeps_def
  using mapped_iff [of k m] mapped_iff [of k' m'] pg_invD(1) by metis

section \<open>Growing the area\<close>

lemma align_unat:
  assumes "unat sz + 4095 < 2 ^ 64"
  shows "unat (PAGING64_PAGE_ALIGNSZ sz) = (unat sz + 4095) div 4096 * 4096"
proof -
  have "unat (sz + 4095) = unat sz + 4095" using assms by (subst unat_add_no_wrap) simp_all
  moreover have "unat ((sz + 4095) div 4096) = unat (sz + 4095) div unat (4096 :: addr)"
    by (rule unat_div)
  moreover have "sz + 4096 - 1 = sz + (4095 :: addr)" "unat (4096 :: addr) = 4096" by simp_all
  ultimately have d: "unat ((sz + 4096 - 1) div 4096) = (unat sz + 4095) div 4096" by (simp only:)
  have "(unat sz + 4095) div 4096 * 4096 < 2 ^ 64" using assms by (meson div_times_less_eq_dividend le_less_trans)
  then show ?thesis unfolding PAGING64_PAGE_ALIGNSZ_def DIV_ROUND_UP_def PAGING64_PAGESZ_def
    using d by (subst unat_mult_no_wrap) simp_all
qed

text \<open>
  \<open>inc_vma_limit\<close> with room below \<open>2 ^ 22\<close>: the area grows by the size rounded up to 4096, what
  is left of it above \<open>sz\<close> becomes a free region, and the pages are kept.
\<close>

definition grown :: "vm_area_struct \<Rightarrow> addr \<Rightarrow> vm_area_struct" where
  "grown v sz = (let e = vm_end v + PAGING64_PAGE_ALIGNSZ sz in
     v\<lparr>vm_end := e, sbrk := e,
       vm_freerg_list := (if vm_end v + sz < e
          then \<lparr>rg_vmaid = Some 0, rg_start = vm_end v + sz, rg_end = e\<rparr> # vm_freerg_list v
          else vm_freerg_list v)\<rparr>)"

definition room :: "vm_area_struct \<Rightarrow> addr \<Rightarrow> bool" where
  "room v sz \<longleftrightarrow> unat (vm_end v) + unat sz + 4095 \<le> 2 ^ 22"

lemma aligned_room:
  assumes "area_ok m v" and "room v sz"
  shows "unat (vm_end v + PAGING64_PAGE_ALIGNSZ sz) = unat (vm_end v) + (unat sz + 4095) div 4096 * 4096"
    and "unat (vm_end v) + (unat sz + 4095) div 4096 * 4096 \<le> 2 ^ 22"
    and "unat (PAGING64_PAGE_ALIGNSZ sz) = (unat sz + 4095) div 4096 * 4096"
    and "unat (vm_end v + sz) = unat (vm_end v) + unat sz"
    and "unat sz \<le> (unat sz + 4095) div 4096 * 4096"
proof -
  have r: "unat (vm_end v) + unat sz + 4095 \<le> 2 ^ 22" using assms(2) by (simp add: room_def)
  then show a: "unat (PAGING64_PAGE_ALIGNSZ sz) = (unat sz + 4095) div 4096 * 4096"
    by (intro align_unat) simp
  have "(unat sz + 4095) div 4096 * 4096 \<le> unat sz + 4095" by (rule div_times_less_eq_dividend)
  then show b: "unat (vm_end v) + (unat sz + 4095) div 4096 * 4096 \<le> 2 ^ 22" using r by linarith
  show "unat (vm_end v + PAGING64_PAGE_ALIGNSZ sz) = unat (vm_end v) + (unat sz + 4095) div 4096 * 4096"
    using b by (subst unat_add_no_wrap) (simp_all only: a, simp)
  show "unat (vm_end v + sz) = unat (vm_end v) + unat sz" using r by (intro unat_add_no_wrap) simp
  show "unat sz \<le> (unat sz + 4095) div 4096 * 4096" by linarith
qed

text \<open>
  The pages that growing by \<open>sz\<close> maps: as many pages of 256 bytes as the area gains blocks of
  4096, and only when that many frames are free.
\<close>

definition new_page :: "vm_area_struct \<Rightarrow> addr \<Rightarrow> krnl_t \<Rightarrow> nat \<Rightarrow> bool" where
  "new_page v sz k p \<longleftrightarrow> (let lo = unat (vm_end v) div 256; n = (unat sz + 4095) div 4096 in
     n \<le> length (free_fp_list (mram k)) \<and> lo \<le> p \<and> p < lo + n)"

lemma grow_pages:
  assumes ok: "area_ok m v" and rm: "room v sz" and sz: "sz \<noteq> 0"
  shows "sint (ucast (PAGING64_PAGE_ALIGNSZ sz div PAGING64_PAGESZ) :: u32) = int ((unat sz + 4095) div 4096)"
    "0 < (unat sz + 4095) div 4096" "page_of (vm_end v) = unat (vm_end v) div 256"
    "page_of (vm_end v) + (unat sz + 4095) div 4096 \<le> 16384"
    "unat (vm_end (grown v sz)) = unat (vm_end v) + (unat sz + 4095) div 4096 * 4096"
proof -
  note al = aligned_room [OF ok rm]
  let ?al = "PAGING64_PAGE_ALIGNSZ sz" and ?n = "(unat sz + 4095) div 4096"
  have "0 < unat sz" using sz by (simp add: unat_gt_0)
  then show n0: "0 < ?n" by simp
  have "?n * 4096 \<le> 2 ^ 22" using al(2) by simp
  then have "?n < 2 ^ 31" by simp
  moreover have "unat (?al div PAGING64_PAGESZ) = ?n" by (simp add: unat_div PAGING64_PAGESZ_def al(3))
  ultimately show "sint (ucast (?al div PAGING64_PAGESZ) :: u32) = int ?n" by (metis sint_small)
  show start: "page_of (vm_end v) = unat (vm_end v) div 256" using al(2) n0 by (simp add: page_of_def)
  show "page_of (vm_end v) + ?n \<le> 16384" unfolding start using al(2) by simp
  show "unat (vm_end (grown v sz)) = unat (vm_end v) + ?n * 4096" using al(1) by (simp add: grown_def Let_def)
qed

text \<open>The pages that are mapped afterwards lie in the area.\<close>

lemma grown_pages:
  assumes ok: "area_ok m v" and rm: "room v sz" and sz: "sz \<noteq> 0"
    and bd: "\<And>p. pview m p \<noteq> Unmapped \<Longrightarrow> p * 256 < unat (vm_end v)"
    and r: "ram_mapped m k (page_of (vm_end v)) ((unat sz + 4095) div 4096) m1 k1"
  shows "pview m1 p \<noteq> Unmapped \<Longrightarrow> p * 256 < unat (vm_end (grown v sz))"
    and "pview m1 p \<noteq> Unmapped \<longleftrightarrow> pview m p \<noteq> Unmapped \<or> new_page v sz k p"
proof -
  note g = grow_pages [OF ok rm sz]
  show "p * 256 < unat (vm_end (grown v sz))" if "pview m1 p \<noteq> Unmapped"
  proof -
    have "pview m p \<noteq> Unmapped \<or> p < page_of (vm_end v) + (unat sz + 4095) div 4096"
      using ram_mapped_new [OF r] that by auto
    then show ?thesis
    proof
      assume "p < page_of (vm_end v) + (unat sz + 4095) div 4096"
      then have "p * 256 < unat (vm_end v) + (unat sz + 4095) div 4096 * 256" unfolding g(3) by linarith
      then show ?thesis using g(5) by linarith
    qed (use bd [of p] g(5) in simp)
  qed
  show "pview m1 p \<noteq> Unmapped \<longleftrightarrow> pview m p \<noteq> Unmapped \<or> new_page v sz k p"
    using r unfolding ram_mapped_def new_page_def Let_def g(3) [symmetric]
    by (cases "page_of (vm_end v) \<le> p \<and> p < page_of (vm_end v) + (unat sz + 4095) div 4096") (auto split: if_splits)
qed

lemma inc_vma_limit_spec:
  assumes inv: "vm_inv m v k" and sz: "sz \<noteq> 0" and rm: "room v sz"
  shows "returns (inc_vma_limit k 0 sz) (\<lambda>(r, k'). r = 0 \<and> (\<exists>m'. pg_keeps m k m' k'
     \<and> mmap m' = [grown v sz] \<and> symrgtbl m' = symrgtbl m
     \<and> (\<forall>p. pview m' p \<noteq> Unmapped \<longrightarrow> p * 256 < unat (vm_end (grown v sz)))
     \<and> (\<forall>p. pview m' p \<noteq> Unmapped \<longleftrightarrow> pview m p \<noteq> Unmapped \<or> new_page v sz k p)))"
proof -
  have pinv: "pg_inv m k" and ok: "area_ok m v"
    and bd: "\<And>p. pview m p \<noteq> Unmapped \<Longrightarrow> p * 256 < unat (vm_end v)"
    using inv by (auto simp: vm_inv_def)
  note o = area_okD(1-5,9,10) [OF ok] and al = aligned_room [OF ok rm] and mk = pg_invD(1) [OF pinv]
  note g = grow_pages [OF ok rm sz]
  let ?al = "PAGING64_PAGE_ALIGNSZ sz" and ?n = "(unat sz + 4095) div 4096"
  have un: "pview m q = Unmapped" if "page_of (vm_end v) \<le> q" for q
    using bd [of q] that o(7) unfolding g(3) by force
  have range: "page_of (vm_end v) + nat (int ?n) \<le> 16384" using g(4) by simp
  obtain ret rg k1 m1 where v: "vm_map_ram k (vm_end v) (vm_end v + ?al) (vm_end v) (int ?n)
        (Some (init_vm_rg 0 0)) = Inr (ret, rg, k1)" "ram_mapped m k (page_of (vm_end v)) ?n m1 k1"
    using vm_map_ram_spec [OF pinv range, of "vm_end v" "vm_end v + ?al" "Some (init_vm_rg 0 0)"] un
    by (auto elim!: returnsE)
  have keep1: "pg_keeps m k m1 k1" by (rule ram_mapped_keeps [OF v(2) pinv])
  have inv1: "pg_inv m1 k1" and same: "mmap m1 = [v]" "symrgtbl m1 = symrgtbl m"
    using v(2) o(1) by (simp_all add: ram_mapped_def keeps_def same_areas_def)
  let ?m2 = "m1\<lparr>mmap := [grown v sz]\<rparr>"
  have "get_vm_area_node_at_brk k 0 sz ?al
      = Inr (Some \<lparr>rg_vmaid = Some 0, rg_start = vm_end v, rg_end = vm_end v + ?al\<rparr>)"
    using o mk al(3,5) by (simp add: get_vm_area_node_at_brk_def the_mm_def get_vma_0 word_less_nat_alt)
  moreover have "validate_overlap_vm_area k 0 (vm_end v) (vm_end v + ?al) = Inr 0"
    using o mk al(1) g(2) by (simp add: validate_overlap_vm_area_def the_mm_def get_vma_0 word_le_nat_alt)
  moreover have "update_vma k1 0 f = Inr (k1\<lparr>mm := Some (m1\<lparr>mmap := [f v]\<rparr>)\<rparr>)" for f
    by (rule update_vma_0 [OF pg_invD(1) [OF inv1] same(1)])
  ultimately have run: "inc_vma_limit k 0 sz = Inr (0, k1\<lparr>mm := Some ?m2\<rparr>)"
    using sz o mk by (simp add: inc_vma_limit_def the_mm_def get_vma_0 g(1) v(1) [unfolded init_vm_rg_def] grown_def Let_def
        enlist_vm_rg_node_def init_vm_rg_def)
  have keep2: "pg_keeps m k ?m2 (k1\<lparr>mm := Some ?m2\<rparr>)"
    by (rule pg_keeps_trans [OF keep1 pg_keeps_areas [OF inv1]]) simp_all
  have "pview ?m2 = pview m1" by (rule pview_same) simp
  note pages = grown_pages [OF ok rm sz bd v(2), folded this]
  show ?thesis unfolding run returns_simps prod.case
    using keep2 pages same(2) by (intro conjI refl exI [of _ ?m2] allI impI) simp_all
qed

section \<open>Allocating and freeing\<close>

lemma rg_ok_mono: "rg_ok E r \<Longrightarrow> E \<le> E' \<Longrightarrow> rg_ok E' r"
  by (auto simp: rg_ok_def)

text \<open>
  An area whose free regions gave up \<open>[a, a + sz)\<close>, possibly after it grew, and the region of
  slot \<open>rgid\<close> set to it. What the slot held before is in no region any more.
\<close>

lemma area_ok_set:
  assumes ok: "area_ok m v" and i: "i < 30"
    and v': "mmap m' = [v']" "vm_id v' = 0" "vm_start v' = 0" "sbrk v' = vm_end v'"
      "unat (vm_end v') \<le> 2 ^ 22" "4096 dvd unat (vm_end v')" "vm_end v \<le> vm_end v'"
    and fr: "\<forall>r \<in> set (vm_freerg_list v'). rg_ok (vm_end v') r"
    and r: "rg_ok (vm_end v') r" "symrgtbl m' = (symrgtbl m)[i := r]"
    and c: "\<And>n. cover (vm_freerg_list v') n + of_bool (in_rg r n)
        = cover (vm_freerg_list v) n + of_bool (unat (vm_end v) \<le> n \<and> n < unat (vm_end v'))"
  shows "area_ok m' v'"
    and "cover (vm_freerg_list v' @ symrgtbl m') n + of_bool (in_rg (symrgtbl m ! i) n)
        = cover (vm_freerg_list v @ symrgtbl m) n + of_bool (unat (vm_end v) \<le> n \<and> n < unat (vm_end v'))"
proof -
  note o = area_okD [OF ok]
  have u: "cover (symrgtbl m') n + of_bool (in_rg (symrgtbl m ! i) n)
      = cover (symrgtbl m) n + of_bool (in_rg r n)" for n
    unfolding r(2) using cover_update [of i "symrgtbl m" r n] i o(5) by simp
  have t: "cover (vm_freerg_list v') n + cover (symrgtbl m') n + of_bool (in_rg (symrgtbl m ! i) n)
      = cover (vm_freerg_list v) n + cover (symrgtbl m) n
        + of_bool (unat (vm_end v) \<le> n \<and> n < unat (vm_end v'))" for n
    using c [of n] u [of n] by linarith
  then show "cover (vm_freerg_list v' @ symrgtbl m') n + of_bool (in_rg (symrgtbl m ! i) n)
        = cover (vm_freerg_list v @ symrgtbl m) n + of_bool (unat (vm_end v) \<le> n \<and> n < unat (vm_end v'))"
    by simp
  have "cover (vm_freerg_list v') n + cover (symrgtbl m') n \<le> 1" for n
  proof (cases "unat (vm_end v) \<le> n")
    case True
    then have "cover (vm_freerg_list v) n = 0" "cover (symrgtbl m) n = 0"
      using cover_0 o(6,7) by blast+
    moreover have "of_bool (unat (vm_end v) \<le> n \<and> n < unat (vm_end v')) \<le> (1 :: nat)" by simp
    ultimately show ?thesis using t [of n] by linarith
  next
    case False
    then show ?thesis using t [of n] o(8) [of n] by simp
  qed
  moreover have "\<forall>x \<in> set (symrgtbl m'). rg_ok (vm_end v') x"
    unfolding r(2) using o(7) r(1) rg_ok_mono [OF _ v'(7)] set_update_subset_insert [of "symrgtbl m" i r]
    by blast
  ultimately show "area_ok m' v'" using v' fr o(5) r(2) by (intro area_okI) simp_all
qed

definition allocated :: "mm_struct \<Rightarrow> vm_area_struct \<Rightarrow> krnl_t \<Rightarrow> nat \<Rightarrow> addr \<Rightarrow> addr
    \<Rightarrow> mm_struct \<Rightarrow> vm_area_struct \<Rightarrow> krnl_t \<Rightarrow> bool" where
  "allocated m v k i sz a m' v' k' \<longleftrightarrow> vm_inv m' v' k' \<and> pg_keeps m k m' k'
     \<and> unat (vm_end v) \<le> unat (vm_end v') \<and> unat (vm_end v') \<le> unat (vm_end v) + (unat sz + 4095)
     \<and> symrgtbl m' = (symrgtbl m)[i := (symrgtbl m ! i)\<lparr>rg_start := a, rg_end := a + sz\<rparr>]
     \<and> unat (a + sz) = unat a + unat sz \<and> unat a + unat sz \<le> unat (vm_end v')
     \<and> (\<forall>n. cover (vm_freerg_list v' @ symrgtbl m') n + of_bool (in_rg (symrgtbl m ! i) n)
          = cover (vm_freerg_list v @ symrgtbl m) n + of_bool (unat (vm_end v) \<le> n \<and> n < unat (vm_end v')))"

lemma set_symrg_eq:
  "mm k = Some m \<Longrightarrow> i < length (symrgtbl m) \<Longrightarrow> set_symrg k (int i) s e =
     Inr (k\<lparr>mm := Some (m\<lparr>symrgtbl := (symrgtbl m)[i := (symrgtbl m ! i)\<lparr>rg_start := s, rg_end := e\<rparr>]\<rparr>)\<rparr>)"
  by (simp add: set_symrg_def the_mm_def)

text \<open>The last step of both branches of \<open>__alloc\<close>.\<close>

lemma alloc_finish:
  assumes inv: "vm_inv m v k" and i: "i < 30"
    and k1: "pg_keeps m k m1 k1" "mmap m1 = [v1]" "symrgtbl m1 = symrgtbl m"
      "\<And>p. pview m1 p \<noteq> Unmapped \<Longrightarrow> p * 256 < unat (vm_end v1)"
    and v1: "vm_id v1 = 0" "vm_start v1 = 0" "sbrk v1 = vm_end v1"
      "unat (vm_end v1) \<le> 2 ^ 22" "4096 dvd unat (vm_end v1)" "vm_end v \<le> vm_end v1"
      "unat (vm_end v1) \<le> unat (vm_end v) + (unat sz + 4095)"
      "\<forall>r \<in> set (vm_freerg_list v1). rg_ok (vm_end v1) r"
    and a: "unat (a + sz) = unat a + unat sz" "unat a + unat sz \<le> unat (vm_end v1)"
    and c: "\<And>n. cover (vm_freerg_list v1) n + of_bool (unat a \<le> n \<and> n < unat a + unat sz)
        = cover (vm_freerg_list v) n + of_bool (unat (vm_end v) \<le> n \<and> n < unat (vm_end v1))"
    and m2: "m2 = m1\<lparr>symrgtbl := (symrgtbl m1)[i := (symrgtbl m1 ! i)\<lparr>rg_start := a, rg_end := a + sz\<rparr>]\<rparr>"
  shows "allocated m v k i sz a m2 v1 (k1\<lparr>mm := Some m2\<rparr>)"
proof -
  have ok: "area_ok m v" using inv by (simp add: vm_inv_def)
  let ?r = "(symrgtbl m ! i)\<lparr>rg_start := a, rg_end := a + sz\<rparr>"
  have s2: "mmap m2 = [v1]" "symrgtbl m2 = (symrgtbl m)[i := ?r]" using k1(2,3) by (simp_all add: m2)
  have r: "rg_ok (vm_end v1) ?r" using a by (simp add: rg_ok_def word_le_nat_alt)
  have c': "cover (vm_freerg_list v1) n + of_bool (in_rg ?r n)
        = cover (vm_freerg_list v) n + of_bool (unat (vm_end v) \<le> n \<and> n < unat (vm_end v1))" for n
    using c [of n] a(1) by (simp add: in_rg_def)
  note ar = area_ok_set [OF ok i s2(1) v1(1-6,8) r s2(2) c']
  have inv1: "pg_inv m1 k1" using k1(1) by (simp add: pg_keeps_def)
  have pk: "pg_keeps m1 k1 m2 (k1\<lparr>mm := Some m2\<rparr>)" by (rule pg_keeps_areas [OF inv1]) (simp_all add: m2)
  have "pview m2 = pview m1" by (rule pview_same) (simp add: m2)
  then have "vm_inv m2 v1 (k1\<lparr>mm := Some m2\<rparr>)"
    using ar(1) pk k1(4) by (simp add: vm_inv_def pg_keeps_def)
  then show ?thesis
    using pg_keeps_trans [OF k1(1) pk] v1(6,7) s2(2) a ar(2) by (simp add: allocated_def word_le_nat_alt)
qed

text \<open>What \<open>__alloc\<close> does when no free region is large enough, and when one is.\<close>

lemma alloc_size:
  assumes "room v sz" and "sz \<noteq> 0"
  shows "sint (ucast sz :: u32) = int (unat sz)" "0 < unat sz" "unat (vm_end v) + unat sz < 2 ^ 64"
  using assms sint_small [of sz] by (simp_all add: room_def unat_gt_0)

lemma alloc_region_grow:
  assumes inv: "vm_inv m v k" and i: "i < 30" and sz: "sz \<noteq> 0" and rm: "room v sz"
    and get: "get_free_vmrg_area k 0 (int (unat sz)) = Inr (None, k)"
  shows "returns (alloc_region k 0 (int i) sz) (\<lambda>(r, k'). \<exists>a m' v'. r = Some a \<and> allocated m v k i sz a m' v' k')"
proof -
  have pinv: "pg_inv m k" and ok: "area_ok m v" using inv by (auto simp: vm_inv_def)
  note o = area_okD [OF ok] and al = aligned_room [OF ok rm] and mk = pg_invD(1) [OF pinv]
  obtain k1 m1 where inc: "inc_vma_limit k 0 sz = Inr (0, k1)" "pg_keeps m k m1 k1" "mmap m1 = [grown v sz]"
      "symrgtbl m1 = symrgtbl m" "\<And>p. pview m1 p \<noteq> Unmapped \<Longrightarrow> p * 256 < unat (vm_end (grown v sz))"
    using inc_vma_limit_spec [OF inv sz rm] by (auto elim!: returnsE)
  have mk1: "mm k1 = Some m1" using inc(2) pg_invD(1) by (auto simp: pg_keeps_def)
  let ?m2 = "m1\<lparr>symrgtbl := (symrgtbl m1)[i := (symrgtbl m1 ! i)\<lparr>rg_start := vm_end v, rg_end := vm_end v + sz\<rparr>]\<rparr>"
  let ?v1 = "grown v sz"
  have "alloc_region k 0 (int i) sz = Inr (Some (vm_end v), k1\<lparr>mm := Some ?m2\<rparr>)"
    using mk i sz o(1,2,4,5) mk1 inc(4)
    by (simp add: alloc_region_def the_mm_def get_vma_0 alloc_size(1) [OF rm sz] get inc(1) Let_def set_symrg_eq
        PAGING_MAX_SYMTBL_SZ_def del: of_nat_unat)
  moreover have e: "unat (vm_end ?v1) = unat (vm_end v) + (unat sz + 4095) div 4096 * 4096"
    using al(1) by (simp add: grown_def Let_def)
  have "allocated m v k i sz (vm_end v) ?m2 ?v1 (k1\<lparr>mm := Some ?m2\<rparr>)"
  proof (rule alloc_finish [OF inv i inc(2-5)])
    show "cover (vm_freerg_list ?v1) n + of_bool (unat (vm_end v) \<le> n \<and> n < unat (vm_end v) + unat sz)
      = cover (vm_freerg_list v) n + of_bool (unat (vm_end v) \<le> n \<and> n < unat (vm_end ?v1))" for n
      using al(1,4,5) by (auto simp: grown_def Let_def in_rg_def word_less_nat_alt)
    show "\<forall>r \<in> set (vm_freerg_list ?v1). rg_ok (vm_end ?v1) r"
      using o(6) al(1,4,5) by (auto simp: grown_def Let_def rg_ok_def word_le_nat_alt word_less_nat_alt)
  qed (use o al e in \<open>auto simp: grown_def Let_def word_le_nat_alt\<close>)
  ultimately show ?thesis by auto
qed

lemma alloc_region_reuse:
  assumes inv: "vm_inv m v k" and i: "i < 30" and sz: "sz \<noteq> 0" and rm: "room v sz"
    and s: "fits (vm_end v) sz (vm_freerg_list v) s l"
    and get: "get_free_vmrg_area k 0 (int (unat sz)) =
      Inr (Some \<lparr>rg_vmaid = None, rg_start = s, rg_end = s + sz\<rparr>, k\<lparr>mm := Some (m\<lparr>mmap := [v\<lparr>vm_freerg_list := l\<rparr>]\<rparr>)\<rparr>)"
  shows "returns (alloc_region k 0 (int i) sz) (\<lambda>(r, k'). \<exists>a m' v'. r = Some a \<and> allocated m v k i sz a m' v' k')"
proof -
  have pinv: "pg_inv m k" and ok: "area_ok m v"
    and bd: "\<And>p. pview m p \<noteq> Unmapped \<Longrightarrow> p * 256 < unat (vm_end v)"
    using inv by (auto simp: vm_inv_def)
  note o = area_okD [OF ok] and mk = pg_invD(1) [OF pinv]
  have b: "unat s + unat sz \<le> unat (vm_end v)" using s by (simp add: fits_def)
  let ?m1 = "m\<lparr>mmap := [v\<lparr>vm_freerg_list := l\<rparr>]\<rparr>"
  let ?m2 = "?m1\<lparr>symrgtbl := (symrgtbl ?m1)[i := (symrgtbl ?m1 ! i)\<lparr>rg_start := s, rg_end := s + sz\<rparr>]\<rparr>"
  have "alloc_region k 0 (int i) sz = Inr (Some s, k\<lparr>mm := Some ?m1\<rparr>\<lparr>mm := Some ?m2\<rparr>)"
    using mk i sz o(1,2,5)
    by (simp add: alloc_region_def the_mm_def get_vma_0 alloc_size(1) [OF rm sz] get Let_def
        set_symrg_eq [of _ ?m1] PAGING_MAX_SYMTBL_SZ_def del: of_nat_unat)
  moreover have "allocated m v k i sz s ?m2 (v\<lparr>vm_freerg_list := l\<rparr>) (k\<lparr>mm := Some ?m1\<rparr>\<lparr>mm := Some ?m2\<rparr>)"
  proof (rule alloc_finish [OF inv i])
    show "pg_keeps m k ?m1 (k\<lparr>mm := Some ?m1\<rparr>)" by (rule pg_keeps_areas [OF pinv]) simp_all
    show "unat (s + sz) = unat s + unat sz" using b o(9) by (intro unat_add_no_wrap) simp
    show "p * 256 < unat (vm_end (v\<lparr>vm_freerg_list := l\<rparr>))" if "pview ?m1 p \<noteq> Unmapped" for p
      using bd [of p] that pview_same [of ?m1 m] by simp
  qed (use o b s in \<open>auto simp: fits_def\<close>)
  ultimately show ?thesis by auto
qed

lemma alloc_region_spec:
  assumes inv: "vm_inv m v k" and i: "i < 30" and sz: "sz \<noteq> 0" and rm: "room v sz"
  shows "returns (alloc_region k 0 (int i) sz) (\<lambda>(r, k'). \<exists>a m' v'. r = Some a \<and> allocated m v k i sz a m' v' k')"
proof -
  have pinv: "pg_inv m k" and ok: "area_ok m v" using inv by (auto simp: vm_inv_def)
  note o = area_okD [OF ok] and mk = pg_invD(1) [OF pinv] and szb = alloc_size [OF rm sz]
  have w: "word_of_nat (unat sz) = sz" by simp
  let ?new = "\<lparr>rg_vmaid = None, rg_start = -1, rg_end = -1\<rparr> :: vm_rg_struct"
  obtain new l where f: "fit_loop (vm_freerg_list v) sz ?new = (new, l)" by fastforce
  let ?m1 = "m\<lparr>mmap := [v\<lparr>vm_freerg_list := l\<rparr>]\<rparr>"
  have get: "get_free_vmrg_area k 0 (int (unat sz)) = (if vm_freerg_list v = [] then Inr (None, k)
      else Inr (if rg_start new = -1 then None else Some new, k\<lparr>mm := Some ?m1\<rparr>))"
    using mk o(1,2) szb(2) f by (simp add: get_free_vmrg_area_def the_mm_def get_vma_0 update_vma_0 w del: of_nat_unat)
  have "(new = ?new \<and> l = vm_freerg_list v) \<or>
      (\<exists>s. new = ?new\<lparr>rg_start := s, rg_end := s + sz\<rparr> \<and> fits (vm_end v) sz (vm_freerg_list v) s l)"
    using fit_loop_spec [OF o(6) szb(3), of ?new] f by auto
  then consider "new = ?new" "l = vm_freerg_list v"
    | s where "new = ?new\<lparr>rg_start := s, rg_end := s + sz\<rparr>" "fits (vm_end v) sz (vm_freerg_list v) s l" by blast
  then show ?thesis
  proof cases
    case 1
    then have "k\<lparr>mm := Some ?m1\<rparr> = k" using mk o(1) by simp
    then show ?thesis using get 1 by (intro alloc_region_grow [OF inv i sz rm]) simp
  next
    case (2 s)
    have "unat s < 2 ^ 23" using 2(2) o(9) by (simp add: fits_def)
    then have "s \<noteq> -1" by (auto simp: unsigned_minus_1_eq_mask mask_eq_exp_minus_1)
    moreover have "vm_freerg_list v \<noteq> []" using f 2(1) \<open>s \<noteq> -1\<close> by auto
    ultimately show ?thesis using get 2(1) by (intro alloc_region_reuse [OF inv i sz rm 2(2)]) simp
  qed
qed

text \<open>\<open>__free\<close>: the region of the slot moves to the head of the free list.\<close>

definition freed :: "mm_struct \<Rightarrow> vm_area_struct \<Rightarrow> krnl_t \<Rightarrow> nat \<Rightarrow> mm_struct \<Rightarrow> vm_area_struct \<Rightarrow> krnl_t \<Rightarrow> bool" where
  "freed m v k i m' v' k' \<longleftrightarrow> vm_inv m' v' k' \<and> pg_keeps m k m' k' \<and> content k' = content k
     \<and> vm_end v' = vm_end v
     \<and> symrgtbl m' = (symrgtbl m)[i := (symrgtbl m ! i)\<lparr>rg_start := 0, rg_end := 0\<rparr>]
     \<and> (\<forall>n. cover (vm_freerg_list v') n = cover (vm_freerg_list v) n + of_bool (in_rg (symrgtbl m ! i) n))"

lemma free_region_spec:
  assumes inv: "vm_inv m v k" and i: "i < 30"
  shows "returns (free_region k 0 (int i)) (\<lambda>(r, k').
     if rg_start (symrgtbl m ! i) = 0 \<and> rg_end (symrgtbl m ! i) = 0 then r = -1 \<and> k' = k
     else r = 0 \<and> (\<exists>m' v'. freed m v k i m' v' k'))"
proof (cases "rg_start (symrgtbl m ! i) = 0 \<and> rg_end (symrgtbl m ! i) = 0")
  case True
  have "mm k = Some m" "length (symrgtbl m) = 30"
    using inv area_okD(5) pg_invD(1) by (auto simp: vm_inv_def)
  then show ?thesis using True i by (simp add: free_region_def the_mm_def PAGING_MAX_SYMTBL_SZ_def)
next
  case False
  have pinv: "pg_inv m k" and ok: "area_ok m v"
    and bd: "\<And>p. pview m p \<noteq> Unmapped \<Longrightarrow> p * 256 < unat (vm_end v)"
    using inv by (auto simp: vm_inv_def)
  note o = area_okD [OF ok] and mk = pg_invD(1) [OF pinv]
  let ?r = "symrgtbl m ! i"
  let ?n = "\<lparr>rg_vmaid = None, rg_start = rg_start ?r, rg_end = rg_end ?r\<rparr>"
  let ?v = "if rg_start ?r < rg_end ?r then v\<lparr>vm_freerg_list := ?n # vm_freerg_list v\<rparr> else v"
  let ?m1 = "m\<lparr>symrgtbl := (symrgtbl m)[i := ?r\<lparr>rg_start := 0, rg_end := 0\<rparr>]\<rparr>"
  let ?m2 = "?m1\<lparr>mmap := [?v]\<rparr>"
  have rok: "rg_ok (vm_end v) ?r" using o(5,7) i by simp
  have run: "free_region k 0 (int i) = Inr (0, k\<lparr>mm := Some ?m2\<rparr>)"
    using False i mk o(1,5)
    by (auto simp: free_region_def the_mm_def PAGING_MAX_SYMTBL_SZ_def set_symrg_eq enlist_vm_freerg_list_def
        not_le)
  have c: "cover (vm_freerg_list ?v) n + of_bool (in_rg (?r\<lparr>rg_start := 0, rg_end := 0\<rparr>) n)
      = cover (vm_freerg_list v) n + of_bool (in_rg ?r n)" for n
    by (auto simp: in_rg_def word_less_nat_alt)
  have sym: "cover (symrgtbl ?m2) n + of_bool (in_rg ?r n) = cover (symrgtbl m) n" for n
    using cover_update [of i "symrgtbl m" "?r\<lparr>rg_start := 0, rg_end := 0\<rparr>" n] i o(5) by (simp add: in_rg_def)
  have "area_ok ?m2 ?v"
  proof (rule area_okI)
    show "cover (vm_freerg_list ?v) n + cover (symrgtbl ?m2) n \<le> 1" for n
      using c [of n] sym [of n] o(8) [of n] by linarith
    show "\<forall>x \<in> set (vm_freerg_list ?v). rg_ok (vm_end ?v) x"
      using o(6) rok by (auto simp: rg_ok_def)
    show "\<forall>x \<in> set (symrgtbl ?m2). rg_ok (vm_end ?v) x"
      using o(7) set_update_subset_insert [of "symrgtbl m" i "?r\<lparr>rg_start := 0, rg_end := 0\<rparr>"]
      by (auto simp: rg_ok_def)
  qed (use o in auto)
  moreover have pk: "pg_keeps m k ?m2 (k\<lparr>mm := Some ?m2\<rparr>)" by (rule pg_keeps_areas [OF pinv]) simp_all
  moreover have "pview ?m2 = pview m" by (rule pview_same) simp
  ultimately have "vm_inv ?m2 ?v (k\<lparr>mm := Some ?m2\<rparr>)" using bd by (simp add: vm_inv_def pg_keeps_def)
  moreover have "content (k\<lparr>mm := Some ?m2\<rparr>) = content k"
    using mk \<open>pview ?m2 = pview m\<close> by (simp add: content_def)
  moreover have "cover (vm_freerg_list ?v) n = cover (vm_freerg_list v) n + of_bool (in_rg ?r n)" for n
    using c [of n] by (simp add: in_rg_def)
  ultimately have "freed m v k i ?m2 ?v (k\<lparr>mm := Some ?m2\<rparr>)"
    using pk by (simp add: freed_def del: cover.simps)
  then have ex: "\<exists>m' v'. freed m v k i m' v' (k\<lparr>mm := Some ?m2\<rparr>)" by (intro exI)
  show ?thesis unfolding run returns_simps prod.case if_not_P [OF False] using ex by (intro conjI refl)
qed

end
