(* ===== verification/Libmem.thy ===== *)
theory Libmem
  imports Vm_Area
begin

text \<open>
  The memory library that the CPU calls, \<^verbatim>\<open>src/libmem.c\<close>: \<open>liballoc\<close>, \<open>libfree\<close>,
  \<open>libread\<close>, \<open>libwrite\<close> on the 30 symbolic regions of a process, and the kernel memory calls,
  which work on the same regions. A call runs under \<open>mmvm_lock\<close>, except that a read takes no
  lock; here a call is one step. The dumps of \<open>IODUMP\<close> are not modelled.
\<close>

section \<open>Operations\<close>

text \<open>\<open>__read\<close> and \<open>__write\<close>.\<close>

definition read_region :: "krnl_t \<Rightarrow> int \<Rightarrow> int \<Rightarrow> addr \<Rightarrow> (byte option \<times> krnl_t) res" where
  "read_region k vmaid rgid offset =
     (if mm k = None then Inr (None, k)
      else rbind (the_mm k) (\<lambda>m.
           rbind (get_vma_by_num m vmaid) (\<lambda>cur_vma.
           case get_symrg_byid m rgid of
             None \<Rightarrow> Inr (None, k)
           | Some r \<Rightarrow>
               if cur_vma = None \<or> rg_start r = rg_end r \<or> rg_start r + offset \<ge> rg_end r
               then Inr (None, k)
               else pg_getval k (sint (ucast (rg_start r + offset) :: u32)))))"

definition write_region :: "krnl_t \<Rightarrow> int \<Rightarrow> int \<Rightarrow> addr \<Rightarrow> byte \<Rightarrow> (int \<times> krnl_t) res" where
  "write_region k vmaid rgid offset v =
     (if mm k = None then Inr (-1, k)
      else rbind (the_mm k) (\<lambda>m.
           rbind (get_vma_by_num m vmaid) (\<lambda>cur_vma.
           case get_symrg_byid m rgid of
             None \<Rightarrow> Inr (-1, k)
           | Some r \<Rightarrow>
               if cur_vma = None \<or> rg_start r = rg_end r \<or> rg_start r + offset \<ge> rg_end r
               then Inr (-1, k)
               else pg_setval k (sint (ucast (rg_start r + offset) :: u32)) v)))"

definition liballoc :: "krnl_t \<Rightarrow> addr \<Rightarrow> u32 \<Rightarrow> (int \<times> krnl_t) res" where
  "liballoc k sz reg_index =
     rbind (alloc_region k 0 (sint reg_index) sz) (\<lambda>(a, k).
       Inr (case a of None \<Rightarrow> -1 | Some _ \<Rightarrow> 0, k))"

definition libfree :: "krnl_t \<Rightarrow> u32 \<Rightarrow> (int \<times> krnl_t) res" where
  "libfree k reg_index =
     rbind (free_region k 0 (sint reg_index)) (\<lambda>(val, k). Inr (if val = -1 then -1 else 0, k))"

text \<open>
  \<open>libread\<close>: what it stores in \<open>*destination\<close>, or nothing where it returns -1. \<open>BYTE\<close> is a
  \<open>char\<close>, signed on the platforms of the simulator, so it is sign-extended.
\<close>

definition libread :: "krnl_t \<Rightarrow> u32 \<Rightarrow> addr \<Rightarrow> (u32 option \<times> krnl_t) res" where
  "libread k source offset =
     rbind (read_region k 0 (sint source) offset) (\<lambda>(data, k). Inr (map_option scast data, k))"

definition libwrite :: "krnl_t \<Rightarrow> byte \<Rightarrow> u32 \<Rightarrow> addr \<Rightarrow> (int \<times> krnl_t) res" where
  "libwrite k data destination offset =
     rbind (write_region k 0 (sint destination) offset data) (\<lambda>(val, k).
       Inr (if val \<noteq> 0 then -1 else 0, k))"

section \<open>Kernel memory calls\<close>

definition kmalloc :: "krnl_t \<Rightarrow> int \<Rightarrow> int \<Rightarrow> addr \<Rightarrow> (addr \<times> krnl_t) res" where
  "kmalloc k vmaid rgid sz =
     (if sz = 0 then Inr (-1, k)
      else rbind (alloc_region k vmaid rgid sz) (\<lambda>(a, k).
             Inr (case a of None \<Rightarrow> -1 | Some x \<Rightarrow> x, k)))"

text \<open>These two also store the address in the process register \<open>reg_index\<close>.\<close>

definition libkmem_malloc :: "addr list \<Rightarrow> krnl_t \<Rightarrow> u32 \<Rightarrow> u32 \<Rightarrow> (int \<times> addr list \<times> krnl_t) res" where
  "libkmem_malloc rs k sz reg_index =
     (if sz = 0 then Inr (-1, rs, k)
      else rbind (kmalloc k 0 (sint reg_index) (ucast sz)) (\<lambda>(a, k).
             if a = -1 then Inr (-1, rs, k)
             else rbind (arr_set rs (unat reg_index) a) (\<lambda>rs. Inr (0, rs, k))))"

definition libkmem_cache_pool_create :: "u32 \<Rightarrow> u32 \<Rightarrow> u32 \<Rightarrow> int" where
  "libkmem_cache_pool_create sz align cache_pool_id = (if sz = 0 \<or> align = 0 then -1 else 0)"

definition kmem_cache_alloc :: "krnl_t \<Rightarrow> int \<Rightarrow> int \<Rightarrow> int \<Rightarrow> (addr \<times> krnl_t) res" where
  "kmem_cache_alloc k vmaid rgid cache_pool_id = kmalloc k vmaid rgid PAGING64_PAGESZ"

definition libkmem_cache_alloc :: "addr list \<Rightarrow> krnl_t \<Rightarrow> u32 \<Rightarrow> u32 \<Rightarrow> (int \<times> addr list \<times> krnl_t) res" where
  "libkmem_cache_alloc rs k cache_pool_id reg_index =
     rbind (kmem_cache_alloc k 0 (sint reg_index) (sint cache_pool_id)) (\<lambda>(a, k).
       if a = -1 then Inr (-1, rs, k)
       else rbind (arr_set rs (unat reg_index) a) (\<lambda>rs. Inr (0, rs, k)))"

definition read_kernel_mem :: "krnl_t \<Rightarrow> int \<Rightarrow> int \<Rightarrow> addr \<Rightarrow> (byte option \<times> krnl_t) res" where
  "read_kernel_mem k vmaid rgid offset = read_region k vmaid rgid offset"

definition write_kernel_mem :: "krnl_t \<Rightarrow> int \<Rightarrow> int \<Rightarrow> addr \<Rightarrow> byte \<Rightarrow> (int \<times> krnl_t) res" where
  "write_kernel_mem k vmaid rgid offset v = write_region k vmaid rgid offset v"

definition read_user_mem :: "krnl_t \<Rightarrow> int \<Rightarrow> int \<Rightarrow> addr \<Rightarrow> (byte option \<times> krnl_t) res" where
  "read_user_mem k vmaid rgid offset = read_region k vmaid rgid offset"

definition write_user_mem :: "krnl_t \<Rightarrow> int \<Rightarrow> int \<Rightarrow> addr \<Rightarrow> byte \<Rightarrow> (int \<times> krnl_t) res" where
  "write_user_mem k vmaid rgid offset v = write_region k vmaid rgid offset v"

text \<open>
  The loop of both copy calls: read byte \<open>from i\<close> of one region, write it at \<open>to i\<close> of the
  other, and stop at the first failure.
\<close>

function copy_loop :: "(krnl_t \<Rightarrow> u32 \<Rightarrow> (byte option \<times> krnl_t) res) \<Rightarrow>
    (krnl_t \<Rightarrow> u32 \<Rightarrow> byte \<Rightarrow> (int \<times> krnl_t) res) \<Rightarrow> krnl_t \<Rightarrow> nat \<Rightarrow> nat \<Rightarrow> (int \<times> krnl_t) res" where
  "copy_loop rd wr k n i =
     (if i < n then
        rbind (rd k (word_of_nat i)) (\<lambda>(data, k). case data of
          None \<Rightarrow> Inr (-1, k)
        | Some b \<Rightarrow> rbind (wr k (word_of_nat i) b) (\<lambda>(ret, k).
            if ret \<noteq> 0 then Inr (-1, k) else copy_loop rd wr k n (i + 1)))
      else Inr (0, k))"
  by pat_completeness auto
termination by (relation "measure (\<lambda>(rd, wr, k, n, i). n - i)") auto

declare copy_loop.simps [simp del]

definition libkmem_copy_from_user :: "krnl_t \<Rightarrow> u32 \<Rightarrow> u32 \<Rightarrow> u32 \<Rightarrow> u32 \<Rightarrow> (int \<times> krnl_t) res" where
  "libkmem_copy_from_user k source destination offset sz =
     copy_loop (\<lambda>k i. read_user_mem k 0 (sint source) (ucast (offset + i)))
       (\<lambda>k i b. write_kernel_mem k 0 (sint destination) (ucast i) b) k (unat sz) 0"

definition libkmem_copy_to_user :: "krnl_t \<Rightarrow> u32 \<Rightarrow> u32 \<Rightarrow> u32 \<Rightarrow> u32 \<Rightarrow> (int \<times> krnl_t) res" where
  "libkmem_copy_to_user k source destination offset sz =
     copy_loop (\<lambda>k i. read_kernel_mem k 0 (sint source) (ucast i))
       (\<lambda>k i b. write_user_mem k 0 (sint destination) (ucast (offset + i)) b) k (unat sz) 0"

section \<open>The variables of a process\<close>

text \<open>
  \<open>valid m i j\<close>: \<open>j\<close> is an offset inside region \<open>i\<close>. \<open>var_byte\<close> is the byte there, nothing
  while its page has never been mapped.
\<close>

definition valid :: "mm_struct \<Rightarrow> nat \<Rightarrow> nat \<Rightarrow> bool" where
  "valid m i j \<longleftrightarrow> i < length (symrgtbl m) \<and>
     unat (rg_start (symrgtbl m ! i)) + j < unat (rg_end (symrgtbl m ! i))"

definition var_addr :: "mm_struct \<Rightarrow> nat \<Rightarrow> nat \<Rightarrow> nat" where
  "var_addr m i j = unat (rg_start (symrgtbl m ! i)) + j"

definition var_byte :: "mm_struct \<Rightarrow> krnl_t \<Rightarrow> nat \<Rightarrow> nat \<Rightarrow> byte option" where
  "var_byte m k i j = content k (var_addr m i j div 256) (var_addr m i j mod 256)"

lemma valid_bound:
  assumes "vm_inv m v k" and "valid m i j"
  shows "var_addr m i j < unat (vm_end v)" and "var_addr m i j < 2 ^ 22"
proof -
  have ok: "area_ok m v" using assms(1) by (simp add: vm_inv_def)
  have "symrgtbl m ! i \<in> set (symrgtbl m)" using assms(2) by (simp add: valid_def)
  then have "rg_ok (vm_end v) (symrgtbl m ! i)" using area_okD(7) [OF ok] by blast
  then show "var_addr m i j < unat (vm_end v)"
    using assms(2) by (simp add: valid_def var_addr_def rg_ok_def word_le_nat_alt)
  then show "var_addr m i j < 2 ^ 22" using area_okD(9) [OF ok] by simp
qed

text \<open>Two places in the variables of a process are at different addresses.\<close>

lemma var_addr_inj:
  assumes inv: "vm_inv m v k" and v: "valid m i j" "valid m i' j'" and eq: "var_addr m i j = var_addr m i' j'"
  shows "i = i' \<and> j = j'"
proof -
  have "i = i'"
  proof (rule ccontr)
    assume ne: "i \<noteq> i'"
    have "in_rg (symrgtbl m ! i) (var_addr m i j)" "in_rg (symrgtbl m ! i') (var_addr m i j)"
      using v eq by (auto simp: in_rg_def valid_def var_addr_def)
    then have "2 \<le> cover (symrgtbl m) (var_addr m i j)"
      using cover_two [of i "symrgtbl m" i'] v ne by (simp add: valid_def)
    moreover have "area_ok m v" using inv by (simp add: vm_inv_def)
    ultimately show False using area_okD(8) [of m v "var_addr m i j"] by linarith
  qed
  then show ?thesis using eq by (simp add: var_addr_def)
qed

text \<open>The address that \<open>__read\<close> and \<open>__write\<close> compute, once it passed their tests.\<close>

lemma access_addr:
  assumes inv: "vm_inv m v k" and i: "i < 30" and a: "a < rg_end (symrgtbl m ! i)"
  shows "unat a < unat (vm_end v)" and "page_of (ucast a :: u32) = unat a div 256"
    and "off_of (ucast a :: u32) = unat a mod 256"
proof -
  have ok: "area_ok m v" using inv by (simp add: vm_inv_def)
  have "symrgtbl m ! i \<in> set (symrgtbl m)" using i area_okD(5) [OF ok] by simp
  then have "rg_ok (vm_end v) (symrgtbl m ! i)" using area_okD(7) [OF ok] by blast
  then show b: "unat a < unat (vm_end v)" using a by (simp add: rg_ok_def word_le_nat_alt word_less_nat_alt)
  then have b2: "unat a < 2 ^ 22" using area_okD(9) [OF ok] by simp
  have "unat (ucast a :: u32) = take_bit 32 (unat a)" by (simp add: unsigned_ucast_eq)
  also have "\<dots> = unat a" using b2 by (intro take_bit_nat_eq_self) simp
  finally have u: "unat (ucast a :: u32) = unat a" .
  show "page_of (ucast a :: u32) = unat a div 256" using b2 by (simp add: page_of_def u)
  show "off_of (ucast a :: u32) = unat a mod 256" by (simp add: off_of_def u)
qed

lemma valid_addr:
  assumes inv: "vm_inv m v k" and v: "valid m i (unat off)"
  shows "unat (rg_start (symrgtbl m ! i) + off) = var_addr m i (unat off)"
    and "rg_start (symrgtbl m ! i) \<noteq> rg_end (symrgtbl m ! i)"
    and "rg_start (symrgtbl m ! i) + off < rg_end (symrgtbl m ! i)"
proof -
  show a: "unat (rg_start (symrgtbl m ! i) + off) = var_addr m i (unat off)"
    using valid_bound(2) [OF inv v] unfolding var_addr_def by (intro unat_add_no_wrap) simp
  show "rg_start (symrgtbl m ! i) \<noteq> rg_end (symrgtbl m ! i)" using v by (auto simp: valid_def)
  show "rg_start (symrgtbl m ! i) + off < rg_end (symrgtbl m ! i)"
    using v a by (simp add: valid_def var_addr_def word_less_nat_alt)
qed

lemma rgid_sint: "i < 30 \<Longrightarrow> sint (word_of_nat i :: u32) = int i"
  by (subst sint_u32) (simp_all add: unat_of_nat del: of_nat_unat)

section \<open>One access\<close>

text \<open>An access below the bound of the area keeps the invariant of the address space.\<close>

lemma accessed_inv:
  assumes inv: "vm_inv m v k" and acc: "accessed w m k p j r k'" and p: "p * 256 < unat (vm_end v)"
  shows "\<exists>m'. keeps m k m' k' \<and> vm_inv m' v k' \<and> (r \<noteq> None \<longrightarrow> (\<exists>f. pview m' p = Present f))"
proof -
  obtain m' where m': "keeps m k m' k'" "r \<noteq> None \<longrightarrow> (\<exists>f. pview m' p = Present f)"
    using acc by (auto simp: accessed_def)
  have pinv: "pg_inv m k" "pg_inv m' k'" using inv m' by (simp_all add: vm_inv_def keeps_def)
  note mk = pg_invD(1) [OF pinv(1)] pg_invD(1) [OF pinv(2)]
  have "q * 256 < unat (vm_end v)" if q: "pview m' q \<noteq> Unmapped" for q
  proof (cases "q = p")
    case False
    then have "content k' q 0 = content k q 0" using acc by (auto simp: accessed_def split: option.splits)
    then have "pview m q \<noteq> Unmapped" using q mapped_iff [OF mk(1), of q] mapped_iff [OF mk(2), of q] by simp
    then show ?thesis using inv by (simp add: vm_inv_def)
  qed (use p in simp)
  moreover have "area_ok m' v"
    using inv m' by (simp add: vm_inv_def keeps_def same_areas_def area_ok_def)
  ultimately show ?thesis using m' pinv(2) by (auto simp: vm_inv_def)
qed

text \<open>
  What \<open>__read\<close> and \<open>__write\<close> do for every region and offset: the access, at the address the
  code computes, or a failure that leaves everything as it was.
\<close>

lemma read_region_spec:
  assumes inv: "vm_inv m v k" and i: "i < 30"
    and r: "r = symrgtbl m ! i" and a: "a = rg_start (symrgtbl m ! i) + off"
  shows "if rg_start r \<noteq> rg_end r \<and> a < rg_end r
    then returns (read_region k 0 (int i) off) (\<lambda>(d, k'). accessed False m k (unat a div 256) (unat a mod 256) d k')
    else read_region k 0 (int i) off = Inr (None, k)"
proof -
  have pinv: "pg_inv m k" and ok: "area_ok m v" using inv by (simp_all add: vm_inv_def)
  note o = area_okD [OF ok] and mk = pg_invD(1) [OF pinv]
  have run: "read_region k 0 (int i) off = (if rg_start r = rg_end r \<or> a \<ge> rg_end r then Inr (None, k)
      else pg_getval k (sint (ucast a :: u32)))"
    using i mk o(1,2) by (simp add: read_region_def the_mm_def get_vma_0 get_symrg_byid_def
        PAGING_MAX_SYMTBL_SZ_def r a)
  show ?thesis
  proof (cases "rg_start r \<noteq> rg_end r \<and> a < rg_end r")
    case True
    note ad = access_addr(2,3) [OF inv i True [unfolded r, THEN conjunct2]]
    have "returns (pg_getval k (sint (ucast a :: u32)))
        (\<lambda>(d, k'). accessed False m k (unat a div 256) (unat a mod 256) d k')"
      using pg_getval_spec [OF pinv, of "ucast a"] ad by simp
    moreover have nb: "\<not> (rg_start r = rg_end r \<or> a \<ge> rg_end r)" using True by (simp add: not_le)
    have "read_region k 0 (int i) off = pg_getval k (sint (ucast a :: u32))" using run unfolding if_not_P [OF nb] .
    ultimately show ?thesis using True by simp
  next
    case False
    then show ?thesis using run by (auto simp: not_le)
  qed
qed

lemma write_region_spec:
  assumes inv: "vm_inv m v k" and i: "i < 30"
    and r: "r = symrgtbl m ! i" and a: "a = rg_start (symrgtbl m ! i) + off"
  shows "if rg_start r \<noteq> rg_end r \<and> a < rg_end r
    then returns (write_region k 0 (int i) off d) (\<lambda>(ret, k').
      accessed True m k (unat a div 256) (unat a mod 256) (if ret = 0 then Some d else None) k' \<and> ret \<in> {0, -1})
    else write_region k 0 (int i) off d = Inr (-1, k)"
proof -
  have pinv: "pg_inv m k" and ok: "area_ok m v" using inv by (simp_all add: vm_inv_def)
  note o = area_okD [OF ok] and mk = pg_invD(1) [OF pinv]
  have run: "write_region k 0 (int i) off d = (if rg_start r = rg_end r \<or> a \<ge> rg_end r then Inr (-1, k)
      else pg_setval k (sint (ucast a :: u32)) d)"
    using i mk o(1,2) by (simp add: write_region_def the_mm_def get_vma_0 get_symrg_byid_def
        PAGING_MAX_SYMTBL_SZ_def r a)
  show ?thesis
  proof (cases "rg_start r \<noteq> rg_end r \<and> a < rg_end r")
    case True
    note ad = access_addr(2,3) [OF inv i True [unfolded r, THEN conjunct2]]
    have "returns (pg_setval k (sint (ucast a :: u32)) d) (\<lambda>(ret, k').
        accessed True m k (unat a div 256) (unat a mod 256) (if ret = 0 then Some d else None) k' \<and> ret \<in> {0, -1})"
      using pg_setval_spec [OF pinv, of "ucast a" d] ad by simp
    moreover have nb: "\<not> (rg_start r = rg_end r \<or> a \<ge> rg_end r)" using True by (simp add: not_le)
    have "write_region k 0 (int i) off d = pg_setval k (sint (ucast a :: u32)) d" using run unfolding if_not_P [OF nb] .
    ultimately show ?thesis using True by simp
  next
    case False
    then show ?thesis using run by (auto simp: not_le)
  qed
qed

text \<open>How an access looks to the variables.\<close>

lemma accessed_vars:
  assumes inv: "vm_inv m v k" and val: "valid m i j"
    and acc: "accessed w m k (var_addr m i j div 256) (var_addr m i j mod 256) r k'"
  obtains m' where "keeps m k m' k'" "vm_inv m' v k'"
    and "r \<noteq> None \<Longrightarrow> \<exists>f. pview m' (var_addr m i j div 256) = Present f"
    and "\<And>b. r = Some b \<Longrightarrow> var_byte m' k' i j = Some b"
    and "\<And>i' j'. valid m i' j' \<Longrightarrow> var_byte m k i' j' \<noteq> None \<Longrightarrow> \<not> (w \<and> i' = i \<and> j' = j) \<or> r = None \<Longrightarrow>
       var_byte m' k' i' j' = var_byte m k i' j'"
proof -
  let ?a = "var_addr m i j"
  have pb: "?a div 256 * 256 < unat (vm_end v)" using valid_bound(1) [OF inv val] by linarith
  obtain m' where m': "keeps m k m' k'" "vm_inv m' v k'"
      "r \<noteq> None \<longrightarrow> (\<exists>f. pview m' (?a div 256) = Present f)"
    using accessed_inv [OF inv acc pb] by (elim exE conjE)
  have sym: "var_addr m' = var_addr m"
    using m'(1) by (simp add: keeps_def same_areas_def var_addr_def fun_eq_iff)
  have mk: "mm k = Some m" using inv pg_invD(1) by (simp add: vm_inv_def)
  show thesis
  proof (rule that [OF m'(1,2)])
    show "\<exists>f. pview m' (?a div 256) = Present f" if "r \<noteq> None" using m'(3) that by blast
    show "var_byte m' k' i j = Some b" if "r = Some b" for b
      using acc that by (simp add: var_byte_def sym accessed_def)
    fix i' j' assume v': "valid m i' j'" and mapped: "var_byte m k i' j' \<noteq> None"
      and ne: "\<not> (w \<and> i' = i \<and> j' = j) \<or> r = None"
    let ?b = "var_addr m i' j'"
    have un: "pview m (?b div 256) \<noteq> Unmapped"
      using mapped mk by (auto simp: var_byte_def content_def content_of_def)
    have "content k' (?b div 256) (?b mod 256) = content k (?b div 256) (?b mod 256)"
    proof (cases r)
      case None
      then show ?thesis using acc by (simp add: accessed_def)
    next
      case (Some d)
      have "\<not> (w \<and> ?b div 256 = ?a div 256 \<and> ?b mod 256 = ?a mod 256)"
      proof
        assume e: "w \<and> ?b div 256 = ?a div 256 \<and> ?b mod 256 = ?a mod 256"
        then have "?b = ?a" by (metis div_mult_mod_eq)
        then have "i' = i \<and> j' = j" by (rule var_addr_inj [OF inv v' val])
        then show False using ne Some e by simp
      qed
      moreover have "?b div 256 \<noteq> ?a div 256 \<or> pview m (?a div 256) \<noteq> Unmapped" using un by metis
      moreover have "\<forall>q l. q \<noteq> ?a div 256 \<or> pview m (?a div 256) \<noteq> Unmapped \<longrightarrow>
          \<not> (w \<and> q = ?a div 256 \<and> l = ?a mod 256) \<longrightarrow> content k' q l = content k q l"
        using acc unfolding accessed_def Some option.case by (elim conjE)
      ultimately show ?thesis by blast
    qed
    then show "var_byte m' k' i' j' = var_byte m k i' j'" by (simp add: var_byte_def sym)
  qed
qed

section \<open>The library calls\<close>

lemma valid_30: "vm_inv m v k \<Longrightarrow> valid m i j \<Longrightarrow> i < 30"
  using area_okD(5) by (auto simp: vm_inv_def valid_def)

lemma libwrite_spec:
  assumes inv: "vm_inv m v k" and val: "valid m i (unat off)"
  shows "returns (libwrite k d (word_of_nat i) off) (\<lambda>(r, k'). r \<in> {0, -1} \<and>
     accessed True m k (var_addr m i (unat off) div 256) (var_addr m i (unat off) mod 256)
       (if r = 0 then Some d else None) k')"
proof -
  note i = valid_30 [OF inv val] and a = valid_addr [OF inv val]
  have "returns (write_region k 0 (int i) off d) (\<lambda>(ret, k').
      accessed True m k (var_addr m i (unat off) div 256) (var_addr m i (unat off) mod 256)
       (if ret = 0 then Some d else None) k' \<and> ret \<in> {0, -1})"
    using write_region_spec [OF inv i refl refl, of off d] a by simp
  then show ?thesis by (auto simp: libwrite_def rgid_sint [OF i] elim!: returnsE)
qed

lemma libread_spec:
  assumes inv: "vm_inv m v k" and val: "valid m i (unat off)"
  shows "returns (libread k (word_of_nat i) off) (\<lambda>(r, k'). \<exists>d. r = map_option scast d \<and>
     accessed False m k (var_addr m i (unat off) div 256) (var_addr m i (unat off) mod 256) d k')"
proof -
  note i = valid_30 [OF inv val] and a = valid_addr [OF inv val]
  have "returns (read_region k 0 (int i) off) (\<lambda>(d, k').
      accessed False m k (var_addr m i (unat off) div 256) (var_addr m i (unat off) mod 256) d k')"
    using read_region_spec [OF inv i refl refl, of off] a by simp
  then show ?thesis by (auto simp: libread_def rgid_sint [OF i] elim!: returnsE)
qed

text \<open>The variables after an allocation and after a release.\<close>

lemma allocated_vars:
  assumes al: "allocated m v k i sz a m' v' k'" and i: "i < 30" and inv: "vm_inv m v k"
  shows "valid m' i j \<longleftrightarrow> j < unat sz"
    and "i' \<noteq> i \<Longrightarrow> valid m' i' j \<longleftrightarrow> valid m i' j"
    and "i' \<noteq> i \<Longrightarrow> var_byte m k i' j \<noteq> None \<Longrightarrow> var_byte m' k' i' j = var_byte m k i' j"
proof -
  have len: "length (symrgtbl m) = 30" using inv area_okD(5) [of m v] by (simp add: vm_inv_def)
  have sym: "symrgtbl m' = (symrgtbl m)[i := (symrgtbl m ! i)\<lparr>rg_start := a, rg_end := a + sz\<rparr>]"
      "unat (a + sz) = unat a + unat sz"
    using al by (simp_all add: allocated_def)
  then show "valid m' i j \<longleftrightarrow> j < unat sz" using i len by (simp add: valid_def)
  assume ne: "i' \<noteq> i"
  then show "valid m' i' j \<longleftrightarrow> valid m i' j" using sym(1) by (simp add: valid_def)
  have ad: "var_addr m' i' j = var_addr m i' j" using sym(1) ne by (simp add: var_addr_def)
  assume "var_byte m k i' j \<noteq> None"
  moreover have "mm k = Some m" using inv pg_invD(1) by (simp add: vm_inv_def)
  ultimately have "pview m (var_addr m i' j div 256) \<noteq> Unmapped"
    by (auto simp: var_byte_def content_def content_of_def)
  then show "var_byte m' k' i' j = var_byte m k i' j"
    using al by (simp add: allocated_def pg_keeps_def var_byte_def ad)
qed

lemma liballoc_spec:
  assumes inv: "vm_inv m v k" and i: "i < 30" and sz: "sz \<noteq> 0" and rm: "room v sz"
  shows "returns (liballoc k sz (word_of_nat i)) (\<lambda>(r, k'). r = 0 \<and> (\<exists>a m' v'. allocated m v k i sz a m' v' k'))"
proof -
  obtain a k' m' v' where "alloc_region k 0 (int i) sz = Inr (Some a, k')" "allocated m v k i sz a m' v' k'"
    using alloc_region_spec [OF inv i sz rm] by (auto elim!: returnsE)
  moreover from this(2) have "\<exists>a m' v'. allocated m v k i sz a m' v' k'" by (intro exI)
  ultimately show ?thesis by (simp add: liballoc_def rgid_sint [OF i])
qed

lemma libfree_spec:
  assumes inv: "vm_inv m v k" and i: "i < 30"
  shows "returns (libfree k (word_of_nat i)) (\<lambda>(r, k').
     if rg_start (symrgtbl m ! i) = 0 \<and> rg_end (symrgtbl m ! i) = 0 then r = -1 \<and> k' = k
     else r = 0 \<and> (\<exists>m' v'. freed m v k i m' v' k'))"
  using free_region_spec [OF inv i]
  by (auto simp: libfree_def rgid_sint [OF i] elim!: returnsE)

lemma freed_vars:
  assumes fr: "freed m v k i m' v' k'" and i: "i < 30" and inv: "vm_inv m v k"
  shows "\<not> valid m' i j"
    and "i' \<noteq> i \<Longrightarrow> valid m' i' j \<longleftrightarrow> valid m i' j"
    and "i' \<noteq> i \<Longrightarrow> var_byte m' k' i' j = var_byte m k i' j"
  using fr i inv area_okD(5) [of m v]
  by (auto simp: freed_def valid_def var_byte_def var_addr_def vm_inv_def)

section \<open>A new process\<close>

lemma pview_init [simp]: "pview init_mm p = Unmapped"
  by (simp add: pview_def init_mm_def PAGING_MAX_PGN_eq)

lemma cover_zero: "\<forall>r \<in> set rs. rg_end r \<le> rg_start r \<Longrightarrow> cover rs n = 0"
  by (induction rs) (auto simp: in_rg_def word_le_nat_alt)

definition init_vma :: vm_area_struct where "init_vma = hd (mmap init_mm)"

lemma vm_inv_init:
  assumes "mem_wf (mram k)" "mem_wf (active_mswp k)" "nframes (mram k) \<le> 8192" "nframes (active_mswp k) \<le> 2097152"
    and "mm k = Some init_mm"
  shows "vm_inv init_mm init_vma k"
proof -
  have "pg_inv init_mm k"
    using assms by (intro pg_invI) (simp_all add: slots_ok_def fifo_ok_def, simp_all add: init_mm_def PAGING_MAX_PGN_eq)
  moreover have "area_ok init_mm init_vma"
  proof (rule area_okI)
    show "cover (vm_freerg_list init_vma) n + cover (symrgtbl init_mm) n \<le> 1" for n
      using cover_zero [of "vm_freerg_list init_vma @ symrgtbl init_mm" n]
      by (auto simp: init_vma_def init_mm_def init_vm_rg_def enlist_vm_rg_node_def PAGING_MAX_SYMTBL_SZ_def)
  qed (auto simp: init_vma_def init_mm_def init_vm_rg_def enlist_vm_rg_node_def rg_ok_def PAGING_MAX_SYMTBL_SZ_def)
  ultimately show ?thesis by (simp add: vm_inv_def)
qed

text \<open>A process with 8 frames of RAM, 16 frames of swap and two variables of 300 bytes.\<close>

definition new_krnl :: krnl_t where
  "new_krnl = \<lparr>mm = Some init_mm, mram = init_memphy uninit_memphy 2048 True,
     active_mswp = init_memphy uninit_memphy 4096 True\<rparr>"

lemma vm_inv_new: "vm_inv init_mm init_vma new_krnl"
  by (rule vm_inv_init)
    (use init_memphy_ok [of 2048 uninit_memphy True] init_memphy_ok [of 4096 uninit_memphy True]
      in \<open>simp_all add: new_krnl_def nframes_def\<close>)

lemma two_variables:
  obtains m v k where "vm_inv m v k" and "room v 300" and "\<And>j. valid m 1 j \<longleftrightarrow> j < 300" and "\<And>j. valid m 2 j \<longleftrightarrow> j < 300"
proof -
  have r0: "room init_vma 300" by (simp add: room_def init_vma_def init_mm_def)
  obtain a1 m1 v1 k1 where 1: "allocated init_mm init_vma new_krnl 1 300 a1 m1 v1 k1"
    using alloc_region_spec [OF vm_inv_new _ _ r0, of 1] by (auto elim!: returnsE)
  have b1: "unat (vm_end v1) \<le> 4395" "vm_inv m1 v1 k1"
    using 1 by (simp_all add: allocated_def init_vma_def init_mm_def)
  then have r1: "room v1 300" by (simp add: room_def)
  obtain a2 m2 v2 k2 where 2: "allocated m1 v1 k1 2 300 a2 m2 v2 k2"
    using alloc_region_spec [OF b1(2) _ _ r1, of 2] by (auto elim!: returnsE)
  have b2: "unat (vm_end v2) \<le> 8790" "vm_inv m2 v2 k2" using 2 b1(1) by (simp_all add: allocated_def)
  show thesis
  proof (rule that [OF b2(2)])
    show "room v2 300" using b2(1) by (simp add: room_def)
    show "valid m2 1 j \<longleftrightarrow> j < 300" for j
      using allocated_vars(2) [OF 2 _ b1(2), of 1 j] allocated_vars(1) [OF 1 _ vm_inv_new, of j] by simp
    show "valid m2 2 j \<longleftrightarrow> j < 300" for j
      using allocated_vars(1) [OF 2 _ b1(2), of j] by simp
  qed
qed

end
