(* ===== verification/Libmem_Props.thy ===== *)
theory Libmem_Props
  imports Libmem
begin

text \<open>
  What \<^verbatim>\<open>src/libmem.c\<close> promises to a process: allocated variables are disjoint, keep their
  bytes across every other call and across swapping, and give back what was written; and where it
  does not keep its promises.
\<close>

section \<open>Allocation and release\<close>

text \<open>
  C3. \<open>liballoc\<close> of a positive size, while the area stays below \<open>2 ^ 22\<close>, succeeds without a
  fault even when no frame is free. Afterwards variable \<open>i\<close> has exactly the offsets below the
  size, no address of it belongs to another variable, every other variable has the offsets it had
  and the bytes it had, and the address space satisfies its invariant again.
\<close>

theorem liballoc_correct:
  assumes "vm_inv m v k" and "i < 30" and "sz \<noteq> 0" and "room v sz"
  shows "returns (liballoc k sz (word_of_nat i)) (\<lambda>(r, k'). r = 0 \<and> (\<exists>m' v'. vm_inv m' v' k'
     \<and> (\<forall>j. valid m' i j \<longleftrightarrow> j < unat sz)
     \<and> (\<forall>i' j'. i' \<noteq> i \<longrightarrow> valid m' i' j' = valid m i' j'
          \<and> (var_byte m k i' j' \<noteq> None \<longrightarrow> var_byte m' k' i' j' = var_byte m k i' j'))
     \<and> (\<forall>j i' j'. valid m' i j \<longrightarrow> valid m' i' j' \<longrightarrow> i' \<noteq> i \<longrightarrow> var_addr m' i j \<noteq> var_addr m' i' j')))"
proof -
  obtain a k' m' v' where r: "liballoc k sz (word_of_nat i) = Inr (0, k')" "allocated m v k i sz a m' v' k'"
    using liballoc_spec [OF assms] by (auto elim!: returnsE)
  have inv': "vm_inv m' v' k'" using r(2) by (simp add: allocated_def)
  have "var_addr m' i j \<noteq> var_addr m' i' j'" if "valid m' i j" "valid m' i' j'" "i' \<noteq> i" for j i' j'
    using var_addr_inj [OF inv' that(1,2)] that(3) by blast
  then show ?thesis
    unfolding r(1) returns_simps prod.case
    using inv' allocated_vars [OF r(2) assms(2,1)] by (intro conjI refl exI [of _ m'] exI [of _ v']) blast+
qed

theorem liballoc_correct_witness:
  "returns (liballoc new_krnl 300 1) (\<lambda>(r, k'). r = 0 \<and> (\<exists>m' v'. vm_inv m' v' k' \<and> valid m' 1 299 \<and> \<not> valid m' 1 300))"
proof -
  have "room init_vma 300" by (simp add: room_def init_vma_def init_mm_def)
  then obtain k' m' v' where r: "liballoc new_krnl 300 1 = Inr (0, k')" "vm_inv m' v' k'"
      "\<And>j. valid m' 1 j \<longleftrightarrow> j < 300"
    using liballoc_correct [of init_mm init_vma new_krnl 1 300] vm_inv_new
    by (auto elim!: returnsE)
  show ?thesis unfolding r(1) returns_simps prod.case
    using r(2,3) by (intro conjI refl exI [of _ m'] exI [of _ v']) simp_all
qed

text \<open>
  C29. \<open>libfree\<close> of a live variable ends it, keeps the offsets and bytes of all others and the
  invariant; on an empty slot it returns -1 and changes nothing. It never faults.
\<close>

theorem libfree_correct:
  assumes "vm_inv m v k" and "i < 30"
  shows "returns (libfree k (word_of_nat i)) (\<lambda>(r, k').
     if rg_start (symrgtbl m ! i) = 0 \<and> rg_end (symrgtbl m ! i) = 0 then r = -1 \<and> k' = k
     else r = 0 \<and> (\<exists>m' v'. vm_inv m' v' k' \<and> vm_end v' = vm_end v \<and> (\<forall>j. \<not> valid m' i j)
       \<and> (\<forall>i' j'. i' \<noteq> i \<longrightarrow> valid m' i' j' = valid m i' j' \<and> var_byte m' k' i' j' = var_byte m k i' j')))"
proof (cases "rg_start (symrgtbl m ! i) = 0 \<and> rg_end (symrgtbl m ! i) = 0")
  case True
  then show ?thesis using libfree_spec [OF assms] by simp
next
  case False
  obtain k' m' v' where r: "libfree k (word_of_nat i) = Inr (0, k')" "freed m v k i m' v' k'"
    using libfree_spec [OF assms] unfolding if_not_P [OF False] by (auto elim!: returnsE)
  have "vm_inv m' v' k'" "vm_end v' = vm_end v" using r(2) by (simp_all add: freed_def)
  then show ?thesis
    unfolding r(1) returns_simps prod.case if_not_P [OF False]
    using freed_vars [OF r(2) assms(2,1)] by (intro conjI refl exI [of _ m'] exI [of _ v']) blast+
qed

theorem libfree_correct_witness:
  "returns (libfree new_krnl 4) (\<lambda>(r, k'). r = -1 \<and> k' = new_krnl)"
  using libfree_correct [OF vm_inv_new, of 4] by (simp add: init_mm_def PAGING_MAX_SYMTBL_SZ_def)

lemma allocated_cover:
  assumes al: "allocated m v k i sz a m' v' k'" and inv: "vm_inv m v k"
  shows "mm k' = Some m'" and "mmap m' = [v']"
    and "cover (vm_freerg_list v' @ symrgtbl m') n + of_bool (in_rg (symrgtbl m ! i) n)
      = (if n < unat (vm_end v) then cover (vm_freerg_list v @ symrgtbl m) n
         else of_bool (n < unat (vm_end v')))"
proof -
  have ok: "area_ok m v" using inv by (simp add: vm_inv_def)
  have zero: "cover (vm_freerg_list v @ symrgtbl m) n = 0" if "\<not> n < unat (vm_end v)"
    using cover_0 [OF area_okD(6) [OF ok], of n] cover_0 [OF area_okD(7) [OF ok], of n] that by simp
  have "cover (vm_freerg_list v' @ symrgtbl m') n + of_bool (in_rg (symrgtbl m ! i) n)
      = cover (vm_freerg_list v @ symrgtbl m) n + of_bool (unat (vm_end v) \<le> n \<and> n < unat (vm_end v'))"
    using al unfolding allocated_def by (elim conjE allE)
  then show "cover (vm_freerg_list v' @ symrgtbl m') n + of_bool (in_rg (symrgtbl m ! i) n)
      = (if n < unat (vm_end v) then cover (vm_freerg_list v @ symrgtbl m) n
         else of_bool (n < unat (vm_end v')))"
    using zero by (cases "n < unat (vm_end v)") (simp_all del: cover_append)
  show "mm k' = Some m'" "mmap m' = [v']"
    using al pg_invD(1) [of m' k'] area_okD(1) [of m' v'] by (simp_all add: allocated_def vm_inv_def)
qed

lemma freed_cover:
  assumes fr: "freed m v k i m' v' k'" and i: "i < 30" and inv: "vm_inv m v k"
  shows "mm k' = Some m'" and "mmap m' = [v']"
    and "cover (vm_freerg_list v' @ symrgtbl m') n = cover (vm_freerg_list v @ symrgtbl m) n"
proof -
  have len: "length (symrgtbl m) = 30" using inv area_okD(5) [of m v] by (simp add: vm_inv_def)
  have "cover (symrgtbl m') n + of_bool (in_rg (symrgtbl m ! i) n) = cover (symrgtbl m) n"
    using cover_update [of i "symrgtbl m" "(symrgtbl m ! i)\<lparr>rg_start := 0, rg_end := 0\<rparr>" n] fr i len
    by (simp add: freed_def in_rg_def)
  moreover have "cover (vm_freerg_list v') n = cover (vm_freerg_list v) n + of_bool (in_rg (symrgtbl m ! i) n)"
    using fr unfolding freed_def by (elim conjE allE)
  ultimately show "cover (vm_freerg_list v' @ symrgtbl m') n = cover (vm_freerg_list v @ symrgtbl m) n"
    unfolding cover_append by (metis add.assoc add.commute)
  show "mm k' = Some m'" "mmap m' = [v']"
    using fr pg_invD(1) [of m' k'] area_okD(1) [of m' v'] by (simp_all add: freed_def vm_inv_def)
qed

text \<open>
  C28. Address space is conserved: after \<open>liballoc\<close> into an empty slot every address below the
  bound is in as many regions as before, and those the area grew by are in exactly one; after
  \<open>libfree\<close> nothing is lost. An allocation into a slot in use loses exactly the region the slot
  held: its addresses are in one region less, in none when they were in one.
\<close>

theorem address_space_conserved:
  assumes "vm_inv m v k" and "i < 30" and "sz \<noteq> 0" and "room v sz"
  shows "returns (liballoc k sz (word_of_nat i)) (\<lambda>(r, k'). \<exists>m' v'. mm k' = Some m' \<and> mmap m' = [v']
     \<and> (\<forall>n. cover (vm_freerg_list v' @ symrgtbl m') n + of_bool (in_rg (symrgtbl m ! i) n)
          = (if n < unat (vm_end v) then cover (vm_freerg_list v @ symrgtbl m) n
             else of_bool (n < unat (vm_end v')))))
   \<and> returns (libfree k (word_of_nat i)) (\<lambda>(r, k'). \<exists>m' v'. mm k' = Some m' \<and> mmap m' = [v']
     \<and> (\<forall>n. cover (vm_freerg_list v' @ symrgtbl m') n = cover (vm_freerg_list v @ symrgtbl m) n))"
proof
  obtain a k' m' v' where r: "liballoc k sz (word_of_nat i) = Inr (0, k')" "allocated m v k i sz a m' v' k'"
    using liballoc_spec [OF assms] by (auto elim!: returnsE)
  show "returns (liballoc k sz (word_of_nat i)) (\<lambda>(r, k'). \<exists>m' v'. mm k' = Some m' \<and> mmap m' = [v']
     \<and> (\<forall>n. cover (vm_freerg_list v' @ symrgtbl m') n + of_bool (in_rg (symrgtbl m ! i) n)
          = (if n < unat (vm_end v) then cover (vm_freerg_list v @ symrgtbl m) n
             else of_bool (n < unat (vm_end v')))))"
    unfolding r(1) returns_simps prod.case
    by (intro exI [of _ m'] exI [of _ v'] conjI allI allocated_cover [OF r(2) assms(1)])
next
  show "returns (libfree k (word_of_nat i)) (\<lambda>(r, k'). \<exists>m' v'. mm k' = Some m' \<and> mmap m' = [v']
     \<and> (\<forall>n. cover (vm_freerg_list v' @ symrgtbl m') n = cover (vm_freerg_list v @ symrgtbl m) n))"
  proof (cases "rg_start (symrgtbl m ! i) = 0 \<and> rg_end (symrgtbl m ! i) = 0")
    case True
    moreover have "mm k = Some m" "mmap m = [v]"
      using assms(1) pg_invD(1) [of m k] area_okD(1) [of m v] by (simp_all add: vm_inv_def)
    ultimately show ?thesis using libfree_spec [OF assms(1,2)] by (auto elim!: returnsE)
  next
    case False
    obtain k' m' v' where r: "libfree k (word_of_nat i) = Inr (0, k')" "freed m v k i m' v' k'"
      using libfree_spec [OF assms(1,2)] unfolding if_not_P [OF False] by (auto elim!: returnsE)
    then show ?thesis unfolding r(1) returns_simps prod.case
      by (intro exI [of _ m'] exI [of _ v'] conjI allI freed_cover [OF r(2) assms(2,1)])
  qed
qed

theorem address_space_conserved_witness:
  "returns (liballoc new_krnl 300 1) (\<lambda>(r, k'). \<exists>m' v'. mm k' = Some m' \<and> mmap m' = [v']
     \<and> (\<forall>n < unat (vm_end v'). cover (vm_freerg_list v' @ symrgtbl m') n = 1))"
proof -
  have "room init_vma 300" by (simp add: room_def init_vma_def init_mm_def)
  moreover have "\<not> in_rg (symrgtbl init_mm ! 1) n" "\<not> n < unat (vm_end init_vma)" for n
    by (simp_all add: in_rg_def init_vma_def init_mm_def PAGING_MAX_SYMTBL_SZ_def)
  ultimately show ?thesis
    using address_space_conserved [of init_mm init_vma new_krnl 1 300] vm_inv_new
    by (auto elim!: returnsE simp del: cover_append)
qed

section \<open>Reading and writing\<close>

text \<open>
  C1. \<open>libwrite\<close> inside a variable has no fault. It fails (-1) exactly when the page is not in
  RAM and neither a free frame nor a victim with a free swap frame is there, and then no byte of
  any variable changes. Otherwise it returns 0, the byte of the variable is the one written, and
  every other byte of every variable that has been touched before is as it was, wherever paging
  moved it.
\<close>

theorem libwrite_correct:
  assumes "vm_inv m v k" and "valid m i (unat off)"
  shows "returns (libwrite k d (word_of_nat i) off) (\<lambda>(r, k'). \<exists>m'. vm_inv m' v k' \<and> symrgtbl m' = symrgtbl m
     \<and> r = (if out_of_frames m k (var_addr m i (unat off) div 256) then -1 else 0)
     \<and> (r = 0 \<longrightarrow> var_byte m' k' i (unat off) = Some d)
     \<and> (\<forall>i' j'. valid m i' j' \<longrightarrow> var_byte m k i' j' \<noteq> None \<longrightarrow> r = -1 \<or> (i', j') \<noteq> (i, unat off) \<longrightarrow>
          var_byte m' k' i' j' = var_byte m k i' j'))"
proof -
  obtain r k' where r: "libwrite k d (word_of_nat i) off = Inr (r, k')" "r \<in> {0, -1}"
      "accessed True m k (var_addr m i (unat off) div 256) (var_addr m i (unat off) mod 256)
        (if r = 0 then Some d else None) k'"
    using libwrite_spec [OF assms, of d] by (auto elim!: returnsE)
  obtain m' where m': "keeps m k m' k'" "vm_inv m' v k'"
      "r = 0 \<Longrightarrow> var_byte m' k' i (unat off) = Some d"
      "\<And>i' j'. valid m i' j' \<Longrightarrow> var_byte m k i' j' \<noteq> None \<Longrightarrow> \<not> (i' = i \<and> j' = unat off) \<or> r \<noteq> 0 \<Longrightarrow>
         var_byte m' k' i' j' = var_byte m k i' j'"
    by (rule accessed_vars [OF assms r(3)]) auto
  have "r = (if out_of_frames m k (var_addr m i (unat off) div 256) then -1 else 0)"
    using r(2,3) by (auto simp: accessed_def split: if_splits)
  moreover have "symrgtbl m' = symrgtbl m" using m'(1) by (simp add: keeps_def same_areas_def)
  ultimately show ?thesis unfolding r(1) returns_simps prod.case
    using m'(2-4) by (intro exI [of _ m'] conjI allI impI) auto
qed

theorem libwrite_correct_witness:
  "\<exists>m v k. returns (libwrite k 7 1 5) (\<lambda>(r, k'). \<exists>m'. vm_inv m' v k' \<and> (r = 0 \<longrightarrow> var_byte m' k' 1 5 = Some 7))"
proof -
  obtain m v k where s: "vm_inv m v k" "\<And>j. valid m 1 j \<longleftrightarrow> j < 300" by (rule two_variables) blast
  then have "valid m 1 (unat (5 :: addr))" by simp
  then have "returns (libwrite k 7 1 5) (\<lambda>(r, k'). \<exists>m'. vm_inv m' v k' \<and> (r = 0 \<longrightarrow> var_byte m' k' 1 5 = Some 7))"
    using libwrite_correct [OF s(1), of 1 5 7] by (auto elim!: returnsE)
  then show ?thesis by blast
qed

text \<open>
  C26. \<open>libread\<close> inside a variable has no fault; it fails exactly as a write does. Otherwise it
  gives the byte of the variable, sign-extended, and no byte of a variable that has been touched
  before changes, although the read may swap pages in and out.
\<close>

theorem libread_correct:
  assumes "vm_inv m v k" and "valid m i (unat off)"
  shows "returns (libread k (word_of_nat i) off) (\<lambda>(r, k'). \<exists>m'. vm_inv m' v k' \<and> symrgtbl m' = symrgtbl m
     \<and> (r = None \<longleftrightarrow> out_of_frames m k (var_addr m i (unat off) div 256))
     \<and> (\<forall>x. r = Some x \<longrightarrow> (\<exists>b. x = scast b \<and> var_byte m' k' i (unat off) = Some b))
     \<and> (\<forall>i' j'. valid m i' j' \<longrightarrow> var_byte m k i' j' \<noteq> None \<longrightarrow> var_byte m' k' i' j' = var_byte m k i' j'))"
proof -
  obtain r d k' where r: "libread k (word_of_nat i) off = Inr (r, k')" "r = map_option scast d"
      "accessed False m k (var_addr m i (unat off) div 256) (var_addr m i (unat off) mod 256) d k'"
    using libread_spec [OF assms] by (auto elim!: returnsE)
  obtain m' where m': "keeps m k m' k'" "vm_inv m' v k'"
      "\<And>b. d = Some b \<Longrightarrow> var_byte m' k' i (unat off) = Some b"
      "\<And>i' j'. valid m i' j' \<Longrightarrow> var_byte m k i' j' \<noteq> None \<Longrightarrow> var_byte m' k' i' j' = var_byte m k i' j'"
    by (rule accessed_vars [OF assms r(3)]) auto
  have "r = None \<longleftrightarrow> out_of_frames m k (var_addr m i (unat off) div 256)"
    using r(2,3) by (auto simp: accessed_def)
  moreover have "symrgtbl m' = symrgtbl m" using m'(1) by (simp add: keeps_def same_areas_def)
  ultimately show ?thesis unfolding r(1) returns_simps prod.case
    using m'(2-4) r(2) by (intro exI [of _ m'] conjI allI impI) auto
qed

theorem libread_correct_witness:
  "\<exists>m v k. returns (libread k 2 7) (\<lambda>(r, k'). \<exists>m'. vm_inv m' v k'
     \<and> (\<forall>x. r = Some x \<longrightarrow> (\<exists>b. x = scast b \<and> var_byte m' k' 2 7 = Some b)))"
proof -
  obtain m v k where s: "vm_inv m v k" "\<And>j. valid m 2 j \<longleftrightarrow> j < 300" by (rule two_variables) blast
  then have "valid m 2 (unat (7 :: addr))" by simp
  then have l: "returns (libread k (word_of_nat 2) 7) (\<lambda>(r, k'). \<exists>m'. vm_inv m' v k'
     \<and> (\<forall>x. r = Some x \<longrightarrow> (\<exists>b. x = scast b \<and> var_byte m' k' 2 (unat (7 :: addr)) = Some b)))"
    by (rule returns_mono [OF libread_correct [OF s(1)]]) blast
  have "returns (libread k 2 7) (\<lambda>(r, k'). \<exists>m'. vm_inv m' v k'
     \<and> (\<forall>x. r = Some x \<longrightarrow> (\<exists>b. x = scast b \<and> var_byte m' k' 2 7 = Some b)))"
    using l by simp
  then show ?thesis by blast
qed

text \<open>
  C2. A read right after a successful write to the same place always succeeds and gives the byte
  written.
\<close>

theorem write_then_read:
  assumes "vm_inv m v k" and "valid m i (unat off)"
  shows "returns (libwrite k d (word_of_nat i) off) (\<lambda>(r, k').
     r = 0 \<longrightarrow> returns (libread k' (word_of_nat i) off) (\<lambda>(x, k''). x = Some (scast d)))"
proof -
  let ?p = "var_addr m i (unat off) div 256"
  obtain r k' where r: "libwrite k d (word_of_nat i) off = Inr (r, k')"
      "accessed True m k ?p (var_addr m i (unat off) mod 256) (if r = 0 then Some d else None) k'"
    using libwrite_spec [OF assms, of d] by (auto elim!: returnsE)
  have "returns (libread k' (word_of_nat i) off) (\<lambda>(x, k''). x = Some (scast d))" if "r = 0"
  proof -
    have acc: "accessed True m k ?p (var_addr m i (unat off) mod 256) (Some d) k'" using r(2) that by simp
    obtain m' where m': "keeps m k m' k'" "vm_inv m' v k'"
        "var_byte m' k' i (unat off) = Some d" "\<exists>f. pview m' ?p = Present f"
      by (rule accessed_vars [OF assms acc]) auto
    have sym: "symrgtbl m' = symrgtbl m" using m'(1) by (simp add: keeps_def same_areas_def)
    then have val: "valid m' i (unat off)" and va: "var_addr m' = var_addr m"
      using assms(2) by (simp_all add: valid_def var_addr_def fun_eq_iff)
    obtain x e k'' where x: "libread k' (word_of_nat i) off = Inr (x, k'')" "x = map_option scast e"
        "accessed False m' k' ?p (var_addr m i (unat off) mod 256) e k''"
      using libread_spec [OF m'(2) val] by (auto simp: va elim!: returnsE)
    have "\<not> out_of_frames m' k' ?p" "pview m' ?p \<noteq> Unmapped" using m'(4) by (auto simp: out_of_frames_def)
    then have "e \<noteq> None" "content k'' ?p (var_addr m i (unat off) mod 256) = content k' ?p (var_addr m i (unat off) mod 256)"
      using x(3) by (auto simp: accessed_def)
    then have "e = Some d" using x(3) m'(3) by (auto simp: accessed_def var_byte_def va)
    then show ?thesis using x(1,2) by simp
  qed
  then show ?thesis unfolding r(1) by simp
qed

theorem write_then_read_witness:
  "\<exists>k. returns (libwrite k (-3) 1 299) (\<lambda>(r, k'). r = 0 \<longrightarrow> returns (libread k' 1 299) (\<lambda>(x, k''). x = Some (-3)))"
proof -
  obtain m v k where s: "vm_inv m v k" "\<And>j. valid m 1 j \<longleftrightarrow> j < 300" by (rule two_variables) blast
  then have "valid m 1 (unat (299 :: addr))" by simp
  then have "returns (libwrite k (-3) 1 299) (\<lambda>(r, k'). r = 0 \<longrightarrow> returns (libread k' 1 299) (\<lambda>(x, k''). x = Some (-3)))"
    using write_then_read [OF s(1), of 1 299 "-3"] by simp
  then show ?thesis by blast
qed

text \<open>
  The check against the end of the region adds the offset without regard to overflow: the
  offset \<open>2 ^ 64 - c\<close> passes it for every \<open>c\<close> up to the start of the region, and a successful
  write changes the byte \<open>c\<close> places below the region, outside it.
\<close>

lemma offset_wraps:
  assumes "vm_inv m v k" and "valid m i 0" and "c \<noteq> 0" and "c \<le> rg_start (symrgtbl m ! i)"
  shows "returns (libwrite k d (word_of_nat i) (- c)) (\<lambda>(r, k').
     let b = unat (rg_start (symrgtbl m ! i)) - unat c in
     (r = 0 \<longrightarrow> content k' (b div 256) (b mod 256) = Some d) \<and> \<not> in_rg (symrgtbl m ! i) b
     \<and> r = (if out_of_frames m k (b div 256) then -1 else 0))"
proof -
  let ?s = "rg_start (symrgtbl m ! i)"
  have i: "i < 30" by (rule valid_30 [OF assms(1,2)])
  have c: "0 < unat c" "unat c \<le> unat ?s" using assms(3,4) by (simp_all add: unat_gt_0 word_le_nat_alt)
  have b: "unat (?s + - c) = unat ?s - unat c" using assms(4) by (simp add: unat_sub)
  have ok: "?s \<noteq> rg_end (symrgtbl m ! i)" "?s + - c < rg_end (symrgtbl m ! i)"
    using assms(2) b c unfolding word_less_nat_alt by (auto simp: valid_def)
  obtain r k' where r: "write_region k 0 (int i) (- c) d = Inr (r, k')" "r \<in> {0, -1}"
      "accessed True m k ((unat ?s - unat c) div 256) ((unat ?s - unat c) mod 256) (if r = 0 then Some d else None) k'"
    using write_region_spec [OF assms(1) i refl refl, of "- c" d] ok unfolding b by (auto elim!: returnsE)
  then have "libwrite k d (word_of_nat i) (- c) = Inr (r, k')"
    by (auto simp: libwrite_def rgid_sint [OF i])
  then show ?thesis using r(2,3) c by (auto simp: Let_def in_rg_def accessed_def)
qed

end
