(* ===== verification/Paging_Props.thy ===== *)
theory Paging_Props
  imports Libmem
begin

text \<open>
  What demand paging of \<^verbatim>\<open>src/libmem.c\<close>, the growth of an area of \<^verbatim>\<open>src/mm-vm.c\<close> and the
  release of frames promise, and the frames and pages they lose.
\<close>

section \<open>Demand paging\<close>

text \<open>
  C12. \<open>pg_getpage\<close> has no fault on any page. It returns -1 exactly when the page is not in RAM
  and neither a free frame nor a victim with a free swap frame is there. Otherwise the page is in
  RAM at the frame returned. In both cases every mapped page keeps its content, whether it was
  evicted, brought in or left alone, the regions are untouched, and every RAM frame that was free
  or held by the process still is.
\<close>

theorem demand_paging_correct:
  assumes "pg_inv m k" and "p < 16384"
  shows "returns (pg_getpage k (int p)) (\<lambda>(r, k'). \<exists>m'. pg_inv m' k' \<and> same_areas m m'
     \<and> (r = None \<longleftrightarrow> out_of_frames m k p)
     \<and> (\<forall>f. r = Some f \<longrightarrow> pview m' p = Present (nat f) \<and> nat f < nframes (mram k'))
     \<and> (\<forall>q. pview m q \<noteq> Unmapped \<or> q \<noteq> p \<longrightarrow> content k' q = content k q)
     \<and> owned Present (pview m') \<union> free_frames (mram k') = owned Present (pview m) \<union> free_frames (mram k))"
proof -
  obtain r k' m' where g: "pg_getpage k (int p) = Inr (r, k')" "page_got m k p r m' k'"
      "r = None \<longleftrightarrow> out_of_frames m k p"
    using pg_getpage_spec [OF assms] by (auto elim!: returnsE)
  have inv': "pg_inv m' k'" using g(2) by (simp add: page_got_def)
  have "pview m' p = Present (nat f) \<and> nat f < nframes (mram k')" if "r = Some f" for f
    using g(2) that slots_ok_bound [OF pg_invD(7) [OF inv'], of p "nat f"] by (simp add: page_got_def)
  then show ?thesis unfolding g(1) returns_simps prod.case
    using g(2,3) by (intro exI [of _ m']) (auto simp: page_got_def reach_def)
qed

lemma pg_inv_new: "pg_inv init_mm new_krnl"
  using vm_inv_new by (simp add: vm_inv_def)

lemma new_free:
  "map unat (free_fp_list (mram new_krnl)) = [0..<8]" "map unat (free_fp_list (active_mswp new_krnl)) = [0..<16]"
  using init_memphy_ok [of 2048 uninit_memphy True] init_memphy_ok [of 4096 uninit_memphy True]
  by (simp_all add: new_krnl_def)

lemma new_free_ne: "free_fp_list (mram new_krnl) \<noteq> []"
  using arg_cong [OF new_free(1), of length] by auto

theorem demand_paging_correct_witness:
  "returns (pg_getpage new_krnl 3) (\<lambda>(r, k'). \<exists>m' f. r = Some f \<and> pg_inv m' k' \<and> pview m' 3 = Present (nat f))"
proof -
  have "\<not> out_of_frames init_mm new_krnl 3" using new_free_ne by (simp add: out_of_frames_def)
  then obtain f k' m' where "pg_getpage new_krnl 3 = Inr (Some f, k')" "pg_inv m' k'" "pview m' 3 = Present (nat f)"
    using demand_paging_correct [OF pg_inv_new, of 3] by (auto elim!: returnsE)
  then show ?thesis by auto
qed

text \<open>
  The list \<open>fifo_pgn\<close> is a stack: a page is appended at the tail when it is brought in, and
  \<open>find_victim_page\<close> takes the tail, so the victim is the page that came in last.
\<close>

lemma victim_is_newest:
  assumes "length (fifo_pgn m) \<le> 10001"
  shows "find_victim_page (m\<lparr>fifo_pgn := enlist_pgn_node (fifo_pgn m) p\<rparr>) = (Some p, m)"
  using victim_loop_eq [of "fifo_pgn m @ [p]" 0 "[]"] assms
  by (simp add: find_victim_page_def enlist_pgn_node_def)

text \<open>
  The swap frame of a page that is brought back is lost: afterwards no page of the process
  holds it and it is not free.
\<close>

lemma swap_frame_leaks:
  assumes "pg_inv m k" and "pview m p = Swapped s"
  shows "returns (pg_getpage k (int p)) (\<lambda>(r, k'). \<exists>m'. mm k' = Some m' \<and>
     (r \<noteq> None \<longrightarrow> s \<notin> owned Swapped (pview m') \<and> s \<notin> free_frames (active_mswp k')))"
proof -
  note i = pg_invD [OF assms(1)]
  have p: "p < 16384" using pview_mapped [of m p] assms(2) i(2) by simp
  obtain r k' m' where g: "pg_getpage k (int p) = Inr (r, k')" "page_got m k p r m' k'"
    using pg_getpage_spec [OF assms(1) p] by (auto elim!: returnsE)
  have inv': "pg_inv m' k'" using g(2) by (simp add: page_got_def)
  have sb: "s \<notin> free_frames (active_mswp k)" using slots_ok_bound [OF i(8) assms(2)] by simp
  have use: "swap_use m k m' k'" using g(2) by (simp add: page_got_def)
  have "s \<notin> owned Swapped (pview m')" if r: "r = Some f" for f
  proof
    assume "s \<in> owned Swapped (pview m')"
    then obtain q where q: "pview m' q = Swapped s" by (auto simp: owned_def)
    then have "pview m q = Swapped s" using use sb by (auto simp: swap_use_def)
    then have "q = p" by (rule slots_ok_unique [OF i(8) _ assms(2)])
    then show False using g(2) r q by (simp add: page_got_def)
  qed
  moreover have "s \<notin> free_frames (active_mswp k')" using use sb by (auto simp: swap_use_def)
  moreover have "mm k' = Some m'" by (rule pg_invD(1) [OF inv'])
  ultimately show ?thesis unfolding g(1) by auto
qed


text \<open>The process of \<open>new_krnl\<close> with page 3 in the first swap frame, and with page 3 in RAM frame 0.\<close>

definition swapped_mm :: mm_struct where
  "swapped_mm = init_mm\<lparr>pgd := (pgd init_mm)[3 := swap_entry 0 0 0]\<rparr>"

definition swapped_krnl :: krnl_t where
  "swapped_krnl = new_krnl\<lparr>mm := Some swapped_mm,
     active_mswp := (active_mswp new_krnl)\<lparr>free_fp_list := tl (free_fp_list (active_mswp new_krnl))\<rparr>\<rparr>"

lemma init_pgd: "length (pgd init_mm) = 16384" "fifo_pgn init_mm = []"
  by (simp_all add: init_mm_def PAGING_MAX_PGN_eq)

lemma mem_wf_tl: "mem_wf d \<Longrightarrow> mem_wf (d\<lparr>free_fp_list := tl (free_fp_list d)\<rparr>)"
  by (cases "free_fp_list d") (auto simp: mem_wf_def nframes_def)

lemma pg_inv_swapped: "pg_inv swapped_mm swapped_krnl" "pview swapped_mm 3 = Swapped 0"
proof -
  have v: "pview swapped_mm = (\<lambda>_. Unmapped)(3 := Swapped 0)"
    using pview_set [of swapped_mm init_mm 3 "swap_entry 0 0 0"] init_pgd
    by (simp add: swapped_mm_def decode_swap_entry fun_eq_iff)
  then show "pview swapped_mm 3 = Swapped 0" by simp
  note i = pg_invD [OF pg_inv_new]
  let ?d = "active_mswp new_krnl"
  have l: "map unat (tl (free_fp_list ?d)) = [1..<16]"
    using new_free(2) by (simp add: map_tl upt_rec)
  then have "unat ` set (tl (free_fp_list ?d)) = {1..<16}"
    by (metis atLeastLessThan_upt image_set)
  moreover have "16 \<le> nframes ?d"
    using init_memphy_ok [of 4096 uninit_memphy True] by (simp add: new_krnl_def nframes_def)
  ultimately have "slots_ok Swapped (pview swapped_mm) (active_mswp swapped_krnl)"
    by (simp add: v swapped_krnl_def slots_ok_def nframes_def free_frames_def)
  moreover have "mem_wf (active_mswp swapped_krnl)"
    using mem_wf_tl [OF i(4)] by (simp add: swapped_krnl_def)
  moreover have "slots_ok Present (pview swapped_mm) (mram swapped_krnl)" by (simp add: v slots_ok_def)
  moreover have "fifo_ok swapped_mm" by (simp add: fifo_ok_def swapped_mm_def init_pgd)
  moreover have "length (pgd swapped_mm) = 16384" by (simp add: swapped_mm_def init_pgd)
  moreover have "mm swapped_krnl = Some swapped_mm" "mem_wf (mram swapped_krnl)"
    "nframes (mram swapped_krnl) \<le> 8192" "nframes (active_mswp swapped_krnl) \<le> 2097152"
    using i by (simp_all add: swapped_krnl_def nframes_def)
  ultimately show "pg_inv swapped_mm swapped_krnl" by (intro pg_invI)
qed

lemma take_frame_full:
  assumes inv: "pg_inv m k" and "free_fp_list (mram k) = []" and "fifo_pgn m \<noteq> []"
    and "free_fp_list (active_mswp k) = []"
  shows "take_frame k = Inr (None, k\<lparr>mm := Some (m\<lparr>fifo_pgn := butlast (fifo_pgn m)\<rparr>)\<rparr>)"
proof -
  note i = pg_invD [OF inv]
  have free: "MEMPHY_get_freefp (mram k) = Inr (None, mram k)"
    "MEMPHY_get_freefp (active_mswp k) = Inr (None, active_mswp k)"
    using assms(2,4) i(3,4) by (auto elim: MEMPHY_get_freefp_cases)
  from take_frame_swaps [OF inv free(1) assms(3)] show ?thesis by (simp add: free(2) Let_def)
qed

text \<open>
  When both devices are full, each failed request for a page takes one more page of the process
  off the list of pages that can be evicted, although the page keeps its frame.
\<close>

lemma swap_full_loses_victim:
  assumes "pg_inv m k" and "p < 16384" and "out_of_frames m k p" and "fifo_pgn m \<noteq> []"
  shows "pg_getpage k (int p) = Inr (None, k\<lparr>mm := Some (m\<lparr>fifo_pgn := butlast (fifo_pgn m)\<rparr>)\<rparr>)"
proof -
  note i = pg_invD [OF assms(1)]
  have p: "unat (word_of_int (int p) :: addr) = p" by (rule word_of_page [OF assms(2)])
  have "unat (word_of_int (int p) :: addr) < length (pgd m)" unfolding p using i(2) assms(2) by simp
  then obtain pte where "pte_get_entry k (word_of_int (int p)) = Inr pte"
      "PAGING_PAGE_PRESENT pte \<longleftrightarrow> pview m p = Present (unat (PAGING_FPN pte))"
    using pte_get_entry_view [OF i(1), of "word_of_int (int p)"] unfolding p by metis
  moreover have "\<not> PAGING_PAGE_PRESENT pte" using calculation(2) assms(3) by (simp add: out_of_frames_def)
  moreover have "take_frame k = Inr (None, k\<lparr>mm := Some (m\<lparr>fifo_pgn := butlast (fifo_pgn m)\<rparr>)\<rparr>)"
    by (rule take_frame_full [OF assms(1)]) (use assms(3,4) in \<open>simp_all add: out_of_frames_def\<close>)
  ultimately show ?thesis by (simp add: pg_getpage_def)
qed

text \<open>Page 3 in RAM frame 0, and no free frame on either device.\<close>

definition full_mm :: mm_struct where
  "full_mm = init_mm\<lparr>pgd := (pgd init_mm)[3 := fpn_entry 0 0], fifo_pgn := [3]\<rparr>"

definition full_krnl :: krnl_t where
  "full_krnl = new_krnl\<lparr>mm := Some full_mm, mram := (mram new_krnl)\<lparr>free_fp_list := []\<rparr>,
     active_mswp := (active_mswp new_krnl)\<lparr>free_fp_list := []\<rparr>\<rparr>"

lemma pg_inv_full: "pg_inv full_mm full_krnl" "out_of_frames full_mm full_krnl 5"
proof -
  have v: "pview full_mm = (\<lambda>_. Unmapped)(3 := Present 0)"
    using pview_set [of full_mm init_mm 3 "fpn_entry 0 0"] init_pgd
    by (simp add: full_mm_def decode_fpn_entry fun_eq_iff)
  note i = pg_invD [OF pg_inv_new]
  have "0 < nframes (mram new_krnl)"
    using init_memphy_ok [of 2048 uninit_memphy True] by (simp add: new_krnl_def nframes_def)
  then have s: "slots_ok Present (pview full_mm) (mram full_krnl)" "slots_ok Swapped (pview full_mm) (active_mswp full_krnl)"
    by (simp_all add: v full_krnl_def slots_ok_def nframes_def free_frames_def)
  have "fifo_ok full_mm" unfolding fifo_ok_def v by (simp add: full_mm_def)
  moreover have "length (pgd full_mm) = 16384" by (simp add: full_mm_def init_pgd)
  moreover have "mm full_krnl = Some full_mm" "mem_wf (mram full_krnl)" "mem_wf (active_mswp full_krnl)"
    "nframes (mram full_krnl) \<le> 8192" "nframes (active_mswp full_krnl) \<le> 2097152"
    using i by (simp_all add: full_krnl_def mem_wf_def nframes_def)
  ultimately show "pg_inv full_mm full_krnl" using s by (intro pg_invI)
  show "out_of_frames full_mm full_krnl 5" by (simp add: out_of_frames_def v full_krnl_def)
qed

section \<open>Addresses and areas\<close>

text \<open>
  The page number of an access is 14 bits wide: addresses \<open>2 ^ 22\<close> apart are the same byte, for
  reads and for writes.
\<close>

lemma addresses_alias:
  "pg_getval k (a + 2 ^ 22) = pg_getval k a \<and> pg_setval k (a + 2 ^ 22) d = pg_setval k a d"
proof -
  have split: "page_of w = unat w mod 2 ^ 22 div 256 \<and> off_of w = unat w mod 2 ^ 22 mod 256" for w :: u32
    using mod_mult2_eq [of "unat w" 256 16384] by (simp add: page_of_def off_of_def mod_mod_cancel)
  let ?w = "word_of_int a :: u32"
  have "unat (?w + 2 ^ 22) mod 2 ^ 22 = (unat ?w + 2 ^ 22) mod 2 ^ 32 mod 2 ^ 22"
    by (simp add: unat_word_ariths)
  also have "\<dots> = unat ?w mod 2 ^ 22" by (simp add: mod_mod_cancel)
  finally have u: "unat (?w + 2 ^ 22) mod 2 ^ 22 = unat ?w mod 2 ^ 22" .
  have "page_of (?w + 2 ^ 22) = page_of ?w" "off_of (?w + 2 ^ 22) = off_of ?w"
    using split [of ?w] split [of "?w + 2 ^ 22"] unfolding u by simp_all
  moreover have "word_of_int (a + 2 ^ 22) = ?w + 2 ^ 22" by simp
  ultimately show ?thesis by (simp only: pg_getval_def pg_setval_def PGN_int OFFST_int)
qed

text \<open>
  \<open>get_vma_by_num\<close> gives the first area whose identifier is not below the one asked for. It
  checks the area it stands on but not the next one: past the last area it reads a null pointer.
\<close>

lemma get_vma_correct:
  "if mmap m = [] then get_vma_by_num m vmaid = Inr None
   else if \<forall>v \<in> set (mmap m). sint (ucast (vm_id v) :: u32) < vmaid then get_vma_by_num m vmaid = Inl Null_Deref
   else returns (get_vma_by_num m vmaid) (\<lambda>r. \<exists>i < length (mmap m). r = Some i
     \<and> vmaid \<le> sint (ucast (vm_id (mmap m ! i)) :: u32)
     \<and> (\<forall>j < i. sint (ucast (vm_id (mmap m ! j)) :: u32) < vmaid))"
proof (cases "mmap m = []")
  case False
  have "if \<forall>v \<in> set vs. sint (ucast (vm_id v) :: u32) < vmaid then vma_loop vs vmaid n = Inl Null_Deref
     else \<exists>i < length vs. vma_loop vs vmaid n = Inr (n + i) \<and> vmaid \<le> sint (ucast (vm_id (vs ! i)) :: u32)
       \<and> (\<forall>j < i. sint (ucast (vm_id (vs ! j)) :: u32) < vmaid)" for vs n
  proof (induction vs arbitrary: n)
    case (Cons v vs)
    show ?case
    proof (cases "sint (ucast (vm_id v) :: u32) < vmaid")
      case True
      show ?thesis
      proof (cases "\<forall>v \<in> set vs. sint (ucast (vm_id v) :: u32) < vmaid")
        case False
        then obtain i where "i < length vs" "vma_loop vs vmaid (n + 1) = Inr (n + 1 + i)"
            "vmaid \<le> sint (ucast (vm_id (vs ! i)) :: u32)" "\<forall>j < i. sint (ucast (vm_id (vs ! j)) :: u32) < vmaid"
          using Cons.IH [of "n + 1"] unfolding if_not_P [OF False] by blast
        then show ?thesis using True False
          by (auto intro!: exI [of _ "Suc i"] simp: less_Suc_eq_0_disj)
      qed (use Cons.IH [of "n + 1"] True in simp)
    qed (auto intro!: exI [of _ 0])
  qed simp
  from this [of "mmap m" 0] show ?thesis using False by (auto simp: get_vma_by_num_def split: if_splits)
qed (simp add: get_vma_by_num_def)

text \<open>
  C35. \<open>inc_vma_limit\<close> succeeds whether or not frames are free. The area grows by the size rounded
  up to 4096 and what is left over becomes a free region; of the pages gained only the first
  sixteenth is mapped, and none when there are not enough free frames for it. Pages mapped before
  stay mapped with their content.
\<close>

theorem inc_vma_limit_correct:
  assumes "vm_inv m v k" and "sz \<noteq> 0" and "room v sz"
  shows "returns (inc_vma_limit k 0 sz) (\<lambda>(r, k'). r = 0 \<and> (\<exists>m'. pg_inv m' k' \<and> symrgtbl m' = symrgtbl m
     \<and> mmap m' = [v\<lparr>vm_end := vm_end v + PAGING64_PAGE_ALIGNSZ sz, sbrk := vm_end v + PAGING64_PAGE_ALIGNSZ sz,
         vm_freerg_list := (if sz < PAGING64_PAGE_ALIGNSZ sz
           then \<lparr>rg_vmaid = Some 0, rg_start = vm_end v + sz, rg_end = vm_end v + PAGING64_PAGE_ALIGNSZ sz\<rparr> # vm_freerg_list v
           else vm_freerg_list v)\<rparr>]
     \<and> unat (PAGING64_PAGE_ALIGNSZ sz) = (unat sz + 4095) div 4096 * 4096
     \<and> (\<forall>p. pview m p \<noteq> Unmapped \<longrightarrow> content k' p = content k p)
     \<and> (\<forall>p. pview m' p \<noteq> Unmapped \<longleftrightarrow> pview m p \<noteq> Unmapped
          \<or> (unat sz + 4095) div 4096 \<le> length (free_fp_list (mram k))
            \<and> unat (vm_end v) div 256 \<le> p \<and> p < unat (vm_end v) div 256 + (unat sz + 4095) div 4096)))"
proof -
  obtain k' m' where r: "inc_vma_limit k 0 sz = Inr (0, k')" "pg_keeps m k m' k'" "mmap m' = [grown v sz]"
      "symrgtbl m' = symrgtbl m" "\<And>p. pview m' p \<noteq> Unmapped \<longleftrightarrow> pview m p \<noteq> Unmapped \<or> new_page v sz k p"
    using inc_vma_limit_spec [OF assms] by (auto elim!: returnsE)
  have ok: "area_ok m v" using assms(1) by (simp add: vm_inv_def)
  note al = aligned_room [OF ok assms(3)]
  have c: "vm_end v + sz < vm_end v + PAGING64_PAGE_ALIGNSZ sz \<longleftrightarrow> sz < PAGING64_PAGE_ALIGNSZ sz"
    by (simp only: word_less_nat_alt al(1,3,4)) simp
  show ?thesis unfolding r(1) returns_simps prod.case
  proof (intro conjI refl exI [of _ m'])
    show "\<forall>p. pview m' p \<noteq> Unmapped \<longleftrightarrow> pview m p \<noteq> Unmapped
          \<or> (unat sz + 4095) div 4096 \<le> length (free_fp_list (mram k))
            \<and> unat (vm_end v) div 256 \<le> p \<and> p < unat (vm_end v) div 256 + (unat sz + 4095) div 4096"
      using r(5) unfolding new_page_def Let_def by blast
  qed (use r(2-4) c al(3) in \<open>simp_all add: pg_keeps_def grown_def Let_def\<close>)
qed

theorem inc_vma_limit_correct_witness:
  "returns (inc_vma_limit new_krnl 0 300) (\<lambda>(r, k'). r = 0 \<and> (\<exists>m'. mm k' = Some m'
     \<and> (\<forall>p. pview m' p \<noteq> Unmapped \<longleftrightarrow> p = 0)))"
proof -
  have z: "unat (vm_end init_vma) = 0" by (simp add: init_vma_def init_mm_def)
  then have "room init_vma 300" by (simp add: room_def)
  then obtain k' m' where r: "inc_vma_limit new_krnl 0 300 = Inr (0, k')" "pg_inv m' k'"
      "\<And>p. pview m' p \<noteq> Unmapped \<longleftrightarrow> 1 \<le> length (free_fp_list (mram new_krnl)) \<and> p < 1"
    using inc_vma_limit_correct [OF vm_inv_new, of 300] by (auto simp: z elim!: returnsE)
  moreover have "1 \<le> length (free_fp_list (mram new_krnl))"
    using new_free_ne by (cases "free_fp_list (mram new_krnl)") simp_all
  ultimately show ?thesis using pg_invD(1) by simp
qed


section \<open>Clearing a range of entries\<close>

lemma memset_one:
  assumes "mm k = Some m" and "length (pgd m) = 16384"
  shows "vmap_pgd_memset k a 1 = Inr (0, k\<lparr>mm := Some (m\<lparr>pgd := (pgd m)[page_of a := 0]\<rparr>)\<rparr>)"
proof -
  have "unat (PAGING_PGN a) = page_of a" by (simp add: PAGING_PGN_unat page_of_def)
  then show ?thesis using assms
    by (simp add: vmap_pgd_memset_def memset_loop.simps [of _ _ _ 0] memset_loop.simps [of _ _ _ 1] pte_modify_in)
qed

lemma pte_zero: "PAGING_FPN (0 :: u32) = 0" "\<not> PAGING_PAGE_PRESENT 0" "\<not> PAGE_SWAPPED 0"
  by (simp_all add: PAGING_FPN_take_bit PAGING_PAGE_PRESENT_def PAGE_SWAPPED_def)

text \<open>With a cleared entry at the end of the list, the frame that is taken is frame 0.\<close>

lemma take_frame_cleared:
  assumes inv: "pg_inv m k" and free: "free_fp_list (mram k) = []" "free_fp_list (active_mswp k) \<noteq> []"
    and fifo: "fifo_pgn m \<noteq> []" and pg: "pg = last (fifo_pgn m)"
    and m1: "m1 = m\<lparr>pgd := (pgd m)[unat pg := 0]\<rparr>"
  obtains s src dst where "take_frame (k\<lparr>mm := Some m1\<rparr>) = Inr (Some 0, k\<lparr>mm := Some (m1\<lparr>fifo_pgn := butlast (fifo_pgn m),
      pgd := (pgd m1)[unat pg := swap_entry 0 0 s]\<rparr>), mram := src, active_mswp := dst\<rparr>)"
    "storage src = storage (mram k)" "mem_rest src = mem_rest (mram k)"
proof -
  note i = pg_invD [OF inv]
  obtain f where f: "pview m (unat pg) = Present f"
    using i(9) last_in_set [OF fifo] unfolding fifo_ok_def pg by blast
  then have l: "unat pg < length (pgd m)" and nf: "0 < nframes (mram k)"
    using pview_mapped [of m "unat pg"] slots_ok_bound [OF i(7) f] by auto
  have none: "MEMPHY_get_freefp (mram k) = Inr (None, mram k)"
    using free(1) i(3) by (auto elim: MEMPHY_get_freefp_cases)
  obtain s d where s: "MEMPHY_get_freefp (active_mswp k) = Inr (Some s, d)" "unat s < nframes (active_mswp k)"
      "d = (active_mswp k)\<lparr>free_fp_list := tl (free_fp_list (active_mswp k))\<rparr>"
    using free(2) i(4) by (auto elim: MEMPHY_get_freefp_cases)
  have "length (storage (mram k)) < 2 ^ 64" "length (storage d) < 2 ^ 64" "unat s < nframes d"
    using i(3,4) s by (simp_all add: mem_wf_def nframes_def)
  then obtain src dst where cp: "swap_cp_page (mram k) 0 d s = Inr (src, dst)" "storage src = storage (mram k)"
      "mem_rest src = mem_rest (mram k)"
    using swap_cp_page_ok [of 0 "mram k" s d] nf by (auto elim!: returnsE)
  have v: "find_victim_page m1 = (Some pg, m1\<lparr>fifo_pgn := butlast (fifo_pgn m)\<rparr>)"
    using victim_loop_eq [of "fifo_pgn m" 0 "[]"] fifo_length [OF inv] fifo by (simp add: find_victim_page_def m1 pg)
  have "take_frame (k\<lparr>mm := Some m1\<rparr>) = Inr (Some 0, k\<lparr>mm := Some (m1\<lparr>fifo_pgn := butlast (fifo_pgn m),
      pgd := (pgd m1)[unat pg := swap_entry 0 0 s]\<rparr>), mram := src, active_mswp := dst\<rparr>)"
    using l by (simp add: take_frame_def Let_def none the_mm_def v [unfolded m1] pte_get_entry_in m1 pte_zero s(1) cp(1)
        pte_set_swap_def pte_modify_in cong: option.case_cong)
  then show thesis using cp(2,3) by (rule that)
qed

text \<open>So the page that the process asks for next is put there.\<close>

lemma getpage_cleared:
  fixes w :: u32
  assumes "pg_inv m k" and "free_fp_list (mram k) = []" and "free_fp_list (active_mswp k) \<noteq> []" and "fifo_pgn m \<noteq> []"
    and "pview m (page_of w) = Unmapped"
  obtains k1 m2 where "pg_getpage (k\<lparr>mm := Some (m\<lparr>pgd := (pgd m)[unat (last (fifo_pgn m)) := 0]\<rparr>)\<rparr>) (int (page_of w)) = Inr (Some 0, k1)"
    "storage (mram k1) = storage (mram k)" "mm k1 = Some m2" "pview m2 (page_of w) = Present 0" "0 < nframes (mram k)"
proof -
  note i = pg_invD [OF assms(1)]
  let ?pg = "last (fifo_pgn m)" and ?q = "page_of w"
  let ?m1 = "m\<lparr>pgd := (pgd m)[unat ?pg := 0]\<rparr>"
  obtain g where g: "pview m (unat ?pg) = Present g"
    using i(9) last_in_set [OF assms(4)] unfolding fifo_ok_def by blast
  have q: "?q < length (pgd m)" using page_of_less [of w] i(2) by simp
  have w: "unat (word_of_int (int ?q) :: addr) = ?q" by (rule word_of_page [OF page_of_less])
  have ne: "?q \<noteq> unat ?pg" using g assms(5) by auto
  obtain s src dst where t: "take_frame (k\<lparr>mm := Some ?m1\<rparr>) = Inr (Some 0, k\<lparr>mm := Some (?m1\<lparr>fifo_pgn := butlast (fifo_pgn m),
      pgd := (pgd ?m1)[unat ?pg := swap_entry 0 0 s]\<rparr>), mram := src, active_mswp := dst\<rparr>)"
      and src: "storage src = storage (mram k)" "mem_rest src = mem_rest (mram k)"
    by (rule take_frame_cleared [OF assms(1-4) refl refl]) blast
  have e: "\<not> PAGING_PAGE_PRESENT (ucast (pgd m ! ?q))" "\<not> PAGE_SWAPPED (ucast (pgd m ! ?q))"
    using assms(5) q by (simp_all add: pview_def decode_ucast)
  have dec: "pte_decode (fpn_entry (pgd m ! ?q) 0) = Present 0" by (simp add: decode_fpn_entry)
  then have fpn: "sint (PAGING_FPN (ucast (fpn_entry (pgd m ! ?q) 0))) = 0" by (simp add: decode_ucast sint_FPN)
  have "returns (pg_getpage (k\<lparr>mm := Some ?m1\<rparr>) (int ?q)) (\<lambda>(f, k2). f = Some 0 \<and> mram k2 = src
      \<and> (\<exists>m2. mm k2 = Some m2 \<and> pview m2 ?q = Present 0))"
    using q ne w e fpn dec
    by (simp add: pg_getpage_def pte_get_entry_in t load_page_def pte_set_fpn_def pte_modify_in enlist_fifo_def the_mm_def
        pview_def del: of_int_of_nat_eq)
  then obtain k1 m2 where k1: "pg_getpage (k\<lparr>mm := Some ?m1\<rparr>) (int ?q) = Inr (Some 0, k1)" "mram k1 = src"
      "mm k1 = Some m2" "pview m2 ?q = Present 0" by (auto elim!: returnsE)
  show thesis using k1 src slots_ok_bound [OF i(7) g] by (intro that [OF k1(1)]) simp_all
qed

text \<open>
  C39. \<open>vmap_pgd_memset\<close>, which the memory-mapping system call runs for a process, clears entries but
  leaves their pages on the list of victims. Let RAM be full and swap not, let the process clear the page
  that entered its list last, and let it then write to a page that is not mapped. The cleared
  entry of the victim is read as frame 0, so that the process gets frame 0 without owning it: when the frame holds a page
  of another process (with the memory \<open>mo\<close>), the page table of that process still maps it, the byte
  of that process is overwritten, and the rest of its page is now also the writer's.
\<close>

theorem cleared_page_steals_frame:
  fixes w :: u32
  assumes "pg_inv m k" and "free_fp_list (mram k) = []" and "free_fp_list (active_mswp k) \<noteq> []"
    and "fifo_pgn m \<noteq> []" and "page_of a = unat (last (fifo_pgn m))"
    and "pview m (page_of w) = Unmapped" and "pview mo p = Present 0"
  shows "returns (vmap_pgd_memset k a 1) (\<lambda>(_, k1). returns (pg_setval k1 (sint w) d) (\<lambda>(r, k2). r = 0
    \<and> (\<exists>m2. mm k2 = Some m2 \<and> pview m2 (page_of w) = Present 0)
    \<and> (\<forall>j < 256. content (k2\<lparr>mm := Some mo\<rparr>) p j = (if j = off_of w then Some d else content (k\<lparr>mm := Some mo\<rparr>) p j)
        \<and> content k2 (page_of w) j = content (k2\<lparr>mm := Some mo\<rparr>) p j)))"
proof -
  note i = pg_invD [OF assms(1)]
  let ?m1 = "m\<lparr>pgd := (pgd m)[unat (last (fifo_pgn m)) := 0]\<rparr>"
  obtain k1 m2 where k1: "pg_getpage (k\<lparr>mm := Some ?m1\<rparr>) (int (page_of w)) = Inr (Some 0, k1)" "storage (mram k1) = storage (mram k)"
      "mm k1 = Some m2" "pview m2 (page_of w) = Present 0" "0 < nframes (mram k)"
    by (rule getpage_cleared [OF assms(1-4,6)])
  let ?a = "word_of_int (int (off_of w)) :: addr"
  have a: "unat ?a = off_of w" using phys_addr(2) [of 0 "off_of w"] by (simp del: of_int_of_nat_eq)
  have fr: "in_frames 0 (storage (mram k1))" using k1(5) by (simp add: k1(2) in_frames_storage)
  have "unat ?a < length (storage (mram k1))" using in_frames_addr [OF fr, of "off_of w"] a by simp
  then obtain u where u: "MEMPHY_write (mram k1) ?a d = Inr (0, u)" "storage u = (storage (mram k1))[off_of w := d]"
    using mem.wr [of ?a "mram k1" d] a by (auto elim!: returnsE)
  have up: "cell (storage u) 0 j = (if j = off_of w then d else cell (storage (mram k)) 0 j)" if "j < 256" for j
    using cell_update [OF fr _ that, of "off_of w" 0 d] by (auto simp: u(2) k1(2))
  have "vmap_pgd_memset k a 1 = Inr (0, k\<lparr>mm := Some ?m1\<rparr>)"
    using memset_one [OF i(1,2), of a] assms(5) by simp
  moreover have "pg_setval (k\<lparr>mm := Some ?m1\<rparr>) (sint w) d = Inr (0, k1\<lparr>mram := u\<rparr>)"
    unfolding pg_setval_def Let_def by (simp add: PGN_int OFFST_int k1(1) u(1) del: of_int_of_nat_eq)
  ultimately show ?thesis using k1(3,4) assms(7) up by (simp add: content_def content_of_def)
qed

text \<open>Two processes share a RAM of two frames: page 3 of the one is in frame 1, page 5 of the other in frame 0.\<close>

definition thief_mm :: mm_struct where
  "thief_mm = init_mm\<lparr>pgd := (pgd init_mm)[3 := fpn_entry 0 1], fifo_pgn := [3]\<rparr>"

definition owner_mm :: mm_struct where
  "owner_mm = init_mm\<lparr>pgd := (pgd init_mm)[5 := fpn_entry 0 0], fifo_pgn := [5]\<rparr>"

definition shared_krnl :: krnl_t where
  "shared_krnl = new_krnl\<lparr>mm := Some thief_mm, mram := (init_memphy uninit_memphy 512 True)\<lparr>free_fp_list := []\<rparr>\<rparr>"

lemma shared_view: "pview thief_mm = (\<lambda>_. Unmapped)(3 := Present 1)" "pview owner_mm = (\<lambda>_. Unmapped)(5 := Present 0)"
  using pview_set [of thief_mm init_mm 3 "fpn_entry 0 1"] pview_set [of owner_mm init_mm 5 "fpn_entry 0 0"] init_pgd
  by (simp_all add: thief_mm_def owner_mm_def decode_fpn_entry fun_eq_iff)

lemma pg_inv_shared: "pg_inv thief_mm shared_krnl" "pg_inv owner_mm (shared_krnl\<lparr>mm := Some owner_mm\<rparr>)"
proof -
  note i = pg_invD [OF pg_inv_new]
  have r: "mem_wf ((init_memphy uninit_memphy 512 True)\<lparr>free_fp_list := []\<rparr>)"
      "nframes ((init_memphy uninit_memphy 512 True)\<lparr>free_fp_list := []\<rparr>) = 2"
    using init_memphy_ok [of 512 uninit_memphy True] by (simp_all add: mem_wf_def nframes_def)
  have d: "mem_wf (mram shared_krnl)" "nframes (mram shared_krnl) = 2" "free_frames (mram shared_krnl) = {}"
    "active_mswp shared_krnl = active_mswp new_krnl"
    using r by (simp_all add: shared_krnl_def free_frames_def)
  have l: "length (pgd thief_mm) = 16384" "length (pgd owner_mm) = 16384" by (simp_all add: thief_mm_def owner_mm_def init_pgd)
  have f: "fifo_ok thief_mm" "fifo_ok owner_mm"
    unfolding fifo_ok_def shared_view by (simp_all add: thief_mm_def owner_mm_def)
  show "pg_inv thief_mm shared_krnl" "pg_inv owner_mm (shared_krnl\<lparr>mm := Some owner_mm\<rparr>)"
    by (rule pg_invI; use d l f i in \<open>simp add: shared_view slots_ok_def\<close>; simp add: shared_krnl_def)+
qed

theorem cleared_page_steals_frame_witness:
  "pg_inv thief_mm shared_krnl \<and> pg_inv owner_mm (shared_krnl\<lparr>mm := Some owner_mm\<rparr>)
   \<and> pview thief_mm 3 = Present 1 \<and> pview owner_mm 5 = Present 0
   \<and> returns (vmap_pgd_memset shared_krnl 768 1) (\<lambda>(_, k1). returns (pg_setval k1 2304 7) (\<lambda>(r, k2). r = 0
      \<and> content (k2\<lparr>mm := Some owner_mm\<rparr>) 5 0 = Some 7))"
proof -
  have "free_fp_list (active_mswp new_krnl) \<noteq> []" using arg_cong [OF new_free(2), of length] by auto
  then have "returns (vmap_pgd_memset shared_krnl 768 1) (\<lambda>(_, k1). returns (pg_setval k1 (sint (2304 :: u32)) 7) (\<lambda>(r, k2). r = 0
      \<and> (\<exists>m2. mm k2 = Some m2 \<and> pview m2 (page_of (2304 :: u32)) = Present 0)
      \<and> (\<forall>j < 256. content (k2\<lparr>mm := Some owner_mm\<rparr>) 5 j
            = (if j = off_of (2304 :: u32) then Some 7 else content (shared_krnl\<lparr>mm := Some owner_mm\<rparr>) 5 j)
          \<and> content k2 (page_of (2304 :: u32)) j = content (k2\<lparr>mm := Some owner_mm\<rparr>) 5 j)))"
    by (intro cleared_page_steals_frame [OF pg_inv_shared(1)])
      (simp_all add: shared_krnl_def thief_mm_def [symmetric] shared_view page_of_def, simp_all add: thief_mm_def)
  moreover have "off_of (2304 :: u32) = 0" by (simp add: off_of_def)
  ultimately show ?thesis using pg_inv_shared by (auto simp: shared_view elim!: returnsE)
qed

end
