(* ===== verification/Isolation.thy ===== *)
theory Isolation
  imports Libmem
begin

text \<open>
  Several processes on the two shared devices. Each has its own page table and regions; the
  library calls of one may take free frames and evict its own pages. The theory shows that no
  sequence of calls lets a process see or change a byte of another.
\<close>

section \<open>Calls and the state of the system\<close>

datatype mem_call = Alloc addr u32 | Free u32 | Read u32 addr | Write byte u32 addr

text \<open>The state a call of a process leaves; what it returns to the process is dropped.\<close>

definition do_call :: "krnl_t \<Rightarrow> mem_call \<Rightarrow> krnl_t res" where
  "do_call k c = (case c of
      Alloc sz r \<Rightarrow> rbind (liballoc k sz r) (\<lambda>(_, k). Inr k)
    | Free r \<Rightarrow> rbind (libfree k r) (\<lambda>(_, k). Inr k)
    | Read r off \<Rightarrow> rbind (libread k r off) (\<lambda>(_, k). Inr k)
    | Write d r off \<Rightarrow> rbind (libwrite k d r off) (\<lambda>(_, k). Inr k))"

text \<open>The memory of each process, by its pointer, and the two devices.\<close>

record mem_sys =
  mms :: "ptr \<rightharpoonup> mm_struct"
  ram :: memphy_struct
  swp :: memphy_struct

text \<open>What process \<open>i\<close> reaches.\<close>

definition proc_view :: "mem_sys \<Rightarrow> ptr \<Rightarrow> krnl_t" where
  "proc_view s i = \<lparr>mm = mms s i, mram = ram s, active_mswp = swp s\<rparr>"

definition separate :: "mm_struct \<Rightarrow> mm_struct \<Rightarrow> bool" where
  "separate m m' \<longleftrightarrow> owned Present (pview m) \<inter> owned Present (pview m') = {}
     \<and> owned Swapped (pview m) \<inter> owned Swapped (pview m') = {}"

definition sys_inv :: "mem_sys \<Rightarrow> bool" where
  "sys_inv s \<longleftrightarrow> mem_wf (ram s) \<and> mem_wf (swp s) \<and> nframes (ram s) \<le> 8192 \<and> nframes (swp s) \<le> 2097152
     \<and> (\<forall>i m. mms s i = Some m \<longrightarrow> (\<exists>v. vm_inv m v (proc_view s i)))
     \<and> (\<forall>i j m m'. mms s i = Some m \<longrightarrow> mms s j = Some m' \<longrightarrow> i \<noteq> j \<longrightarrow> separate m m')"

text \<open>An allocation may be made while the area of the process stays below \<open>2 ^ 22\<close>.\<close>

fun call_ok :: "mm_struct \<Rightarrow> mem_call \<Rightarrow> bool" where
  "call_ok m (Alloc sz r) = (\<forall>v \<in> set (mmap m). room v sz)"
| "call_ok m _ = True"

text \<open>
  A process makes a call, a new process is loaded, or a process ends. Devices never shrink, and the
  frames of a process that ends are not given back.
\<close>

inductive sys_step :: "mem_sys \<Rightarrow> ptr \<Rightarrow> mem_sys \<Rightarrow> bool" where
  call: "mms s i = Some m \<Longrightarrow> call_ok m c \<Longrightarrow> do_call (proc_view s i) c = Inr k' \<Longrightarrow>
     sys_step s i (s\<lparr>mms := (mms s)(i := mm k'), ram := mram k', swp := active_mswp k'\<rparr>)"
| new: "mms s i = None \<Longrightarrow> sys_step s i (s\<lparr>mms := (mms s)(i \<mapsto> init_mm)\<rparr>)"
| exit: "sys_step s i (s\<lparr>mms := (mms s)(i := None)\<rparr>)"

inductive sys_run :: "mem_sys \<Rightarrow> ptr list \<Rightarrow> mem_sys \<Rightarrow> bool" where
  stop: "sys_run s [] s"
| step: "sys_step s i s' \<Longrightarrow> sys_run s' is s'' \<Longrightarrow> sys_run s (i # is) s''"

section \<open>One call\<close>

lemma keeps_step: "keeps m k m' k' \<Longrightarrow> pg_step m k m' k'"
  by (simp add: keeps_def)

lemma access_step:
  assumes inv: "vm_inv m v k" and acc: "accessed w m k (unat a div 256) j r k'" and a: "unat a < unat (vm_end v)"
  shows "\<exists>m'. vm_inv m' v k' \<and> pg_step m k m' k'"
proof -
  have "unat a div 256 * 256 < unat (vm_end v)" using a by linarith
  then show ?thesis using accessed_inv [OF inv acc] keeps_step by blast
qed

text \<open>A run that starts in \<open>k\<close> keeps the invariant of the process and touches only what it reaches.\<close>

definition sound :: "mm_struct \<Rightarrow> krnl_t \<Rightarrow> krnl_t \<Rightarrow> bool" where
  "sound m k k' \<longleftrightarrow> (\<exists>m' v'. vm_inv m' v' k' \<and> pg_step m k m' k')"

lemma sound_refl: "vm_inv m v k \<Longrightarrow> sound m k k"
  using pg_step_refl by (auto simp: sound_def)

lemma sound_trans: "sound m k k' \<Longrightarrow> mm k' = Some m' \<Longrightarrow> sound m' k' k'' \<Longrightarrow> sound m k k''"
  unfolding sound_def using pg_step_trans by (metis option.inject pg_invD(1) vm_inv_def)

lemma soundE:
  assumes "sound m k k'"
  obtains m' v' where "mm k' = Some m'" "vm_inv m' v' k'" "pg_step m k m' k'"
  using assms pg_invD(1) by (auto simp: sound_def vm_inv_def)

lemma access_sound:
  assumes inv: "vm_inv m v k" and i: "i < 30" and a: "a < rg_end (symrgtbl m ! i)"
    and acc: "accessed w m k (unat a div 256) j r k'"
  shows "sound m k k'"
  using access_step [OF inv acc access_addr(1) [OF inv i a]] by (auto simp: sound_def)

lemma no_region:
  assumes inv: "vm_inv m v k" and r: "r < 0 \<or> r \<ge> 30"
  shows "read_region k 0 r off = Inr (None, k)" and "write_region k 0 r off d = Inr (-1, k)"
    and "alloc_region k 0 r sz = Inr (None, k)" and "free_region k 0 r = Inr (-1, k)"
proof -
  have mk: "mm k = Some m" "mmap m = [v]" "vm_id v = 0"
    using inv pg_invD(1) area_okD(1,2) by (auto simp: vm_inv_def)
  show "read_region k 0 r off = Inr (None, k)" "write_region k 0 r off d = Inr (-1, k)"
    using mk r by (simp_all add: read_region_def write_region_def the_mm_def get_vma_0 get_symrg_byid_def PAGING_MAX_SYMTBL_SZ_def)
  show "alloc_region k 0 r sz = Inr (None, k)" "free_region k 0 r = Inr (-1, k)"
    using r by (simp_all add: alloc_region_def free_region_def PAGING_MAX_SYMTBL_SZ_def)
qed

lemma region_index:
  obtains (inside) i where "i < 30" "r = int i" | (outside) "r < 0 \<or> r \<ge> 30"
  by (metis int_ops(3) linorder_not_less nat_int_comparison(2) nonneg_int_cases)

lemma read_sound:
  assumes inv: "vm_inv m v k"
  shows "returns (read_region k 0 r off) (\<lambda>(_, k'). sound m k k')"
proof (cases r rule: region_index)
  case (inside i)
  let ?r = "symrgtbl m ! i" and ?a = "rg_start (symrgtbl m ! i) + off"
  note spec = read_region_spec [OF inv inside(1) refl refl, of off]
  show ?thesis
  proof (cases "rg_start ?r \<noteq> rg_end ?r \<and> ?a < rg_end ?r")
    case True
    note acc = access_sound [OF inv inside(1) True [THEN conjunct2]]
    show ?thesis unfolding inside(2)
      by (rule returns_mono [OF spec [unfolded if_P [OF True]]]) (auto intro: acc)
  next
    case False
    then show ?thesis using spec inside(2) sound_refl [OF inv] by auto
  qed
qed (use no_region [OF inv] sound_refl [OF inv] in simp)

lemma write_sound:
  assumes inv: "vm_inv m v k"
  shows "returns (write_region k 0 r off d) (\<lambda>(_, k'). sound m k k')"
proof (cases r rule: region_index)
  case (inside i)
  let ?r = "symrgtbl m ! i" and ?a = "rg_start (symrgtbl m ! i) + off"
  note spec = write_region_spec [OF inv inside(1) refl refl, of off d]
  show ?thesis
  proof (cases "rg_start ?r \<noteq> rg_end ?r \<and> ?a < rg_end ?r")
    case True
    note acc = access_sound [OF inv inside(1) True [THEN conjunct2]]
    show ?thesis unfolding inside(2)
      by (rule returns_mono [OF spec [unfolded if_P [OF True]]]) (auto intro: acc)
  next
    case False
    then show ?thesis using spec inside(2) sound_refl [OF inv] by auto
  qed
qed (use no_region [OF inv] sound_refl [OF inv] in simp)

lemma alloc_sound:
  assumes inv: "vm_inv m v k" and rm: "room v sz"
  shows "returns (alloc_region k 0 r sz) (\<lambda>(a, k'). sound m k k' \<and> a \<noteq> Some (-1)
     \<and> (a \<noteq> None \<longrightarrow> 0 \<le> r \<and> r < 30))"
proof (cases "sz = 0")
  case True
  then show ?thesis using sound_refl [OF inv] by (simp add: alloc_region_def)
next
  case False
  show ?thesis
  proof (cases r rule: region_index)
    case (inside i)
    obtain a k' m' v' where a: "alloc_region k 0 (int i) sz = Inr (Some a, k')" "allocated m v k i sz a m' v' k'"
      using alloc_region_spec [OF inv inside(1) False rm] by (auto elim!: returnsE)
    then have "sound m k k'" and inv': "vm_inv m' v' k'" and b: "unat a + unat sz \<le> unat (vm_end v')"
      by (auto simp: allocated_def pg_keeps_def sound_def)
    have "unat (vm_end v') \<le> 2 ^ 22" using inv' area_okD(9) [of m' v'] by (simp add: vm_inv_def)
    then have "unat a < 2 ^ 23" using b by simp
    moreover have "unat (-1 :: addr) = 2 ^ 64 - 1" by (simp add: unsigned_minus_1_eq_mask mask_eq_exp_minus_1)
    ultimately have "a \<noteq> -1" by auto
    then show ?thesis using a(1) inside \<open>sound m k k'\<close> by simp
  qed (use no_region [OF inv] sound_refl [OF inv] in simp)
qed

lemma free_sound:
  assumes inv: "vm_inv m v k"
  shows "returns (free_region k 0 r) (\<lambda>(_, k'). sound m k k')"
proof (cases r rule: region_index)
  case (inside i)
  obtain x k' where "free_region k 0 r = Inr (x, k')" "k' = k \<or> (\<exists>m' v'. freed m v k i m' v' k')"
    using free_region_spec [OF inv inside(1)] inside(2) by (auto elim!: returnsE split: if_splits)
  then show ?thesis using sound_refl [OF inv] by (auto simp: freed_def pg_keeps_def sound_def)
qed (use no_region [OF inv] sound_refl [OF inv] in simp)

lemma do_call_spec:
  assumes inv: "vm_inv m v k" and ok: "call_ok m c"
  shows "returns (do_call k c) (sound m k)"
proof (cases c)
  case (Alloc sz r)
  have "room v sz" using ok Alloc inv area_okD(1) [of m v] by (simp add: vm_inv_def)
  then obtain a k' where "alloc_region k 0 (sint r) sz = Inr (a, k')" "sound m k k'"
    using alloc_sound [OF inv, of sz "sint r"] by (auto elim!: returnsE)
  then show ?thesis using Alloc by (simp add: do_call_def liballoc_def)
next
  case (Free r)
  moreover obtain x k' where "free_region k 0 (sint r) = Inr (x, k')" "sound m k k'"
    using free_sound [OF inv, of "sint r"] by (auto elim!: returnsE)
  ultimately show ?thesis by (simp add: do_call_def libfree_def)
next
  case (Read r off)
  moreover obtain x k' where "read_region k 0 (sint r) off = Inr (x, k')" "sound m k k'"
    using read_sound [OF inv, of "sint r" off] by (auto elim!: returnsE)
  ultimately show ?thesis by (simp add: do_call_def libread_def)
next
  case (Write d r off)
  moreover obtain x k' where "write_region k 0 (sint r) off d = Inr (x, k')" "sound m k k'"
    using write_sound [OF inv, of "sint r" off d] by (auto elim!: returnsE)
  ultimately show ?thesis by (simp add: do_call_def libwrite_def)
qed

section \<open>The other processes\<close>

lemma dev_step_other:
  assumes d: "dev_step (reach mk m d) (reach mk m' d') d d'" and s: "slots_ok mk (pview n) d"
    and sep: "owned mk (pview m) \<inter> owned mk (pview n) = {}"
  shows "slots_ok mk (pview n) d'"
    and "owned mk (pview m') \<inter> owned mk (pview n) = {}"
    and "pview n p = mk f \<Longrightarrow> j < 256 \<Longrightarrow> cell (storage d') f j = cell (storage d) f j"
proof -
  have out: "f \<notin> reach mk m d" if "f \<in> owned mk (pview n)" for f
    using that sep owned_not_free [OF s that] by (auto simp: reach_def)
  have r: "reach mk m' d' \<subseteq> reach mk m d" "length (storage d') = length (storage d)"
    using d by (simp_all add: dev_step_def)
  show "owned mk (pview m') \<inter> owned mk (pview n) = {}" using out r(1) by (auto simp: reach_def)
  have "f \<notin> free_frames d'" if "f \<in> owned mk (pview n)" for f
    using out [OF that] r(1) by (auto simp: reach_def)
  then show "slots_ok mk (pview n) d'"
    using s r(2) unfolding slots_ok_def nframes_def owned_def by auto
  assume f: "pview n p = mk f" and j: "j < 256"
  then have "f \<in> owned mk (pview n)" by (auto simp: owned_def)
  then show "cell (storage d') f j = cell (storage d) f j"
    using d out [of f] slots_ok_bound [OF s f] j by (simp add: dev_step_def)
qed

lemma other_process:
  assumes inv: "vm_inv n w (k\<lparr>mm := Some n\<rparr>)" and sep: "separate m n"
    and st: "pg_step m k m' k'" and inv': "vm_inv m' v' k'"
  shows "vm_inv n w (k'\<lparr>mm := Some n\<rparr>)" and "separate m' n"
    and "content (k'\<lparr>mm := Some n\<rparr>) = content (k\<lparr>mm := Some n\<rparr>)"
proof -
  have pn: "pg_inv n (k\<lparr>mm := Some n\<rparr>)" and pm: "pg_inv m' k'" using inv inv' by (simp_all add: vm_inv_def)
  note i = pg_invD [OF pn] and i' = pg_invD [OF pm]
  have dr: "dev_step (reach Present m (mram k)) (reach Present m' (mram k')) (mram k) (mram k')"
    and ds: "dev_step (reach Swapped m (active_mswp k)) (reach Swapped m' (active_mswp k')) (active_mswp k) (active_mswp k')"
    using st by (simp_all add: pg_step_def)
  have sr: "slots_ok Present (pview n) (mram k)" and ss: "slots_ok Swapped (pview n) (active_mswp k)"
    using i(7,8) by simp_all
  note r = dev_step_other [OF dr sr] and s = dev_step_other [OF ds ss]
  have sp: "owned Present (pview m) \<inter> owned Present (pview n) = {}"
    "owned Swapped (pview m) \<inter> owned Swapped (pview n) = {}" using sep by (simp_all add: separate_def)
  have "pg_inv n (k'\<lparr>mm := Some n\<rparr>)"
    by (rule pg_invI) (use i i' r(1) [OF sp(1)] s(1) [OF sp(2)] in simp_all)
  then show "vm_inv n w (k'\<lparr>mm := Some n\<rparr>)" using inv by (simp add: vm_inv_def)
  show "separate m' n" using r(2) [OF sp(1)] s(2) [OF sp(2)] by (simp add: separate_def)
  show "content (k'\<lparr>mm := Some n\<rparr>) = content (k\<lparr>mm := Some n\<rparr>)"
    using content_of_cong [of "pview n" "pview n", OF refl r(3) [OF sp(1)] s(3) [OF sp(2)]]
    by (simp add: content_def)
qed

lemma separate_sym: "separate m n \<Longrightarrow> separate n m"
  by (auto simp: separate_def)

section \<open>Steps of the system\<close>

lemma sys_invD:
  assumes "sys_inv s" and "mms s i = Some m"
  obtains v where "vm_inv m v (proc_view s i)"
  using assms unfolding sys_inv_def by blast

lemma content_None: "mm k = None \<Longrightarrow> content k = (\<lambda>_ _. None)"
  by (simp add: content_def)

lemma sound_step:
  assumes inv: "sys_inv s" and i: "mms s i = Some m" and st: "sound m (proc_view s i) k'"
    and s': "s' = s\<lparr>mms := (mms s)(i := mm k'), ram := mram k', swp := active_mswp k'\<rparr>"
  shows "sys_inv s'" and "j \<noteq> i \<Longrightarrow> mms s' j = mms s j \<and> content (proc_view s' j) = content (proc_view s j)"
proof -
  obtain m' v' where m': "mm k' = Some m'" "vm_inv m' v' k'" "pg_step m (proc_view s i) m' k'"
    using st by (rule soundE)
  have vi: "proc_view s' i = k'" by (simp add: proc_view_def s')
  have vj: "proc_view s' j = k'\<lparr>mm := mms s j\<rparr>" "mms s' j = mms s j" if "j \<noteq> i" for j
    using that by (simp_all add: proc_view_def s')
  have old: "proc_view s j = (proc_view s i)\<lparr>mm := mms s j\<rparr>" for j by (simp add: proc_view_def)
  have other: "(\<exists>w. vm_inv n w (proc_view s' j)) \<and> separate m' n \<and> content (proc_view s' j) = content (proc_view s j)"
    if j: "mms s j = Some n" "j \<noteq> i" for j n
  proof -
    obtain w where w: "vm_inv n w (proc_view s j)" using inv j(1) by (rule sys_invD)
    have sep: "separate m n" using inv i j unfolding sys_inv_def by metis
    note p = other_process [OF w [unfolded old [of j] j(1)] sep m'(3,2)]
    show ?thesis using p vj(1) [OF j(2)] old [of j] j(1) by auto
  qed
  show "mms s' j = mms s j \<and> content (proc_view s' j) = content (proc_view s j)" if "j \<noteq> i"
  proof (cases "mms s j")
    case None
    then have "mm (proc_view s' j) = None" "mm (proc_view s j) = None" using vj that by (simp_all add: proc_view_def)
    then show ?thesis using vj(2) [OF that] by (simp add: content_None)
  qed (use other [of j] vj(2) that in simp)
  have mi: "mms s' i = Some m'" using m'(1) by (simp add: s')
  have "\<exists>v. vm_inv n v (proc_view s' a)" if "mms s' a = Some n" for a n
    using other [of a n] that m'(2) vi mi vj(2) [of a] by (cases "a = i") auto
  moreover have "separate n1 n2" if ab: "mms s' a = Some n1" "mms s' b = Some n2" "a \<noteq> b" for a b n1 n2
  proof -
    consider "a = i" | "b = i" | "a \<noteq> i" "b \<noteq> i" by blast
    then show ?thesis
    proof cases
      case 1
      then show ?thesis using other [of b n2] vj(2) [of b] ab mi by simp
    next
      case 2
      then show ?thesis using other [of a n1] vj(2) [of a] ab mi separate_sym by simp
    next
      case 3
      then show ?thesis using inv vj(2) [of a] vj(2) [of b] ab unfolding sys_inv_def by metis
    qed
  qed
  moreover have "pg_inv m' k'" using m'(2) by (simp add: vm_inv_def)
  then have "mem_wf (ram s') \<and> mem_wf (swp s') \<and> nframes (ram s') \<le> 8192 \<and> nframes (swp s') \<le> 2097152"
    using pg_invD [of m' k'] by (simp add: s')
  ultimately show "sys_inv s'" unfolding sys_inv_def by blast
qed

lemma proc_view_upd [simp]: "j \<noteq> i \<Longrightarrow> proc_view (s\<lparr>mms := (mms s)(i := x)\<rparr>) j = proc_view s j"
  by (simp add: proc_view_def)

lemma separate_init: "separate init_mm m" "separate m init_mm"
  by (simp_all add: separate_def owned_def)

lemma new_step:
  assumes inv: "sys_inv s" and s': "s' = s\<lparr>mms := (mms s)(i \<mapsto> init_mm)\<rparr>"
  shows "sys_inv s'"
proof -
  have dev: "mem_wf (ram s)" "mem_wf (swp s)" "nframes (ram s) \<le> 8192" "nframes (swp s) \<le> 2097152"
    using inv by (simp_all add: sys_inv_def)
  then have v: "vm_inv init_mm init_vma (proc_view s' i)"
    by (intro vm_inv_init) (simp_all add: proc_view_def s')
  have "\<exists>w. vm_inv m w (proc_view s' a)" if "mms s' a = Some m" for a m
    using that inv v by (cases "a = i") (auto simp: sys_inv_def s')
  moreover have "separate m m'" if "mms s' a = Some m" "mms s' b = Some m'" "a \<noteq> b" for a b m m'
    using that inv separate_init unfolding sys_inv_def s' by (auto split: if_splits)
  ultimately show "sys_inv s'" using dev unfolding sys_inv_def by (simp add: s')
qed

lemma exit_step:
  assumes inv: "sys_inv s" and s': "s' = s\<lparr>mms := (mms s)(i := None)\<rparr>"
  shows "sys_inv s'"
  using inv unfolding sys_inv_def s' by auto

lemma sys_step_spec:
  assumes "sys_step s i s'" and "sys_inv s"
  shows "sys_inv s'" and "j \<noteq> i \<Longrightarrow> mms s' j = mms s j \<and> content (proc_view s' j) = content (proc_view s j)"
proof -
  from assms(1) have "sys_inv s' \<and> (\<forall>j. j \<noteq> i \<longrightarrow>
      mms s' j = mms s j \<and> content (proc_view s' j) = content (proc_view s j))"
  proof cases
    case (call m c k')
    obtain v where "vm_inv m v (proc_view s i)" using assms(2) call(2) by (rule sys_invD)
    then have "sound m (proc_view s i) k'" using do_call_spec [OF _ call(3), of v "proc_view s i"] call(4) by simp
    then show ?thesis using sound_step [OF assms(2) call(2) _ call(1)] by blast
  next
    case new
    then show ?thesis using new_step [OF assms(2)] by simp
  next
    case exit
    then show ?thesis using exit_step [OF assms(2)] by simp
  qed
  then show "sys_inv s'" and "j \<noteq> i \<Longrightarrow> mms s' j = mms s j \<and> content (proc_view s' j) = content (proc_view s j)"
    by blast+
qed

lemma sys_run_spec:
  assumes "sys_run s is s'" and "sys_inv s"
  shows "sys_inv s' \<and> (\<forall>j. j \<notin> set is \<longrightarrow>
      mms s' j = mms s j \<and> content (proc_view s' j) = content (proc_view s j))"
  using assms
proof (induction rule: sys_run.induct)
  case (step s i s' "is" s'')
  note 1 = sys_step_spec [OF step.hyps(1) step.prems]
  show ?case using step.IH [OF 1(1)] 1(2) by auto
qed simp

section \<open>Properties\<close>

text \<open>
  C6. Isolation: whatever sequence of loads and library calls other processes make, in whatever
  order, with any registers, offsets and data, in RAM and in swap, a process that makes none finds
  the content of all its pages, its page table and its regions unchanged, and the invariant of the
  system holds throughout: no frame belongs to two processes or to a process and a free list.
\<close>

theorem memory_isolation:
  assumes "sys_inv s" and "sys_run s is s'" and "j \<notin> set is"
  shows "sys_inv s' \<and> mms s' j = mms s j \<and> content (proc_view s' j) = content (proc_view s j)"
  using sys_run_spec [OF assms(2,1)] assms(3) by blast

definition new_sys :: mem_sys where
  "new_sys = \<lparr>mms = [1 \<mapsto> init_mm, 2 \<mapsto> init_mm], ram = mram new_krnl, swp = active_mswp new_krnl\<rparr>"

lemma sys_inv_new: "sys_inv new_sys"
proof -
  have "sys_inv \<lparr>mms = (\<lambda>_. None), ram = mram new_krnl, swp = active_mswp new_krnl\<rparr>"
    using pg_invD [of init_mm new_krnl] vm_inv_new [unfolded vm_inv_def, THEN conjunct1]
    by (simp add: sys_inv_def)
  then have "sys_inv \<lparr>mms = [1 \<mapsto> init_mm], ram = mram new_krnl, swp = active_mswp new_krnl\<rparr>"
    by (rule new_step) simp
  then show ?thesis by (rule new_step) (simp add: new_sys_def)
qed

theorem memory_isolation_witness:
  "\<exists>s'. sys_run new_sys [1] s' \<and> content (proc_view s' 2) = content (proc_view new_sys 2)"
proof -
  have m: "mms new_sys 1 = Some init_mm" by (simp add: new_sys_def)
  have "room init_vma 300" "mmap init_mm = [init_vma]"
    by (simp_all add: room_def init_vma_def init_mm_def)
  then have ok: "call_ok init_mm (Alloc 300 1)" by simp
  obtain v where v: "vm_inv init_mm v (proc_view new_sys 1)"
    using sys_inv_new m unfolding sys_inv_def by blast
  obtain k' where k': "do_call (proc_view new_sys 1) (Alloc 300 1) = Inr k'"
    using do_call_spec [OF v ok] by (auto elim!: returnsE)
  obtain s' where "sys_run new_sys [1] s'" using sys_step.call [OF m ok k'] sys_run.intros by blast
  then show ?thesis using memory_isolation [OF sys_inv_new, of "[1]" s' 2] by auto
qed

end
