(* ===== verification/Kmem.thy ===== *)
theory Kmem
  imports Libmem
begin

text \<open>
  The kernel memory calls of \<^verbatim>\<open>src/libmem.c\<close>: allocation into a register of the process, and
  the two copy calls, whose loop is verified once for any pair of byte operations that keep their
  promises (\<open>byte_copy\<close>) and then used for both directions.
\<close>

section \<open>Copying byte by byte\<close>

text \<open>
  \<open>peek k x\<close> is the byte at place \<open>x\<close>, if it has been touched before. \<open>rd\<close> reads place \<open>from i\<close>
  and \<open>wr\<close> writes place \<open>to i\<close>; both keep the invariant and all other bytes, and fail only when
  the place is \<open>blocked\<close>, changing no byte.
\<close>

locale byte_copy =
  fixes rd :: "krnl_t \<Rightarrow> u32 \<Rightarrow> (byte option \<times> krnl_t) res"
    and wr :: "krnl_t \<Rightarrow> u32 \<Rightarrow> byte \<Rightarrow> (int \<times> krnl_t) res"
    and inv :: "krnl_t \<Rightarrow> bool"
    and peek :: "krnl_t \<Rightarrow> 'x \<Rightarrow> byte option"
    and blocked :: "krnl_t \<Rightarrow> 'x \<Rightarrow> bool"
    and n :: nat and src dst :: "nat \<Rightarrow> 'x"
  assumes rd: "inv k \<Longrightarrow> i < n \<Longrightarrow> returns (rd k (word_of_nat i)) (\<lambda>(r, k'). inv k'
      \<and> (\<forall>x. peek k x \<noteq> None \<longrightarrow> peek k' x = peek k x)
      \<and> (case r of None \<Rightarrow> blocked k (src i) \<and> peek k' = peek k | Some b \<Rightarrow> peek k' (src i) = Some b))"
    and wr: "inv k \<Longrightarrow> i < n \<Longrightarrow> returns (wr k (word_of_nat i) b) (\<lambda>(r, k'). inv k'
      \<and> (\<forall>x. x \<noteq> dst i \<longrightarrow> peek k x \<noteq> None \<longrightarrow> peek k' x = peek k x)
      \<and> (if r = 0 then peek k' (dst i) = Some b else blocked k (dst i) \<and> peek k' = peek k))"
    and apart: "inv k \<Longrightarrow> i < n \<Longrightarrow> j < n \<Longrightarrow> src i \<noteq> dst j \<and> (dst i = dst j \<longrightarrow> i = j)"
begin

text \<open>What a run of the loop from \<open>k\<close> to \<open>k'\<close> leaves when it copied the places from \<open>i\<close> up to \<open>c\<close>.\<close>

definition copied :: "krnl_t \<Rightarrow> nat \<Rightarrow> nat \<Rightarrow> krnl_t \<Rightarrow> bool" where
  "copied k i c k' \<longleftrightarrow> inv k' \<and> i \<le> c \<and> c \<le> n
     \<and> (\<forall>j. i \<le> j \<longrightarrow> j < c \<longrightarrow> (\<exists>b. peek k' (src j) = Some b \<and> peek k' (dst j) = Some b))
     \<and> (\<forall>x. x \<notin> dst ` {i..<c} \<longrightarrow> peek k x \<noteq> None \<longrightarrow> peek k' x = peek k x)"

definition stuck :: "nat \<Rightarrow> krnl_t \<Rightarrow> bool" where
  "stuck c k' \<longleftrightarrow> c < n \<and> (\<exists>k1. inv k1 \<and> peek k' = peek k1 \<and> (blocked k1 (src c) \<or> blocked k1 (dst c)))"

lemma copied_none:
  "inv k' \<Longrightarrow> i \<le> n \<Longrightarrow> (\<And>x. peek k x \<noteq> None \<Longrightarrow> peek k' x = peek k x) \<Longrightarrow> copied k i i k'"
  by (simp add: copied_def)

lemma copied_step:
  assumes inv: "inv k" "inv k2" and i: "i < n"
    and k2: "peek k2 (src i) = Some b" "peek k2 (dst i) = Some b"
      "\<And>x. x \<noteq> dst i \<Longrightarrow> peek k x \<noteq> None \<Longrightarrow> peek k2 x = peek k x"
    and rest: "copied k2 (Suc i) c k'"
  shows "copied k i c k'"
proof -
  have ne: "dst i \<noteq> dst x \<and> src i \<noteq> dst x" if "Suc i \<le> x" "x < c" for x
    using apart [OF inv(1) i, of x] that rest by (auto simp: copied_def)
  have out: "dst i \<notin> dst ` {Suc i..<c}" "src i \<notin> dst ` {Suc i..<c}"
    by (metis imageE atLeastLessThan_iff ne)+
  then have here: "peek k' (dst i) = Some b" "peek k' (src i) = Some b"
    using rest k2(1,2) by (simp_all add: copied_def)
  have "peek k' x = peek k x" if "x \<notin> dst ` {i..<c}" "peek k x \<noteq> None" for x
  proof -
    have "x \<noteq> dst i" "x \<notin> dst ` {Suc i..<c}" using that(1) rest by (auto simp: copied_def)
    then show ?thesis using rest k2(3) [of x] that(2) by (simp add: copied_def)
  qed
  moreover have "\<exists>b. peek k' (src j) = Some b \<and> peek k' (dst j) = Some b" if "i \<le> j" "j < c" for j
  proof (cases "j = i")
    case False
    then have "Suc i \<le> j" using that(1) by simp
    then show ?thesis using rest that(2) unfolding copied_def by blast
  qed (use here in simp)
  moreover have "inv k'" "i \<le> c" "c \<le> n" using rest by (simp_all add: copied_def)
  ultimately show ?thesis unfolding copied_def by blast
qed

lemma loop:
  "inv k \<Longrightarrow> i \<le> n \<Longrightarrow> returns (copy_loop rd wr k n i) (\<lambda>(r, k'). \<exists>c. copied k i c k'
     \<and> (r = 0 \<and> c = n \<or> r = -1 \<and> stuck c k'))"
proof (induction "n - i" arbitrary: k i)
  case 0
  then have "copied k i i k" by (intro copied_none) simp_all
  then show ?case using 0 by (auto simp: copy_loop.simps [of _ _ _ _ i])
next
  case (Suc l)
  then have i: "i < n" by simp
  obtain r1 k1 where r1: "rd k (word_of_nat i) = Inr (r1, k1)" "inv k1"
      "\<And>x. peek k x \<noteq> None \<Longrightarrow> peek k1 x = peek k x"
      "case r1 of None \<Rightarrow> blocked k (src i) \<and> peek k1 = peek k | Some b \<Rightarrow> peek k1 (src i) = Some b"
    using rd [OF Suc.prems(1) i] by (auto elim!: returnsE)
  show ?case
  proof (cases r1)
    case None
    have "copied k i i k1" "stuck i k1"
      using copied_none [OF r1(2) Suc.prems(2) r1(3)] r1(4) None i Suc.prems(1) by (auto simp: stuck_def)
    then show ?thesis using i r1(1) None by (auto simp: copy_loop.simps [of _ _ _ _ i])
  next
    case (Some b)
    obtain r2 k2 where r2: "wr k1 (word_of_nat i) b = Inr (r2, k2)" "inv k2"
        "\<And>x. x \<noteq> dst i \<Longrightarrow> peek k1 x \<noteq> None \<Longrightarrow> peek k2 x = peek k1 x"
        "if r2 = 0 then peek k2 (dst i) = Some b else blocked k1 (dst i) \<and> peek k2 = peek k1"
      using wr [OF r1(2) i, of b] by (auto elim!: returnsE)
    have src: "peek k1 (src i) = Some b" using r1(4) Some by simp
    show ?thesis
    proof (cases "r2 = 0")
      case False
      then have "copied k i i k2" "stuck i k2"
        using copied_none [OF r2(2) Suc.prems(2), of k] r1(2,3) r2(4) i by (auto simp: stuck_def)
      then show ?thesis using i r1(1) r2(1) Some False by (auto simp: copy_loop.simps [of _ _ _ _ i])
    next
      case True
      have "returns (copy_loop rd wr k2 n (i + 1)) (\<lambda>(r, k'). \<exists>c. copied k2 (i + 1) c k'
          \<and> (r = 0 \<and> c = n \<or> r = -1 \<and> stuck c k'))"
        by (rule Suc.hyps(1) [OF _ r2(2)]) (use Suc.hyps(2) i in simp_all)
      then obtain r c k' where l: "copy_loop rd wr k2 n (i + 1) = Inr (r, k')" "copied k2 (i + 1) c k'"
          "r = 0 \<and> c = n \<or> r = -1 \<and> stuck c k'"
        by (auto elim!: returnsE)
      have "copied k i c k'"
      proof (rule copied_step [OF Suc.prems(1) r2(2) i])
        show "peek k2 (src i) = Some b" using r2(3) src apart [OF r1(2) i i] by simp
        show "peek k2 x = peek k x" if "x \<noteq> dst i" "peek k x \<noteq> None" for x
          using that r1(3) r2(3) by (metis (no_types))
      qed (use l(2) True r2(4) in simp_all)
      moreover have "copy_loop rd wr k n i = Inr (r, k')"
        using i r1(1) r2(1) Some True l(1) by (simp add: copy_loop.simps [of _ _ _ _ i])
      ultimately show ?thesis using l(3) by auto
    qed
  qed
qed

end


section \<open>Copying between two variables\<close>

text \<open>
  The two directions of the copy differ in which side has the offset. Region \<open>s\<close> is read from
  \<open>os\<close> on and region \<open>d\<close> is written from \<open>od\<close> on; \<open>tbl\<close> is the table of regions, which
  does not change, and the \<open>n\<close> bytes lie inside both.
\<close>

definition copy_inv :: "vm_area_struct \<Rightarrow> vm_rg_struct list \<Rightarrow> nat \<Rightarrow> nat \<Rightarrow> nat \<Rightarrow> nat \<Rightarrow> nat \<Rightarrow> krnl_t \<Rightarrow> bool" where
  "copy_inv v tbl s sof d dof n k \<longleftrightarrow> s \<noteq> d
     \<and> (\<exists>m. vm_inv m v k \<and> symrgtbl m = tbl \<and> (\<forall>j < n. valid m s (sof + j) \<and> valid m d (dof + j)))"

definition place_byte :: "krnl_t \<Rightarrow> nat \<times> nat \<Rightarrow> byte option" where
  "place_byte k = (\<lambda>(i, j). case mm k of
     None \<Rightarrow> None | Some m \<Rightarrow> if valid m i j then var_byte m k i j else None)"

definition place_blocked :: "krnl_t \<Rightarrow> nat \<times> nat \<Rightarrow> bool" where
  "place_blocked k = (\<lambda>(i, j). case mm k of
     None \<Rightarrow> False | Some m \<Rightarrow> out_of_frames m k (var_addr m i j div 256))"

lemma place_byte_mm: "mm k = Some m \<Longrightarrow> place_byte k (i, j) = (if valid m i j then var_byte m k i j else None)"
  by (simp add: place_byte_def)

lemma valid_cong: "symrgtbl m' = symrgtbl m \<Longrightarrow> valid m' = valid m" "symrgtbl m' = symrgtbl m \<Longrightarrow> var_addr m' = var_addr m"
  by (simp_all add: valid_def var_addr_def fun_eq_iff)

text \<open>One access, in terms of places.\<close>

lemma accessed_places:
  assumes inv: "copy_inv v tbl s sof d dof n k" and vm: "vm_inv m v k" and val: "valid m i j"
    and acc: "accessed w m k (var_addr m i j div 256) (var_addr m i j mod 256) r k'"
  shows "copy_inv v tbl s sof d dof n k'"
    and "\<forall>x. \<not> (w \<and> x = (i, j)) \<longrightarrow> place_byte k x \<noteq> None \<longrightarrow> place_byte k' x = place_byte k x"
    and "case r of None \<Rightarrow> place_blocked k (i, j) \<and> place_byte k' = place_byte k
         | Some b \<Rightarrow> place_byte k' (i, j) = Some b"
proof -
  obtain m' where m': "keeps m k m' k'" "vm_inv m' v k'" "\<And>b. r = Some b \<Longrightarrow> var_byte m' k' i j = Some b"
      "\<And>i' j'. valid m i' j' \<Longrightarrow> var_byte m k i' j' \<noteq> None \<Longrightarrow> \<not> (w \<and> i' = i \<and> j' = j) \<or> r = None \<Longrightarrow>
         var_byte m' k' i' j' = var_byte m k i' j'"
    by (rule accessed_vars [OF vm val acc]) blast
  have sym: "symrgtbl m' = symrgtbl m" using m'(1) by (simp add: keeps_def same_areas_def)
  have mk: "mm k = Some m" "mm k' = Some m'" using vm m'(2) pg_invD(1) by (auto simp: vm_inv_def)
  have pb: "place_byte k' (i', j') = (if valid m i' j' then var_byte m' k' i' j' else None)" for i' j'
    using place_byte_mm [OF mk(2)] valid_cong(1) [OF sym] by simp
  show "copy_inv v tbl s sof d dof n k'"
  proof -
    obtain m0 where "vm_inv m0 v k" "symrgtbl m0 = tbl" "s \<noteq> d"
        "\<forall>j < n. valid m0 s (sof + j) \<and> valid m0 d (dof + j)"
      using inv by (auto simp: copy_inv_def)
    moreover from this(1) have "m0 = m" using mk(1) pg_invD(1) by (auto simp: vm_inv_def)
    ultimately show ?thesis using m'(2) sym valid_cong(1) [OF sym] unfolding copy_inv_def by auto
  qed
  show "\<forall>x. \<not> (w \<and> x = (i, j)) \<longrightarrow> place_byte k x \<noteq> None \<longrightarrow> place_byte k' x = place_byte k x"
  proof (intro allI impI)
    fix x assume x: "\<not> (w \<and> x = (i, j))" "place_byte k x \<noteq> None"
    obtain i' j' where "x = (i', j')" by (cases x)
    then show "place_byte k' x = place_byte k x"
      using x m'(4) [of i' j'] pb place_byte_mm [OF mk(1)] by (auto split: if_splits)
  qed
  show "case r of None \<Rightarrow> place_blocked k (i, j) \<and> place_byte k' = place_byte k
         | Some b \<Rightarrow> place_byte k' (i, j) = Some b"
  proof (cases r)
    case None
    have "content k' = content k" "out_of_frames m k (var_addr m i j div 256)"
      using acc None by (simp_all add: accessed_def)
    then have "place_byte k' x = place_byte k x" for x
      using pb place_byte_mm [OF mk(1)] valid_cong(2) [OF sym] by (cases x) (simp add: var_byte_def)
    then show ?thesis using None mk \<open>out_of_frames m k _\<close> by (simp add: place_blocked_def fun_eq_iff)
  qed (use m'(3) pb val in simp)
qed


lemma offset_32:
  fixes sof :: u32
  assumes vm: "vm_inv m v k" and val: "valid m i (unat sof + j)" and "j < 2 ^ 32"
  shows "unat (ucast (sof + word_of_nat j) :: addr) = unat sof + j"
proof -
  have "unat sof + j < 2 ^ 22" using valid_bound(2) [OF vm val] by (simp add: var_addr_def)
  moreover have "unat (word_of_nat j :: u32) = j" using assms(3) by (simp add: unat_of_nat)
  ultimately show ?thesis by (simp add: unat_add_no_wrap)
qed

lemma copy_read:
  fixes sof :: u32
  assumes inv: "copy_inv v tbl s (unat sof) d dof n k" and i: "i < n" "n < 2 ^ 32"
  shows "returns (read_region k 0 (int s) (ucast (sof + word_of_nat i))) (\<lambda>(r, k').
    copy_inv v tbl s (unat sof) d dof n k' \<and> (\<forall>x. place_byte k x \<noteq> None \<longrightarrow> place_byte k' x = place_byte k x)
    \<and> (case r of None \<Rightarrow> place_blocked k (s, unat sof + i) \<and> place_byte k' = place_byte k
       | Some b \<Rightarrow> place_byte k' (s, unat sof + i) = Some b))"
proof -
  obtain m where m: "vm_inv m v k" "valid m s (unat sof + i)"
    using inv i(1) by (auto simp: copy_inv_def)
  have u: "unat (ucast (sof + word_of_nat i) :: addr) = unat sof + i"
    by (rule offset_32 [OF m]) (use i in simp)
  have val: "valid m s (unat (ucast (sof + word_of_nat i) :: addr))" using m(2) by (simp only: u)
  note a = valid_addr [OF m(1) val, unfolded u]
  have "returns (read_region k 0 (int s) (ucast (sof + word_of_nat i))) (\<lambda>(d, k').
      accessed False m k (var_addr m s (unat sof + i) div 256) (var_addr m s (unat sof + i) mod 256) d k')"
    using read_region_spec [OF m(1) valid_30 [OF m] refl refl, of "ucast (sof + word_of_nat i)"] a by simp
  then obtain r k' where r: "read_region k 0 (int s) (ucast (sof + word_of_nat i)) = Inr (r, k')"
      "accessed False m k (var_addr m s (unat sof + i) div 256) (var_addr m s (unat sof + i) mod 256) r k'"
    by (auto elim!: returnsE)
  show ?thesis unfolding r(1) returns_simps prod.case
    using accessed_places [OF inv m r(2)] by simp
qed

lemma copy_write:
  fixes dof :: u32
  assumes inv: "copy_inv v tbl s sof d (unat dof) n k" and i: "i < n" "n < 2 ^ 32"
  shows "returns (write_region k 0 (int d) (ucast (dof + word_of_nat i)) b) (\<lambda>(r, k').
    copy_inv v tbl s sof d (unat dof) n k'
    \<and> (\<forall>x. x \<noteq> (d, unat dof + i) \<longrightarrow> place_byte k x \<noteq> None \<longrightarrow> place_byte k' x = place_byte k x)
    \<and> (if r = 0 then place_byte k' (d, unat dof + i) = Some b
       else place_blocked k (d, unat dof + i) \<and> place_byte k' = place_byte k))"
proof -
  obtain m where m: "vm_inv m v k" "valid m d (unat dof + i)"
    using inv i(1) by (auto simp: copy_inv_def)
  have u: "unat (ucast (dof + word_of_nat i) :: addr) = unat dof + i"
    by (rule offset_32 [OF m]) (use i in simp)
  have val: "valid m d (unat (ucast (dof + word_of_nat i) :: addr))" using m(2) by (simp only: u)
  note a = valid_addr [OF m(1) val, unfolded u]
  have "returns (write_region k 0 (int d) (ucast (dof + word_of_nat i)) b) (\<lambda>(ret, k').
      accessed True m k (var_addr m d (unat dof + i) div 256) (var_addr m d (unat dof + i) mod 256)
        (if ret = 0 then Some b else None) k' \<and> ret \<in> {0, -1})"
    using write_region_spec [OF m(1) valid_30 [OF m] refl refl, of "ucast (dof + word_of_nat i)" b] a by simp
  then obtain r k' where r: "write_region k 0 (int d) (ucast (dof + word_of_nat i)) b = Inr (r, k')"
      "accessed True m k (var_addr m d (unat dof + i) div 256) (var_addr m d (unat dof + i) mod 256)
        (if r = 0 then Some b else None) k'"
    by (auto elim!: returnsE)
  show ?thesis unfolding r(1) returns_simps prod.case
    using accessed_places [OF inv m r(2)] by (cases "r = 0") simp_all
qed

lemma copy_apart:
  "copy_inv v tbl s sof d dof n k \<Longrightarrow> (s, sof + i) \<noteq> (d, dof + j) \<and> ((d, dof + i) = (d, dof + j) \<longrightarrow> i = j)"
  by (simp add: copy_inv_def)


lemmas copy_read_0 = copy_read [where sof = 0, unfolded unsigned_0 add_0]
lemmas copy_write_0 = copy_write [where dof = 0, unfolded unsigned_0 add_0]

lemma size_32: "unat (sz :: u32) < 2 ^ 32"
  using unsigned_less [of sz] by simp

interpretation from_user: byte_copy
    "\<lambda>k i. read_user_mem k 0 (int s) (ucast (off + i))" "\<lambda>k i. write_kernel_mem k 0 (int d) (ucast i)"
    "copy_inv v tbl s (unat off) d 0 (unat sz)" place_byte place_blocked "unat sz"
    "\<lambda>i. (s, unat off + i)" "\<lambda>i. (d, i)"
  for v tbl s d and off sz :: u32
  unfolding read_user_mem_def write_kernel_mem_def
  by unfold_locales
    (erule copy_read copy_write_0, assumption, rule size_32 | drule copy_apart [where dof = 0], simp)+

interpretation to_user: byte_copy
    "\<lambda>k i. read_kernel_mem k 0 (int s) (ucast i)" "\<lambda>k i. write_user_mem k 0 (int d) (ucast (off + i))"
    "copy_inv v tbl s 0 d (unat off) (unat sz)" place_byte place_blocked "unat sz"
    "\<lambda>i. (s, i)" "\<lambda>i. (d, unat off + i)"
  for v tbl s d and off sz :: u32
  unfolding read_kernel_mem_def write_user_mem_def
  by unfold_locales
    (erule copy_read_0 copy_write, assumption, rule size_32 | drule copy_apart [where sof = 0], simp)+


text \<open>
  The result of a copy of \<open>n\<close> bytes of variable \<open>s\<close> from \<open>sof\<close> on to variable \<open>d\<close> from \<open>dof\<close>
  on: \<open>c\<close> bytes were copied, all of them when the call returns 0; the other bytes are as before.
  A call that returns -1 stopped at a page for which no frame could be had.
\<close>

definition moved :: "mm_struct \<Rightarrow> vm_area_struct \<Rightarrow> krnl_t \<Rightarrow> nat \<Rightarrow> nat \<Rightarrow> nat \<Rightarrow> nat \<Rightarrow> nat \<Rightarrow> int \<Rightarrow> krnl_t \<Rightarrow> bool" where
  "moved m v k s sof d dof n r k' \<longleftrightarrow> (\<exists>m' c. vm_inv m' v k' \<and> symrgtbl m' = symrgtbl m
     \<and> (r = 0 \<and> c = n \<or> r = -1 \<and> c < n \<and> (\<exists>m1 k1. vm_inv m1 v k1 \<and> symrgtbl m1 = symrgtbl m
          \<and> (out_of_frames m1 k1 (var_addr m s (sof + c) div 256)
             \<or> out_of_frames m1 k1 (var_addr m d (dof + c) div 256))))
     \<and> (\<forall>j < c. \<exists>b. var_byte m' k' s (sof + j) = Some b \<and> var_byte m' k' d (dof + j) = Some b)
     \<and> (\<forall>i j. valid m i j \<longrightarrow> \<not> (i = d \<and> dof \<le> j \<and> j < dof + c) \<longrightarrow> var_byte m k i j \<noteq> None \<longrightarrow>
          var_byte m' k' i j = var_byte m k i j))"

lemma movedI:
  assumes inv: "vm_inv m v k" and k': "copy_inv v (symrgtbl m) s sof d dof n k'"
    and stuck: "r = 0 \<and> c = n \<or> r = -1 \<and> c < n \<and> (\<exists>k1. copy_inv v (symrgtbl m) s sof d dof n k1
      \<and> (place_blocked k1 (s, sof + c) \<or> place_blocked k1 (d, dof + c)))"
    and eq: "\<And>j. j < c \<Longrightarrow> \<exists>b. place_byte k' (s, sof + j) = Some b \<and> place_byte k' (d, dof + j) = Some b"
    and fr: "\<And>x. x \<notin> (\<lambda>j. (d, dof + j)) ` {0..<c} \<Longrightarrow> place_byte k x \<noteq> None \<Longrightarrow> place_byte k' x = place_byte k x"
  shows "moved m v k s sof d dof n r k'"
proof -
  obtain m' where m': "vm_inv m' v k'" "symrgtbl m' = symrgtbl m" using k' by (auto simp: copy_inv_def)
  have mk: "mm k = Some m" "mm k' = Some m'" using inv m'(1) pg_invD(1) by (auto simp: vm_inv_def)
  note sym = valid_cong [OF m'(2)] and pb = place_byte_mm [OF mk(1)] place_byte_mm [OF mk(2)]
  have "r = 0 \<and> c = n \<or> r = -1 \<and> c < n \<and> (\<exists>m1 k1. vm_inv m1 v k1 \<and> symrgtbl m1 = symrgtbl m
      \<and> (out_of_frames m1 k1 (var_addr m s (sof + c) div 256)
         \<or> out_of_frames m1 k1 (var_addr m d (dof + c) div 256)))"
  proof (cases "r = 0 \<and> c = n")
    case False
    then obtain k1 where k1: "copy_inv v (symrgtbl m) s sof d dof n k1" "r = -1" "c < n"
      and b: "place_blocked k1 (s, sof + c) \<or> place_blocked k1 (d, dof + c)"
      using stuck by blast
    obtain m1 where m1: "vm_inv m1 v k1" "symrgtbl m1 = symrgtbl m" using k1 by (auto simp: copy_inv_def)
    moreover from this(1) have "mm k1 = Some m1" using pg_invD(1) by (auto simp: vm_inv_def)
    ultimately show ?thesis using b k1(2,3) valid_cong(2) [OF m1(2)] unfolding place_blocked_def by auto
  qed simp
  moreover have "\<exists>b. var_byte m' k' s (sof + j) = Some b \<and> var_byte m' k' d (dof + j) = Some b" if "j < c" for j
    using eq [OF that] pb by (simp split: if_splits)
  moreover have "var_byte m' k' i j = var_byte m k i j"
    if "valid m i j" "\<not> (i = d \<and> dof \<le> j \<and> j < dof + c)" "var_byte m k i j \<noteq> None" for i j
  proof -
    have "(i, j) \<notin> (\<lambda>j. (d, dof + j)) ` {0..<c}" using that(2) by auto
    then show ?thesis using fr [of "(i, j)"] that(1,3) pb sym(1) by simp
  qed
  ultimately show ?thesis unfolding moved_def using m' by blast
qed

text \<open>
  C14. \<open>libkmem_copy_from_user\<close> and \<open>libkmem_copy_to_user\<close> between two different variables, with the
  range inside both, have no fault. They copy the bytes in order and stop at the first byte whose
  page cannot be brought into RAM; every byte copied is in both variables afterwards, and all other
  bytes of all variables are as before.
\<close>

theorem copy_correct:
  assumes "vm_inv m v k" and "s < 30" and "d < 30" and "s \<noteq> d"
    and "\<forall>j < unat sz. valid m s (unat off + j) \<and> valid m d j"
  shows "returns (libkmem_copy_from_user k (word_of_nat s) (word_of_nat d) off sz)
      (\<lambda>(r, k'). moved m v k s (unat off) d 0 (unat sz) r k')
    \<and> returns (libkmem_copy_to_user k (word_of_nat d) (word_of_nat s) off sz)
      (\<lambda>(r, k'). moved m v k d 0 s (unat off) (unat sz) r k')"
proof -
  have c: "copy_inv v (symrgtbl m) s (unat off) d 0 (unat sz) k" "copy_inv v (symrgtbl m) d 0 s (unat off) (unat sz) k"
    using assms by (auto simp: copy_inv_def)
  obtain r k' n where f: "libkmem_copy_from_user k (word_of_nat s) (word_of_nat d) off sz = Inr (r, k')"
      "from_user.copied v (symrgtbl m) s off d sz k 0 n k'"
      "r = 0 \<and> n = unat sz \<or> r = -1 \<and> from_user.stuck v (symrgtbl m) s off d sz n k'"
    using from_user.loop [OF c(1) le0] assms(2,3) by (auto simp: libkmem_copy_from_user_def rgid_sint elim!: returnsE)
  have 1: "moved m v k s (unat off) d 0 (unat sz) r k'"
    by (rule movedI [OF assms(1), where c = n])
      (use f(2,3) in \<open>auto simp: from_user.copied_def from_user.stuck_def\<close>)
  obtain r2 k2 n2 where g: "libkmem_copy_to_user k (word_of_nat d) (word_of_nat s) off sz = Inr (r2, k2)"
      "to_user.copied v (symrgtbl m) d s off sz k 0 n2 k2"
      "r2 = 0 \<and> n2 = unat sz \<or> r2 = -1 \<and> to_user.stuck v (symrgtbl m) d s off sz n2 k2"
    using to_user.loop [OF c(2) le0] assms(2,3) by (auto simp: libkmem_copy_to_user_def rgid_sint elim!: returnsE)
  have 2: "moved m v k d 0 s (unat off) (unat sz) r2 k2"
    by (rule movedI [OF assms(1), where c = n2])
      (use g(2,3) in \<open>auto simp: to_user.copied_def to_user.stuck_def\<close>)
  show ?thesis using 1 2 by (simp add: f(1) g(1))
qed

theorem copy_correct_witness:
  "\<exists>m v k. returns (libkmem_copy_from_user k 1 2 50 200) (\<lambda>(r, k'). moved m v k 1 50 2 0 200 r k')"
proof -
  obtain m v k where s: "vm_inv m v k" "\<And>j. valid m 1 j \<longleftrightarrow> j < 300" "\<And>j. valid m 2 j \<longleftrightarrow> j < 300"
    by (rule two_variables) blast
  show ?thesis using copy_correct [OF s(1), of 1 2 200 50] s(2,3) by auto
qed

section \<open>Kernel allocation\<close>

text \<open>
  \<open>libkmem_malloc\<close> allocates region \<open>i\<close> and stores its address in register \<open>i\<close>. There are 30
  regions and ten registers: with a larger index the store is outside the array.
\<close>

lemma kmem_malloc_correct:
  assumes "vm_inv m v k" and "length rs = 10" and "i < 30" and "sz \<noteq> 0" and "room v (ucast sz)"
  shows "if i < 10
    then returns (libkmem_malloc rs k sz (word_of_nat i)) (\<lambda>(r, rs', k'). r = 0 \<and> (\<exists>m' v' a. vm_inv m' v' k'
       \<and> rs' = rs[i := a] \<and> rg_start (symrgtbl m' ! i) = a \<and> (\<forall>j. valid m' i j \<longleftrightarrow> j < unat sz)
       \<and> (\<forall>i' j'. i' \<noteq> i \<longrightarrow> valid m' i' j' = valid m i' j'
           \<and> (var_byte m k i' j' \<noteq> None \<longrightarrow> var_byte m' k' i' j' = var_byte m k i' j'))))
    else libkmem_malloc rs k sz (word_of_nat i) = Inl Out_Of_Bounds"
proof -
  have sz: "(ucast sz :: addr) \<noteq> 0" using assms(4) by (metis unat_ucast_32_64 unsigned_eq_0_iff)
  obtain a k' m' v' where a: "alloc_region k 0 (int i) (ucast sz) = Inr (Some a, k')"
      "allocated m v k i (ucast sz) a m' v' k'"
    using alloc_region_spec [OF assms(1,3) sz assms(5)] by (auto elim!: returnsE)
  have m': "vm_inv m' v' k'" and b: "unat a + unat sz \<le> unat (vm_end v')"
    and sym: "symrgtbl m' = (symrgtbl m)[i := (symrgtbl m ! i)\<lparr>rg_start := a, rg_end := a + ucast sz\<rparr>]"
    using a(2) by (simp_all add: allocated_def)
  have len: "i < length (symrgtbl m)" using assms(1,3) area_okD(5) [of m v] by (simp add: vm_inv_def)
  have "unat (vm_end v') \<le> 2 ^ 22" using m' area_okD(9) [of m' v'] by (simp add: vm_inv_def)
  then have "unat a < 2 ^ 23" using b by simp
  moreover have "unat (-1 :: addr) = 2 ^ 64 - 1" by (simp add: unsigned_minus_1_eq_mask mask_eq_exp_minus_1)
  ultimately have ne: "a \<noteq> -1" by auto
  have u: "unat (word_of_nat i :: u32) = i" using assms(3) by (simp add: unat_of_nat)
  have run: "libkmem_malloc rs k sz (word_of_nat i) = rbind (arr_set rs i a) (\<lambda>rs. Inr (0, rs, k'))"
    using assms(3,4) sz ne by (simp add: libkmem_malloc_def kmalloc_def rgid_sint a(1) u)
  show ?thesis
  proof (cases "i < 10")
    case True
    have "rg_start (symrgtbl m' ! i) = a" using sym len by simp
    then show ?thesis using True run assms(2) m' allocated_vars [OF a(2) assms(3,1)] by auto
  qed (use run assms(2) in simp)
qed

end
