(* ===== verification/Proc_Queue.thy ===== *)
theory Proc_Queue
  imports Os_Types
begin

text \<open>
  \<^verbatim>\<open>src/queue.c\<close>: a queue of at most 50 process pointers in an array with a fill count,
  refined to the list of its filled slots. The scheduler relies on it through the locales
  \<open>proc_pool\<close>, \<open>prio_pool\<close> and \<open>fifo_pool\<close>. A queue argument is the queue itself: the
  callers pass the addresses of static queues, so the tests \<open>q == NULL\<close> never fire.
\<close>

section \<open>The operations\<close>

definition MAX_QUEUE_SIZE :: nat where "MAX_QUEUE_SIZE = 50"

record queue_t =
  qproc :: "ptr list"
  qsize :: nat

definition empty :: "queue_t \<Rightarrow> bool" where
  "empty q \<longleftrightarrow> qsize q = 0"

definition enqueue :: "queue_t \<Rightarrow> ptr \<Rightarrow> queue_t res" where
  "enqueue q proc =
     (if proc = NULL then Inr q
      else if qsize q \<ge> MAX_QUEUE_SIZE then Inr q
      else rbind (arr_set (qproc q) (qsize q) proc)
             (\<lambda>a. Inr (q\<lparr>qproc := a, qsize := qsize q + 1\<rparr>)))"

text \<open>The search loop of \<open>dequeue\<close>, from index \<open>i\<close> with the best index so far.\<close>

function find_best :: "heap \<Rightarrow> ptr list \<Rightarrow> nat \<Rightarrow> nat \<Rightarrow> nat \<Rightarrow> nat res" where
  "find_best h a n best i =
     (if i < n then
        rbind (arr_get a i) (\<lambda>p. rbind (deref h p) (\<lambda>x.
        rbind (arr_get a best) (\<lambda>p'. rbind (deref h p') (\<lambda>y.
          find_best h a n (if priority x < priority y then i else best) (i + 1)))))
      else Inr best)"
  by pat_completeness auto
termination by (relation "measure (\<lambda>(h, a, n, best, i). n - i)") auto

text \<open>The loop that moves the slots after \<open>i\<close> one to the left.\<close>

function shift_left :: "ptr list \<Rightarrow> nat \<Rightarrow> nat \<Rightarrow> ptr list res" where
  "shift_left a i n =
     (if Suc i < n then
        rbind (arr_get a (Suc i)) (\<lambda>v. rbind (arr_set a i v) (\<lambda>a'. shift_left a' (Suc i) n))
      else Inr a)"
  by pat_completeness auto
termination by (relation "measure (\<lambda>(a, i, n). n - i)") auto

declare find_best.simps [simp del] shift_left.simps [simp del]

definition remove_slot :: "queue_t \<Rightarrow> nat \<Rightarrow> (ptr \<times> queue_t) res" where
  "remove_slot q i =
     rbind (arr_get (qproc q) i) (\<lambda>p.
     rbind (shift_left (qproc q) i (qsize q)) (\<lambda>a.
       Inr (p, q\<lparr>qproc := a, qsize := qsize q - 1\<rparr>)))"

definition dequeue :: "heap \<Rightarrow> queue_t \<Rightarrow> (ptr \<times> queue_t) res" where
  "dequeue h q =
     (if empty q then Inr (NULL, q)
      else rbind (find_best h (qproc q) (qsize q) 0 1) (\<lambda>best. remove_slot q best))"

definition dequeue_fifo :: "queue_t \<Rightarrow> (ptr \<times> queue_t) res" where
  "dequeue_fifo q = (if empty q then Inr (NULL, q) else remove_slot q 0)"

text \<open>The search loop of \<open>purgequeue\<close>, and the removal of what it finds.\<close>

function purge_from :: "queue_t \<Rightarrow> ptr \<Rightarrow> nat \<Rightarrow> (ptr \<times> queue_t) res" where
  "purge_from q proc i =
     (if i < qsize q then
        rbind (arr_get (qproc q) i) (\<lambda>p.
          if p = proc then remove_slot q i else purge_from q proc (Suc i))
      else Inr (NULL, q))"
  by pat_completeness auto
termination by (relation "measure (\<lambda>(q, proc, i). qsize q - i)") auto

declare purge_from.simps [simp del]

definition purgequeue :: "queue_t \<Rightarrow> ptr \<Rightarrow> (ptr \<times> queue_t) res" where
  "purgequeue q proc =
     (if empty q \<or> proc = NULL then Inr (NULL, q) else purge_from q proc 0)"

section \<open>Invariant and abstraction\<close>

definition q_inv :: "queue_t \<Rightarrow> bool" where
  "q_inv q \<longleftrightarrow> length (qproc q) = MAX_QUEUE_SIZE \<and> qsize q \<le> MAX_QUEUE_SIZE"

definition q_list :: "queue_t \<Rightarrow> ptr list" where
  "q_list q = take (qsize q) (qproc q)"

definition empty_queue :: queue_t where
  "empty_queue = \<lparr>qproc = replicate MAX_QUEUE_SIZE NULL, qsize = 0\<rparr>"

lemma length_q_list [simp]: "q_inv q \<Longrightarrow> length (q_list q) = qsize q"
  by (simp add: q_inv_def q_list_def)

lemma empty_iff: "q_inv q \<Longrightarrow> empty q \<longleftrightarrow> q_list q = []"
  by (auto simp: empty_def q_list_def q_inv_def MAX_QUEUE_SIZE_def)

lemma q_inv_empty_queue [simp]: "q_inv empty_queue" "q_list empty_queue = []"
  by (simp_all add: q_inv_def q_list_def empty_queue_def)

lemma shift_left_eq:
  "i < n \<Longrightarrow> n \<le> length a \<Longrightarrow>
     shift_left a i n = Inr (take i a @ drop (Suc i) (take n a) @ drop (n - 1) a)"
proof (induction a i n rule: shift_left.induct)
  case (1 a i n)
  show ?case
  proof (cases "Suc i < n")
    case True
    with "1" have "shift_left a i n = shift_left (a[i := a ! Suc i]) (Suc i) n"
      by (simp add: shift_left.simps [of a i n])
    also have "\<dots> = Inr (take (Suc i) (a[i := a ! Suc i])
        @ drop (Suc (Suc i)) (take n (a[i := a ! Suc i])) @ drop (n - 1) (a[i := a ! Suc i]))"
      using "1" True by simp
    also have "\<dots> = Inr (take i a @ drop (Suc i) (take n a) @ drop (n - 1) a)"
    proof -
      have "drop (Suc i) (take n a) = a ! Suc i # drop (Suc (Suc i)) (take n a)"
        using True "1.prems" by (simp flip: Cons_nth_drop_Suc)
      moreover have "take (Suc i) (a[i := a ! Suc i]) = take i a @ [a ! Suc i]"
        using True "1.prems" by (simp add: take_Suc_conv_app_nth)
      ultimately show ?thesis using True by (simp add: take_update_swap)
    qed
    finally show ?thesis .
  next
    case False
    with "1.prems" have "n = Suc i" by simp
    with "1.prems" show ?thesis by (subst shift_left.simps) simp
  qed
qed

lemma remove_slot_returns:
  assumes "q_inv q" and "i < qsize q"
  shows "returns (remove_slot q i) (\<lambda>(p, q'). q_inv q' \<and> p = q_list q ! i
           \<and> q_list q' = drop_nth i (q_list q))"
proof -
  have "i = qsize q - 1" if "qsize q - 1 \<le> i" using assms(2) that by simp
  then show ?thesis using assms
    by (auto simp: remove_slot_def shift_left_eq q_inv_def q_list_def drop_nth_def min_def)
qed

lemma enqueue_returns:
  assumes "q_inv q" and "p \<noteq> NULL"
  shows "returns (enqueue q p) (\<lambda>q'. q_inv q' \<and>
     q_list q' = (if length (q_list q) < MAX_QUEUE_SIZE then q_list q @ [p] else q_list q))"
  using assms by (auto simp: enqueue_def q_inv_def q_list_def take_Suc_conv_app_nth not_le)

text \<open>
  The index that \<open>dequeue\<close> serves: the first one among those of least \<open>priority\<close> value.
\<close>

definition first_min :: "heap \<Rightarrow> ptr list \<Rightarrow> nat \<Rightarrow> bool" where
  "first_min h ps i \<longleftrightarrow> i < length ps
     \<and> (\<forall>j < length ps. priority (the (h (ps ! i))) \<le> priority (the (h (ps ! j))))
     \<and> (\<forall>j < i. priority (the (h (ps ! i))) < priority (the (h (ps ! j))))"

lemma first_min_unique: "first_min h ps i \<Longrightarrow> first_min h ps j \<Longrightarrow> i = j"
  by (metis first_min_def leD linorder_neqE_nat)

lemma first_min_extend:
  assumes "first_min h (take i ps) b" and "i < length ps"
  shows "first_min h (take (Suc i) ps)
     (if priority (the (h (ps ! i))) < priority (the (h (ps ! b))) then i else b)"
  using assms unfolding first_min_def
  by (auto simp: less_Suc_eq take_Suc_conv_app_nth nth_append min_def dest: order_less_le_trans)

lemma find_best_returns:
  assumes "live h (take n a)" and "n \<le> length a"
  shows "first_min h (take i (take n a)) b \<Longrightarrow> i \<le> n \<Longrightarrow>
    returns (find_best h a n b i) (first_min h (take n a))"
  using assms
proof (induction h a n b i rule: find_best.induct)
  case (1 h a n b i)
  show ?case
  proof (cases "i < n")
    case False
    with "1.prems" show ?thesis by (subst find_best.simps) simp
  next
    case True
    have b: "b < i" using "1.prems"(1,2) by (simp add: first_min_def)
    let ?b' = "if priority (the (h (a ! i))) < priority (the (h (a ! b))) then i else b"
    have di: "deref h (a ! i) = Inr (the (h (a ! i)))"
      and db: "deref h (a ! b) = Inr (the (h (a ! b)))"
      using live_deref [OF "1.prems"(3), of i] live_deref [OF "1.prems"(3), of b] True b "1.prems"(4)
      by simp_all
    have "first_min h (take (Suc i) (take n a)) ?b'"
      using first_min_extend [OF "1.prems"(1)] True "1.prems"(4) b by simp
    then have "returns (find_best h a n ?b' (i + 1)) (first_min h (take n a))"
      using "1.IH" [of "a ! i" "the (h (a ! i))" "a ! b" "the (h (a ! b))"] True b "1.prems" di db
      by simp
    then show ?thesis using True b "1.prems"(4) di db
      by (simp add: find_best.simps [of h a n b i])
  qed
qed

lemma dequeue_returns:
  assumes "q_inv q" and "live h (q_list q)" and "q_list q \<noteq> []"
  shows "returns (dequeue h q) (\<lambda>(p, q'). q_inv q' \<and>
    (\<exists>i. first_min h (q_list q) i \<and> p = q_list q ! i \<and> q_list q' = drop_nth i (q_list q)))"
proof -
  from assms have n: "0 < qsize q" "qsize q \<le> length (qproc q)"
    by (auto simp: q_list_def q_inv_def)
  have "first_min h (take 1 (q_list q)) 0" using n by (simp add: first_min_def q_list_def)
  then have "returns (find_best h (qproc q) (qsize q) 0 1) (first_min h (q_list q))"
    using find_best_returns [of h "qsize q" "qproc q" 1 0] assms(2) n by (simp add: q_list_def)
  then obtain i where i: "find_best h (qproc q) (qsize q) 0 1 = Inr i" "first_min h (q_list q) i"
    by (rule returnsE)
  then have "i < qsize q" using assms(1) by (simp add: first_min_def)
  from remove_slot_returns [OF assms(1) this] i n show ?thesis
    by (auto simp: dequeue_def empty_def)
qed

lemma dequeue_fifo_returns:
  assumes "q_inv q" and "q_list q \<noteq> []"
  shows "returns (dequeue_fifo q)
    (\<lambda>(p, q'). q_inv q' \<and> p = hd (q_list q) \<and> q_list q' = tl (q_list q))"
proof -
  from assms have "0 < qsize q" by (auto simp: q_list_def)
  from remove_slot_returns [OF assms(1) this] this assms(2) show ?thesis
    by (auto simp: dequeue_fifo_def empty_def drop_nth_def hd_conv_nth drop_Suc)
qed

lemma purge_from_returns:
  assumes "q_inv q"
  shows "p \<notin> set (take i (q_list q)) \<Longrightarrow>
    returns (purge_from q p i) (\<lambda>(r, q'). q_inv q' \<and> q_list q' = remove1 p (q_list q)
      \<and> r = (if p \<in> set (q_list q) then p else NULL))"
  using assms
proof (induction q p i rule: purge_from.induct)
  case (1 q p i)
  show ?case
  proof (cases "i < qsize q")
    case False
    with "1.prems" have "p \<notin> set (q_list q)" by simp
    with False "1.prems" show ?thesis by (simp add: purge_from.simps [of q p i] remove1_idem)
  next
    case True
    then have len: "i < length (qproc q)" and qi: "q_list q ! i = qproc q ! i"
      using "1.prems"(2) by (auto simp: q_inv_def q_list_def)
    show ?thesis
    proof (cases "qproc q ! i = p")
      case [simp]: True
      have split: "q_list q = take i (q_list q) @ p # drop (Suc i) (q_list q)"
        using \<open>i < qsize q\<close> "1.prems"(2) qi by (metis True id_take_nth_drop length_q_list)
      then have "remove1 p (q_list q) = drop_nth i (q_list q)"
        using "1.prems"(1) by (metis drop_nth_def remove1.simps(2) remove1_append)
      moreover have "p \<in> set (q_list q)" using split by (metis in_set_conv_decomp)
      ultimately show ?thesis
        using remove_slot_returns [OF "1.prems"(2) \<open>i < qsize q\<close>] \<open>i < qsize q\<close> len qi
        by (auto simp: purge_from.simps [of q p i] elim!: returns_mono)
    next
      case False
      have "p \<notin> set (take (Suc i) (q_list q))"
        using "1.prems" False True qi by (simp add: take_Suc_conv_app_nth)
      then have "returns (purge_from q p (Suc i)) (\<lambda>(r, q'). q_inv q'
          \<and> q_list q' = remove1 p (q_list q) \<and> r = (if p \<in> set (q_list q) then p else NULL))"
        using "1.IH" [of "qproc q ! i"] True False "1.prems" len by simp
      then show ?thesis using False True len by (simp add: purge_from.simps [of q p i])
    qed
  qed
qed

lemma purgequeue_returns:
  assumes "q_inv q" and "p \<noteq> NULL"
  shows "returns (purgequeue q p) (\<lambda>(r, q'). q_inv q' \<and> q_list q' = remove1 p (q_list q)
      \<and> r = (if p \<in> set (q_list q) then p else NULL))"
  using assms purge_from_returns [OF assms(1), of p 0]
  by (auto simp: purgequeue_def empty_iff)

section \<open>The interface the scheduler relies on\<close>

text \<open>
  A pool of process pointers: what can be put in comes out once, in some order. \<open>lst\<close> is the
  content in arrival order; a full pool drops what is put in.
\<close>

locale proc_pool =
  fixes enq :: "'q \<Rightarrow> ptr \<Rightarrow> 'q res"
    and deq :: "heap \<Rightarrow> 'q \<Rightarrow> (ptr \<times> 'q) res"
    and purge :: "'q \<Rightarrow> ptr \<Rightarrow> (ptr \<times> 'q) res"
    and inv :: "'q \<Rightarrow> bool"
    and lst :: "'q \<Rightarrow> ptr list"
    and cap :: nat
  assumes enq: "inv q \<Longrightarrow> p \<noteq> NULL \<Longrightarrow> returns (enq q p) (\<lambda>q'. inv q' \<and>
      lst q' = (if length (lst q) < cap then lst q @ [p] else lst q))"
    and deq_none: "inv q \<Longrightarrow> lst q = [] \<Longrightarrow> deq h q = Inr (NULL, q)"
    and deq_some: "inv q \<Longrightarrow> live h (lst q) \<Longrightarrow> lst q \<noteq> [] \<Longrightarrow>
      returns (deq h q) (\<lambda>(p, q'). inv q' \<and>
        (\<exists>i < length (lst q). p = lst q ! i \<and> lst q' = drop_nth i (lst q)))"
    and purge: "inv q \<Longrightarrow> p \<noteq> NULL \<Longrightarrow> returns (purge q p) (\<lambda>(r, q'). inv q' \<and>
      lst q' = remove1 p (lst q) \<and> r = (if p \<in> set (lst q) then p else NULL))"
begin

lemma enq_mset:
  assumes "inv q" and "p \<noteq> NULL" and "length (lst q) < cap"
  shows "returns (enq q p) (\<lambda>q'. inv q' \<and> mset (lst q') = add_mset p (mset (lst q)))"
  using enq [OF assms(1,2)] by (rule returns_mono) (use assms(3) in auto)

lemma deq_mset:
  assumes "inv q" and "live h (lst q)" and "lst q \<noteq> []"
  shows "returns (deq h q) (\<lambda>(p, q'). inv q' \<and> p \<noteq> NULL \<and> h p \<noteq> None
     \<and> mset (lst q) = add_mset p (mset (lst q')))"
  using deq_some [OF assms]
proof (rule returns_mono)
  fix x assume "case x of (p, q') \<Rightarrow> inv q' \<and>
      (\<exists>i < length (lst q). p = lst q ! i \<and> lst q' = drop_nth i (lst q))"
  then obtain i where "inv (snd x)" "i < length (lst q)" "fst x = lst q ! i"
    "lst (snd x) = drop_nth i (lst q)" by (cases x) auto
  then show "case x of (p, q') \<Rightarrow> inv q' \<and> p \<noteq> NULL \<and> h p \<noteq> None
      \<and> mset (lst q) = add_mset p (mset (lst q'))"
    using live_nth [OF assms(2)] add_mset_drop_nth [of i "lst q"]
    by (cases x) (auto simp: live_def)
qed

text \<open>Moving the served process to another pool with room keeps the content of the two.\<close>

lemma move_mset:
  assumes "inv q" "inv r" and "live h (lst q)" and "lst q \<noteq> []" and "length (lst r) < cap"
  shows "returns (rbind (deq h q) (\<lambda>(p, q'). rbind (enq r p) (\<lambda>r'. Inr (p, q', r'))))
     (\<lambda>(p, q', r'). inv q' \<and> inv r' \<and> p \<noteq> NULL \<and> p \<in># mset (lst r')
        \<and> mset (lst q') + mset (lst r') = mset (lst q) + mset (lst r))"
proof -
  obtain p q' where d: "deq h q = Inr (p, q')" and d': "inv q'" "p \<noteq> NULL"
      "mset (lst q) = add_mset p (mset (lst q'))"
    using deq_mset [OF assms(1,3,4)] by (auto elim: returnsE)
  obtain r' where e: "enq r p = Inr r'" "inv r'" "mset (lst r') = add_mset p (mset (lst r))"
    using enq_mset [OF assms(2) d'(2) assms(5)] by (auto elim: returnsE)
  have "p \<in> set (lst r')" using e(3) by (metis set_mset_mset union_single_eq_member)
  with d d' e show ?thesis by simp
qed

text \<open>Taking a pointer out of one pool and putting it in another one with room.\<close>

lemma purge_enq_mset:
  assumes "inv q" "inv r" and "p \<noteq> NULL" and "length (lst r) < cap"
  shows "returns (rbind (purge q p) (\<lambda>(_, q'). rbind (enq r p) (\<lambda>r'. Inr (q', r'))))
     (\<lambda>(q', r'). inv q' \<and> inv r' \<and> mset (lst q') = mset (lst q) - {#p#}
        \<and> mset (lst r') = add_mset p (mset (lst r)))"
proof -
  obtain x q' where d: "purge q p = Inr (x, q')" "inv q'" "lst q' = remove1 p (lst q)"
    using purge [OF assms(1,3)] by (auto elim: returnsE)
  obtain r' where e: "enq r p = Inr r'" "inv r'" "mset (lst r') = add_mset p (mset (lst r))"
    using enq_mset [OF assms(2,3,4)] by (auto elim: returnsE)
  from d e show ?thesis by simp
qed

lemma live_enq:
  assumes "inv q" and "p \<noteq> NULL" and "h p \<noteq> None" and "live h (lst q)"
  shows "returns (enq q p) (\<lambda>q'. inv q' \<and> live h (lst q'))"
  using enq [OF assms(1,2)] by (rule returns_mono) (use assms in auto)

end

text \<open>The two service orders: by least \<open>priority\<close> value, first come first among equals; and FIFO.\<close>

locale prio_pool = proc_pool +
  assumes deq_first_min: "inv q \<Longrightarrow> live h (lst q) \<Longrightarrow> lst q \<noteq> [] \<Longrightarrow>
      returns (deq h q) (\<lambda>(p, q'). inv q' \<and>
        (\<exists>i. first_min h (lst q) i \<and> p = lst q ! i \<and> lst q' = drop_nth i (lst q)))"
begin

text \<open>Nothing that stays in the pool has a smaller \<open>priority\<close> value than what was served.\<close>

lemma deq_least:
  assumes "inv q" and "live h (lst q)" and "lst q \<noteq> []"
  shows "returns (deq h q) (\<lambda>(p, q'). \<forall>p' \<in> set (lst q').
           priority (the (h p)) \<le> priority (the (h p')))"
  using deq_first_min [OF assms]
proof (rule returns_mono)
  fix x assume "case x of (p, q') \<Rightarrow> inv q' \<and>
        (\<exists>i. first_min h (lst q) i \<and> p = lst q ! i \<and> lst q' = drop_nth i (lst q))"
  then obtain p q' i where x: "x = (p, q')" and i: "first_min h (lst q) i" "p = lst q ! i"
      "lst q' = drop_nth i (lst q)"
    by (cases x) auto
  have "priority (the (h p)) \<le> priority (the (h p'))" if "p' \<in> set (lst q')" for p'
  proof -
    have "p' \<in> set (lst q)" using that i(3) set_drop_nth_subset [of i "lst q"] by auto
    then obtain j where "j < length (lst q)" "p' = lst q ! j" by (auto simp: in_set_conv_nth)
    then show ?thesis using i(1,2) by (simp add: first_min_def)
  qed
  with x show "case x of (p, q') \<Rightarrow> \<forall>p' \<in> set (lst q').
           priority (the (h p)) \<le> priority (the (h p'))" by simp
qed

end

locale fifo_pool = proc_pool +
  assumes deq_hd: "inv q \<Longrightarrow> lst q \<noteq> [] \<Longrightarrow>
      returns (deq h q) (\<lambda>(p, q'). inv q' \<and> p = hd (lst q) \<and> lst q' = tl (lst q))"
begin

lemma enq_deq_order:
  assumes "inv q" and "lst q \<noteq> []" and "p \<noteq> NULL" and "length (lst q) < cap"
  shows "returns (rbind (enq q p) (deq h)) (\<lambda>(x, q'). x = hd (lst q) \<and> lst q' = tl (lst q) @ [p])"
proof -
  obtain q' where "enq q p = Inr q'" "inv q'" "lst q' = lst q @ [p]"
    using enq [OF assms(1,3)] assms(4) by (auto elim: returnsE)
  with deq_hd [of q' h] assms(2) show ?thesis by (auto elim!: returns_mono)
qed

end

section \<open>The array queue provides it\<close>

interpretation pq: prio_pool enqueue dequeue purgequeue q_inv q_list MAX_QUEUE_SIZE
proof unfold_locales
  fix q p h
  assume q: "q_inv q"
  show "p \<noteq> NULL \<Longrightarrow> returns (enqueue q p) (\<lambda>q'. q_inv q' \<and> q_list q' =
      (if length (q_list q) < MAX_QUEUE_SIZE then q_list q @ [p] else q_list q))"
    by (rule enqueue_returns [OF q])
  show "q_list q = [] \<Longrightarrow> dequeue h q = Inr (NULL, q)"
    using q by (simp add: dequeue_def empty_iff)
  show "live h (q_list q) \<Longrightarrow> q_list q \<noteq> [] \<Longrightarrow> returns (dequeue h q) (\<lambda>(p, q'). q_inv q' \<and>
        (\<exists>i < length (q_list q). p = q_list q ! i \<and> q_list q' = drop_nth i (q_list q)))"
    using dequeue_returns [OF q] by (rule returns_mono) (auto simp: first_min_def)
  show "p \<noteq> NULL \<Longrightarrow> returns (purgequeue q p) (\<lambda>(r, q'). q_inv q' \<and>
      q_list q' = remove1 p (q_list q) \<and> r = (if p \<in> set (q_list q) then p else NULL))"
    by (rule purgequeue_returns [OF q])
  show "live h (q_list q) \<Longrightarrow> q_list q \<noteq> [] \<Longrightarrow> returns (dequeue h q) (\<lambda>(p, q'). q_inv q' \<and>
        (\<exists>i. first_min h (q_list q) i \<and> p = q_list q ! i \<and> q_list q' = drop_nth i (q_list q)))"
    by (rule dequeue_returns [OF q])
qed

interpretation fq: fifo_pool enqueue "\<lambda>_. dequeue_fifo" purgequeue q_inv q_list MAX_QUEUE_SIZE
proof unfold_locales
  fix q
  assume q: "q_inv q"
  show "q_list q = [] \<Longrightarrow> dequeue_fifo q = Inr (NULL, q)"
    using q by (simp add: dequeue_fifo_def empty_iff)
  show "q_list q \<noteq> [] \<Longrightarrow> returns (dequeue_fifo q) (\<lambda>(p, q'). q_inv q' \<and>
        (\<exists>i < length (q_list q). p = q_list q ! i \<and> q_list q' = drop_nth i (q_list q)))"
    using dequeue_fifo_returns [OF q]
    by (rule returns_mono) (auto simp: hd_conv_nth drop_nth_def drop_Suc)
  show "q_list q \<noteq> [] \<Longrightarrow> returns (dequeue_fifo q)
      (\<lambda>(p, q'). q_inv q' \<and> p = hd (q_list q) \<and> q_list q' = tl (q_list q))"
    by (rule dequeue_fifo_returns [OF q])
qed (rule enqueue_returns purgequeue_returns; assumption)+

section \<open>Properties\<close>

definition sample_queue :: queue_t where
  "sample_queue = \<lparr>qproc = [4, 8, 6] @ replicate 47 NULL, qsize = 3\<rparr>"

definition sample_heap :: heap where
  "sample_heap = [4 \<mapsto> sample_pcb 1 20 0, 8 \<mapsto> sample_pcb 2 7 0, 6 \<mapsto> sample_pcb 3 7 0]"

lemma sample_queue_facts: "q_inv sample_queue" "q_list sample_queue = [4, 8, 6]"
    "live sample_heap [4, 8, 6]"
  by (simp_all add: q_inv_def q_list_def sample_queue_def MAX_QUEUE_SIZE_def sample_heap_def)

text \<open>
  C30. \<open>dequeue\<close> on a queue of live processes has no fault. From an empty queue it returns
  \<open>NULL\<close> and changes nothing; otherwise it removes exactly the first of the processes of least
  \<open>priority\<close> value and keeps the others in arrival order.
\<close>

theorem dequeue_correct:
  assumes "q_inv q" and "live h (q_list q)"
  shows "returns (dequeue h q) (\<lambda>(p, q').
     if q_list q = [] then p = NULL \<and> q' = q
     else q_inv q' \<and> (\<exists>i. first_min h (q_list q) i \<and> p = q_list q ! i
            \<and> q_list q' = drop_nth i (q_list q)))"
proof (cases "q_list q = []")
  case True
  then show ?thesis using pq.deq_none [OF assms(1)] by simp
next
  case False
  then show ?thesis using pq.deq_first_min [OF assms False] by simp
qed

theorem dequeue_correct_witness:
  "\<exists>q'. dequeue sample_heap sample_queue = Inr (8, q') \<and> q_list q' = [4, 6]"
proof -
  have "first_min sample_heap [4, 8, 6] 1"
    by (auto simp: first_min_def less_Suc_eq sample_heap_def sample_pcb_def)
  moreover have "returns (dequeue sample_heap sample_queue) (\<lambda>(p, q'). q_inv q' \<and>
      (\<exists>i. first_min sample_heap [4, 8, 6] i \<and> p = [4, 8, 6] ! i
            \<and> q_list q' = drop_nth i [4, 8, 6]))"
    using dequeue_correct [OF sample_queue_facts(1), unfolded sample_queue_facts(2),
        OF sample_queue_facts(3)] by simp
  ultimately show ?thesis
    by (auto elim!: returnsE dest: first_min_unique simp: drop_nth_def)
qed

text \<open>
  C32. The array operations refine list operations: \<open>enqueue\<close> appends unless 50 processes wait
  already, in which case the process is dropped; \<open>purgequeue\<close> removes the first occurrence of a
  pointer and says whether there was one; \<open>dequeue_fifo\<close> removes the head.
\<close>

theorem queue_refines_list:
  assumes "q_inv q" and "p \<noteq> NULL"
  shows "returns (enqueue q p) (\<lambda>q'. q_inv q' \<and>
      q_list q' = (if length (q_list q) < 50 then q_list q @ [p] else q_list q))
   \<and> returns (purgequeue q p) (\<lambda>(r, q'). q_inv q' \<and> q_list q' = remove1 p (q_list q)
        \<and> r = (if p \<in> set (q_list q) then p else NULL))
   \<and> returns (dequeue_fifo q) (\<lambda>(r, q'). q_inv q' \<and> q_list q' = tl (q_list q)
        \<and> r = (if q_list q = [] then NULL else hd (q_list q)))"
proof -
  have "returns (dequeue_fifo q) (\<lambda>(r, q'). q_inv q' \<and> q_list q' = tl (q_list q)
        \<and> r = (if q_list q = [] then NULL else hd (q_list q)))"
  proof (cases "q_list q = []")
    case True
    then show ?thesis using fq.deq_none [OF assms(1) True] assms(1) by simp
  next
    case False
    then show ?thesis using fq.deq_hd [OF assms(1) False] by (auto elim!: returns_mono)
  qed
  then show ?thesis using pq.enq [OF assms] pq.purge [OF assms] by (simp add: MAX_QUEUE_SIZE_def)
qed

theorem queue_refines_list_witness:
  "returns (enqueue sample_queue 9) (\<lambda>q'. q_list q' = [4, 8, 6, 9])
   \<and> returns (purgequeue sample_queue 9) (\<lambda>(r, q'). q_list q' = [4, 8, 6] \<and> r = NULL)
   \<and> returns (dequeue_fifo sample_queue) (\<lambda>(r, q'). q_list q' = [8, 6] \<and> r = 4)"
  using queue_refines_list [of sample_queue 9]
  by (auto simp: sample_queue_facts elim!: returns_mono)

end
