(* ===== verification/Sched.thy ===== *)
theory Sched
  imports Proc_Queue
begin

text \<open>
  \<^verbatim>\<open>src/sched.c\<close> with \<open>MLQ_SCHED\<close>: one ready queue per priority level, served in cyclic
  order with a budget of \<open>MAX_PRIO - prio\<close> turns per level, and the list of running processes.
  Each operation runs under \<open>queue_lock\<close>, so one call is one step.
\<close>

section \<open>State and operations\<close>

definition MAX_PRIO :: nat where "MAX_PRIO = 140"

text \<open>
  The file's static variables; \<open>curr_prio\<close> and \<open>curr_slot\<close> are the static locals of
  \<open>get_mlq_proc\<close>.
\<close>

record sched_t =
  mlq_ready_queue :: "queue_t list"
  slot :: "int list"
  ready_queue :: queue_t
  run_queue :: queue_t
  running_list :: queue_t
  curr_prio :: nat
  curr_slot :: int

text \<open>The value of the static variables before \<open>main\<close>.\<close>

definition static_sched :: sched_t where
  "static_sched = \<lparr>mlq_ready_queue = replicate MAX_PRIO empty_queue, slot = replicate MAX_PRIO 0,
     ready_queue = empty_queue, run_queue = empty_queue, running_list = empty_queue,
     curr_prio = 0, curr_slot = int MAX_PRIO\<rparr>"

definition queue_empty :: "sched_t \<Rightarrow> int" where
  "queue_empty s =
     (if list_ex (\<lambda>prio. \<not> empty (mlq_ready_queue s ! prio)) [0..<MAX_PRIO] then -1
      else if empty (ready_queue s) \<and> empty (run_queue s) then 1 else 0)"

definition init_scheduler :: "sched_t \<Rightarrow> sched_t" where
  "init_scheduler s = s\<lparr>mlq_ready_queue := map (\<lambda>q. q\<lparr>qsize := 0\<rparr>) (mlq_ready_queue s),
     slot := map (\<lambda>i. int MAX_PRIO - int i) [0..<MAX_PRIO],
     ready_queue := (ready_queue s)\<lparr>qsize := 0\<rparr>,
     run_queue := (run_queue s)\<lparr>qsize := 0\<rparr>,
     running_list := (running_list s)\<lparr>qsize := 0\<rparr>\<rparr>"

definition finish_scheduler :: "sched_t \<Rightarrow> sched_t" where
  "finish_scheduler s = s\<lparr>mlq_ready_queue := map (\<lambda>q. q\<lparr>qsize := 0\<rparr>) (mlq_ready_queue s),
     ready_queue := (ready_queue s)\<lparr>qsize := 0\<rparr>,
     run_queue := (run_queue s)\<lparr>qsize := 0\<rparr>,
     running_list := (running_list s)\<lparr>qsize := 0\<rparr>\<rparr>"

text \<open>The cursor moves to the next level with a full budget.\<close>

definition next_level :: "sched_t \<Rightarrow> sched_t" where
  "next_level s = (let p = (curr_prio s + 1) mod MAX_PRIO
     in s\<lparr>curr_prio := p, curr_slot := int MAX_PRIO - int p\<rparr>)"

text \<open>The loop of \<open>get_mlq_proc\<close>.\<close>

function mlq_loop :: "heap \<Rightarrow> sched_t \<Rightarrow> nat \<Rightarrow> (ptr \<times> sched_t) res" where
  "mlq_loop h s checked =
     (if checked < MAX_PRIO then
        rbind (arr_get (mlq_ready_queue s) (curr_prio s)) (\<lambda>q.
          if \<not> empty q \<and> curr_slot s > 0 then
            rbind (dequeue h q) (\<lambda>(proc, q').
              let s1 = s\<lparr>mlq_ready_queue := (mlq_ready_queue s)[curr_prio s := q'],
                         curr_slot := curr_slot s - 1\<rparr>
              in Inr (proc, if curr_slot s1 = 0 then next_level s1 else s1))
          else mlq_loop h (next_level s) (checked + 1))
      else Inr (NULL, s))"
  by pat_completeness auto
termination by (relation "measure (\<lambda>(h, s, c). MAX_PRIO - c)") auto

declare mlq_loop.simps [simp del]

definition get_mlq_proc :: "heap \<Rightarrow> sched_t \<Rightarrow> (ptr \<times> sched_t) res" where
  "get_mlq_proc h s =
     rbind (mlq_loop h s 0) (\<lambda>(proc, s).
       if proc \<noteq> NULL
       then rbind (enqueue (running_list s) proc) (\<lambda>r. Inr (proc, s\<lparr>running_list := r\<rparr>))
       else Inr (proc, s))"

text \<open>The test of \<open>prio\<close> and the setting of the \<open>krnl\<close> pointers, at the start of both.\<close>

definition admit_block :: "pcb_t \<Rightarrow> pcb_t" where
  "admit_block x =
     (if unat (prio x) \<ge> MAX_PRIO then x\<lparr>prio := 0\<rparr> else x)\<lparr>krnl_queues := True\<rparr>"

definition admit :: "heap \<Rightarrow> ptr \<Rightarrow> (pcb_t \<times> heap) res" where
  "admit h proc = rbind (deref h proc) (\<lambda>x. Inr (admit_block x, h(proc \<mapsto> admit_block x)))"

definition put_mlq_proc :: "heap \<Rightarrow> sched_t \<Rightarrow> ptr \<Rightarrow> (heap \<times> sched_t) res" where
  "put_mlq_proc h s proc =
     rbind (admit h proc) (\<lambda>(x, h).
     rbind (purgequeue (running_list s) proc) (\<lambda>(_, r).
     rbind (arr_get (mlq_ready_queue s) (unat (prio x))) (\<lambda>q.
     rbind (enqueue q proc) (\<lambda>q'.
       Inr (h, s\<lparr>running_list := r,
                 mlq_ready_queue := (mlq_ready_queue s)[unat (prio x) := q']\<rparr>)))))"

definition add_mlq_proc :: "heap \<Rightarrow> sched_t \<Rightarrow> ptr \<Rightarrow> (heap \<times> sched_t) res" where
  "add_mlq_proc h s proc =
     rbind (admit h proc) (\<lambda>(x, h).
     rbind (arr_get (mlq_ready_queue s) (unat (prio x))) (\<lambda>q.
     rbind (enqueue q proc) (\<lambda>q'.
       Inr (h, s\<lparr>mlq_ready_queue := (mlq_ready_queue s)[unat (prio x) := q']\<rparr>))))"

definition finish_mlq_proc :: "sched_t \<Rightarrow> ptr \<Rightarrow> sched_t res" where
  "finish_mlq_proc s proc =
     rbind (purgequeue (running_list s) proc) (\<lambda>(_, r). Inr (s\<lparr>running_list := r\<rparr>))"

definition get_proc :: "heap \<Rightarrow> sched_t \<Rightarrow> (ptr \<times> sched_t) res" where
  "get_proc h s = get_mlq_proc h s"

definition put_proc :: "heap \<Rightarrow> sched_t \<Rightarrow> ptr \<Rightarrow> (heap \<times> sched_t) res" where
  "put_proc h s proc = put_mlq_proc h s proc"

definition add_proc :: "heap \<Rightarrow> sched_t \<Rightarrow> ptr \<Rightarrow> (heap \<times> sched_t) res" where
  "add_proc h s proc = add_mlq_proc h s proc"

definition finish_proc :: "sched_t \<Rightarrow> ptr \<Rightarrow> sched_t res" where
  "finish_proc s proc = finish_mlq_proc s proc"

section \<open>Invariant\<close>

text \<open>The content of the ready queue of a level, and of all of them.\<close>

definition level :: "sched_t \<Rightarrow> nat \<Rightarrow> ptr list" where
  "level s l = q_list (mlq_ready_queue s ! l)"

definition all_ready :: "sched_t \<Rightarrow> ptr multiset" where
  "all_ready s = (\<Sum>l < MAX_PRIO. mset (level s l))"

definition cursor_ok :: "sched_t \<Rightarrow> bool" where
  "cursor_ok s \<longleftrightarrow> curr_prio s < MAX_PRIO \<and> 0 < curr_slot s
     \<and> curr_slot s \<le> int MAX_PRIO - int (curr_prio s)"

definition queues_ok :: "sched_t \<Rightarrow> bool" where
  "queues_ok s \<longleftrightarrow> length (mlq_ready_queue s) = MAX_PRIO \<and> (\<forall>q \<in> set (mlq_ready_queue s). q_inv q)
     \<and> q_inv (ready_queue s) \<and> q_inv (run_queue s) \<and> q_inv (running_list s)"

text \<open>
  Every queued pointer is live and its process is queued at the level of its \<open>prio\<close>.
\<close>

definition levels_ok :: "heap \<Rightarrow> sched_t \<Rightarrow> bool" where
  "levels_ok h s \<longleftrightarrow> (\<forall>l < MAX_PRIO. live h (level s l)
     \<and> (\<forall>p \<in> set (level s l). unat (prio (the (h p))) = l))"

definition sched_inv :: "heap \<Rightarrow> sched_t \<Rightarrow> bool" where
  "sched_inv h s \<longleftrightarrow> queues_ok s \<and> cursor_ok s \<and> levels_ok h s \<and> live h (q_list (running_list s))"

lemma queues_ok_nth: "queues_ok s \<Longrightarrow> l < MAX_PRIO \<Longrightarrow> q_inv (mlq_ready_queue s ! l)"
  by (simp add: queues_ok_def)

lemma empty_level: "queues_ok s \<Longrightarrow> l < MAX_PRIO \<Longrightarrow>
    empty (mlq_ready_queue s ! l) \<longleftrightarrow> level s l = []"
  by (simp add: level_def empty_iff queues_ok_nth)

lemma MAX_PRIO_pos [simp]: "0 < MAX_PRIO" "MAX_PRIO \<noteq> 0" by (simp_all add: MAX_PRIO_def)

lemma next_level_sel [simp]:
  "mlq_ready_queue (next_level s) = mlq_ready_queue s" "running_list (next_level s) = running_list s"
  "ready_queue (next_level s) = ready_queue s" "run_queue (next_level s) = run_queue s"
  "curr_prio (next_level s) = (curr_prio s + 1) mod MAX_PRIO"
  "curr_slot (next_level s) = int MAX_PRIO - int ((curr_prio s + 1) mod MAX_PRIO)"
  "level (next_level s) = level s"
  by (simp_all add: next_level_def Let_def level_def fun_eq_iff)

lemma cursor_ok_next_level [simp]: "cursor_ok (next_level s)"
  by (simp add: cursor_ok_def)

lemma queues_ok_next_level [simp]: "queues_ok (next_level s) \<longleftrightarrow> queues_ok s"
  by (simp add: queues_ok_def)

section \<open>Where \<open>get_mlq_proc\<close> stops\<close>

lemma funpow_next_level [simp]:
  "mlq_ready_queue ((next_level ^^ k) s) = mlq_ready_queue s"
  "running_list ((next_level ^^ k) s) = running_list s"
  "ready_queue ((next_level ^^ k) s) = ready_queue s"
  "run_queue ((next_level ^^ k) s) = run_queue s"
  "level ((next_level ^^ k) s) = level s"
  by (induction k) simp_all

lemma curr_prio_funpow:
  "curr_prio s < MAX_PRIO \<Longrightarrow> curr_prio ((next_level ^^ k) s) = (curr_prio s + k) mod MAX_PRIO"
  by (induction k) (simp_all add: mod_Suc_eq)

lemma curr_slot_funpow:
  "curr_prio s < MAX_PRIO \<Longrightarrow> curr_slot ((next_level ^^ k) s) =
     (if k = 0 then curr_slot s else int MAX_PRIO - int ((curr_prio s + k) mod MAX_PRIO))"
  by (cases k) (simp_all add: curr_prio_funpow mod_Suc_eq)

lemma mlq_loop_skip:
  assumes "queues_ok s" and "curr_prio s < MAX_PRIO"
    and "\<And>i. i < k \<Longrightarrow> level s ((curr_prio s + i) mod MAX_PRIO) = []" and "c + k \<le> MAX_PRIO"
  shows "mlq_loop h s c = mlq_loop h ((next_level ^^ k) s) (c + k)"
  using assms
proof (induction k arbitrary: s c)
  case 0
  then show ?case by simp
next
  case (Suc k)
  from Suc.prems(3) [of 0] Suc.prems(2) have "level s (curr_prio s) = []" by simp
  then have "empty (mlq_ready_queue s ! curr_prio s)"
    using Suc.prems(1,2) by (simp add: empty_level)
  then have "mlq_loop h s c = mlq_loop h (next_level s) (Suc c)"
    using Suc.prems(1,2,4) by (simp add: mlq_loop.simps [of h s c] queues_ok_def)
  also have "\<dots> = mlq_loop h ((next_level ^^ k) (next_level s)) (Suc c + k)"
  proof (rule Suc.IH)
    fix i assume "i < k"
    with Suc.prems(3) [of "Suc i"]
    show "level (next_level s) ((curr_prio (next_level s) + i) mod MAX_PRIO) = []"
      by (simp add: mod_add_left_eq)
  qed (use Suc.prems in simp_all)
  finally show ?case by (simp add: funpow_swap1)
qed

text \<open>The state after a process was taken from the current level.\<close>

definition after_serve :: "sched_t \<Rightarrow> queue_t \<Rightarrow> sched_t" where
  "after_serve s q' =
     (let s1 = s\<lparr>mlq_ready_queue := (mlq_ready_queue s)[curr_prio s := q'],
                 curr_slot := curr_slot s - 1\<rparr>
      in if curr_slot s1 = 0 then next_level s1 else s1)"

lemma after_serve_sel [simp]:
  "mlq_ready_queue (after_serve s q') = (mlq_ready_queue s)[curr_prio s := q']"
  "running_list (after_serve s q') = running_list s"
  "ready_queue (after_serve s q') = ready_queue s" "run_queue (after_serve s q') = run_queue s"
  by (simp_all add: after_serve_def Let_def)

lemma level_after_serve:
  assumes "queues_ok s" "curr_prio s < MAX_PRIO"
  shows "level (after_serve s q') m = (if m = curr_prio s then q_list q' else level s m)"
  using assms by (simp add: level_def queues_ok_def nth_list_update)

lemma cursor_ok_after_serve: "cursor_ok s \<Longrightarrow> cursor_ok (after_serve s q')"
  by (auto simp: after_serve_def Let_def) (auto simp: cursor_ok_def)

lemma mlq_loop_serve:
  assumes "queues_ok s" and "cursor_ok s" and "c < MAX_PRIO"
    and "level s (curr_prio s) \<noteq> []" and "live h (level s (curr_prio s))"
  shows "returns (mlq_loop h s c) (\<lambda>(p, s'). \<exists>i q'. first_min h (level s (curr_prio s)) i
     \<and> p = level s (curr_prio s) ! i \<and> q_inv q' \<and> q_list q' = drop_nth i (level s (curr_prio s))
     \<and> s' = after_serve s q')"
proof -
  let ?q = "mlq_ready_queue s ! curr_prio s"
  have c: "curr_prio s < MAX_PRIO" "0 < curr_slot s" using assms(2) by (auto simp: cursor_ok_def)
  have q: "q_inv ?q" using queues_ok_nth [OF assms(1) c(1)] .
  have "returns (dequeue h ?q) (\<lambda>(p, q'). q_inv q' \<and>
      (\<exists>i. first_min h (q_list ?q) i \<and> p = q_list ?q ! i \<and> q_list q' = drop_nth i (q_list ?q)))"
    using assms(4,5) by (intro pq.deq_first_min [OF q]) (simp_all add: level_def)
  then obtain p q' i where "dequeue h ?q = Inr (p, q')" "q_inv q'" "first_min h (q_list ?q) i"
      "p = q_list ?q ! i" "q_list q' = drop_nth i (q_list ?q)"
    by (auto elim!: returnsE)
  moreover have "\<not> empty ?q" using assms(1,4) c(1) by (simp add: empty_level)
  ultimately show ?thesis
    using assms(1,3) c by (auto simp: mlq_loop.simps [of h s c] queues_ok_def level_def
        after_serve_def Let_def)
qed

text \<open>
  The specification of one call: the first non-empty level at or after the cursor is served by
  its first process of least \<open>priority\<close> value, or every level is empty.
\<close>

definition first_level :: "sched_t \<Rightarrow> nat option" where
  "first_level s = find (\<lambda>k. level s ((curr_prio s + k) mod MAX_PRIO) \<noteq> []) [0..<MAX_PRIO]"

lemma first_level_Some:
  "first_level s = Some k \<longleftrightarrow> k < MAX_PRIO \<and> level s ((curr_prio s + k) mod MAX_PRIO) \<noteq> []
     \<and> (\<forall>i < k. level s ((curr_prio s + i) mod MAX_PRIO) = [])"
  by (auto simp: first_level_def find_Some_iff)

lemma first_level_None:
  assumes "curr_prio s < MAX_PRIO"
  shows "first_level s = None \<longleftrightarrow> (\<forall>l < MAX_PRIO. level s l = [])"
proof
  assume *: "first_level s = None"
  show "\<forall>l < MAX_PRIO. level s l = []"
  proof (intro allI impI)
    fix l assume "l < MAX_PRIO"
    define k where "k = (l + (MAX_PRIO - curr_prio s)) mod MAX_PRIO"
    have "(curr_prio s + k) mod MAX_PRIO = (curr_prio s + (l + (MAX_PRIO - curr_prio s))) mod MAX_PRIO"
      by (simp add: k_def mod_add_right_eq)
    also have "curr_prio s + (l + (MAX_PRIO - curr_prio s)) = l + MAX_PRIO" using assms by simp
    finally have "(curr_prio s + k) mod MAX_PRIO = l" using \<open>l < MAX_PRIO\<close> by simp
    moreover have "k < MAX_PRIO" by (simp add: k_def)
    ultimately show "level s l = []" using * by (auto simp: first_level_def find_None_iff)
  qed
qed (auto simp: first_level_def find_None_iff)

lemma mlq_loop_none:
  assumes "queues_ok s" and "curr_prio s < MAX_PRIO" and "first_level s = None"
  shows "mlq_loop h s 0 = Inr (NULL, (next_level ^^ MAX_PRIO) s)"
proof -
  have "mlq_loop h s 0 = mlq_loop h ((next_level ^^ MAX_PRIO) s) (0 + MAX_PRIO)"
    using assms by (intro mlq_loop_skip) (simp_all add: first_level_None)
  then show ?thesis by (simp add: mlq_loop.simps [of h _ MAX_PRIO])
qed

lemma mlq_loop_some:
  assumes "queues_ok s" and "cursor_ok s" and "levels_ok h s" and "first_level s = Some k"
  defines "l \<equiv> (curr_prio s + k) mod MAX_PRIO"
  shows "returns (mlq_loop h s 0) (\<lambda>(p, s'). \<exists>i q'. first_min h (level s l) i
     \<and> p = level s l ! i \<and> q_inv q' \<and> q_list q' = drop_nth i (level s l)
     \<and> s' = after_serve ((next_level ^^ k) s) q')"
proof -
  let ?s = "(next_level ^^ k) s"
  have c: "curr_prio s < MAX_PRIO" using assms(2) by (simp add: cursor_ok_def)
  have k: "k < MAX_PRIO" "level s l \<noteq> []" "\<forall>i < k. level s ((curr_prio s + i) mod MAX_PRIO) = []"
    using assms(4) by (auto simp: first_level_Some l_def)
  have cp: "curr_prio ?s = l" using c by (simp add: curr_prio_funpow l_def)
  have "cursor_ok ?s" using assms(2) by (cases k) simp_all
  moreover have "queues_ok ?s" using assms(1) by (simp add: queues_ok_def)
  moreover have "l < MAX_PRIO" by (simp add: l_def)
  ultimately have "returns (mlq_loop h ?s k) (\<lambda>(p, s'). \<exists>i q'. first_min h (level s l) i
     \<and> p = level s l ! i \<and> q_inv q' \<and> q_list q' = drop_nth i (level s l) \<and> s' = after_serve ?s q')"
    using mlq_loop_serve [of ?s k h] k assms(3) cp by (simp add: levels_ok_def)
  moreover have "mlq_loop h s 0 = mlq_loop h ?s (0 + k)"
    using k c assms(1) by (intro mlq_loop_skip) simp_all
  ultimately show ?thesis by simp
qed

section \<open>The operations keep the invariant\<close>

lemma all_ready_update:
  assumes "l < MAX_PRIO" and "\<And>m. m < MAX_PRIO \<Longrightarrow> m \<noteq> l \<Longrightarrow> level s' m = level s m"
  shows "all_ready s' + mset (level s l) = all_ready s + mset (level s' l)"
proof -
  have "(\<Sum>m \<in> {..<MAX_PRIO} - {l}. mset (level s' m)) = (\<Sum>m \<in> {..<MAX_PRIO} - {l}. mset (level s m))"
    using assms(2) by (intro sum.cong) auto
  then show ?thesis
    using assms(1) by (simp add: all_ready_def sum.remove [of "{..<MAX_PRIO}" l] union_ac)
qed

lemma all_ready_empty: "all_ready s = {#} \<longleftrightarrow> (\<forall>l < MAX_PRIO. level s l = [])"
  by (auto simp: all_ready_def sum_eq_empty_iff)

text \<open>What a call that finds a process does: \<open>k\<close> levels are skipped, level \<open>l\<close> is served.\<close>

definition served :: "heap \<Rightarrow> sched_t \<Rightarrow> nat \<Rightarrow> ptr \<Rightarrow> sched_t \<Rightarrow> bool" where
  "served h s k p s' \<longleftrightarrow> (\<exists>i q' r'.
     let l = (curr_prio s + k) mod MAX_PRIO in
     first_min h (level s l) i \<and> p = level s l ! i
     \<and> q_inv q' \<and> q_list q' = drop_nth i (level s l)
     \<and> q_inv r' \<and> q_list r' = (if length (q_list (running_list s)) < MAX_QUEUE_SIZE
                                then q_list (running_list s) @ [p] else q_list (running_list s))
     \<and> s' = (after_serve ((next_level ^^ k) s) q')\<lparr>running_list := r'\<rparr>)"

lemma get_none:
  assumes "queues_ok s" and "curr_prio s < MAX_PRIO" and "first_level s = None"
  shows "get_mlq_proc h s = Inr (NULL, (next_level ^^ MAX_PRIO) s)"
  using mlq_loop_none [OF assms] by (simp add: get_mlq_proc_def)

lemma get_some:
  assumes "sched_inv h s" and "first_level s = Some k"
  shows "returns (get_mlq_proc h s) (\<lambda>(p, s'). p \<noteq> NULL \<and> h p \<noteq> None \<and> served h s k p s')"
proof -
  let ?l = "(curr_prio s + k) mod MAX_PRIO"
  have inv: "queues_ok s" "cursor_ok s" "levels_ok h s" using assms(1) by (auto simp: sched_inv_def)
  obtain p s1 i q' where m: "mlq_loop h s 0 = Inr (p, s1)" "first_min h (level s ?l) i"
      "p = level s ?l ! i" "q_inv q'" "q_list q' = drop_nth i (level s ?l)"
      "s1 = after_serve ((next_level ^^ k) s) q'"
    using mlq_loop_some [OF inv assms(2)] by (auto elim!: returnsE)
  have "i < length (level s ?l)" using m(2) by (simp add: first_min_def)
  then have p: "p \<noteq> NULL" "h p \<noteq> None"
    using live_nth [of h "level s ?l" i] inv(3) m(3) by (auto simp: levels_ok_def)
  have "q_inv (running_list s)" using inv(1) by (simp add: queues_ok_def)
  then obtain r' where "enqueue (running_list s) p = Inr r'" "q_inv r'"
      "q_list r' = (if length (q_list (running_list s)) < MAX_QUEUE_SIZE
                    then q_list (running_list s) @ [p] else q_list (running_list s))"
    using pq.enq [OF _ p(1)] by (blast elim!: returnsE)
  then have "served h s k p (s1\<lparr>running_list := r'\<rparr>)"
    unfolding served_def Let_def using m
    by (intro exI [of _ i] exI [of _ q'] exI [of _ r']) simp
  with m(1,6) p \<open>enqueue (running_list s) p = Inr r'\<close> show ?thesis by (simp add: get_mlq_proc_def)
qed

lemma level_running [simp]: "level (s\<lparr>running_list := r\<rparr>) = level s"
  by (simp add: level_def fun_eq_iff)

lemma cursor_ok_running [simp]: "cursor_ok (s\<lparr>running_list := r\<rparr>) \<longleftrightarrow> cursor_ok s"
  by (simp add: cursor_ok_def)

lemma served_level:
  assumes "served h s k p s'" and "queues_ok s" and "curr_prio s < MAX_PRIO"
  defines "l \<equiv> (curr_prio s + k) mod MAX_PRIO"
  shows "\<exists>i. first_min h (level s l) i \<and> p = level s l ! i
     \<and> level s' = (level s)(l := drop_nth i (level s l))"
proof -
  have "curr_prio ((next_level ^^ k) s) = l" "l < MAX_PRIO"
    using assms(3) by (simp_all add: curr_prio_funpow l_def)
  moreover have "queues_ok ((next_level ^^ k) s)" using assms(2) by (simp add: queues_ok_def)
  ultimately show ?thesis using assms(1)
    by (auto simp: served_def Let_def l_def fun_eq_iff level_after_serve)
qed

lemma served_inv:
  assumes "sched_inv h s" and "served h s k p s'"
  shows "sched_inv h s' \<and> all_ready s = add_mset p (all_ready s')
     \<and> unat (prio (the (h p))) = (curr_prio s + k) mod MAX_PRIO"
proof -
  define l where "l = (curr_prio s + k) mod MAX_PRIO"
  have inv: "queues_ok s" "cursor_ok s" "levels_ok h s" "live h (q_list (running_list s))"
    using assms(1) by (auto simp: sched_inv_def)
  then have c: "curr_prio s < MAX_PRIO" and l: "l < MAX_PRIO"
    by (simp_all add: cursor_ok_def l_def)
  obtain i where i: "first_min h (level s l) i" "p = level s l ! i"
      "level s' = (level s)(l := drop_nth i (level s l))"
    using served_level [OF assms(2) inv(1) c] by (auto simp: l_def)
  then have il: "i < length (level s l)" by (simp add: first_min_def)
  then have p: "p \<in> set (level s l)" "p \<noteq> NULL" "h p \<noteq> None" "unat (prio (the (h p))) = l"
    using i(2) inv(3) l live_nth [of h "level s l" i] by (auto simp: levels_ok_def)
  have "levels_ok h s'"
    using inv(3) set_drop_nth_subset [of i "level s l"] live_subset [of h "level s l"]
    unfolding levels_ok_def i(3) by (auto split: if_splits)
  moreover have "cursor_ok ((next_level ^^ k) s)" using inv(2) by (cases k) simp_all
  then have "cursor_ok s'"
    using assms(2) by (auto simp: served_def Let_def cursor_ok_after_serve)
  moreover have "queues_ok s' \<and> live h (q_list (running_list s'))"
  proof -
    obtain q' r' where "q_inv q'" "q_inv r'"
        "q_list r' = (if length (q_list (running_list s)) < MAX_QUEUE_SIZE
           then q_list (running_list s) @ [p] else q_list (running_list s))"
        "s' = (after_serve ((next_level ^^ k) s) q')\<lparr>running_list := r'\<rparr>"
      using assms(2) by (auto simp: served_def Let_def)
    moreover have "q_inv q''" if "q'' \<in> set ((mlq_ready_queue s)[j := q'])" for q'' j
      using that set_update_subset_insert [of "mlq_ready_queue s" j q'] \<open>q_inv q'\<close> inv(1)
      by (auto simp: queues_ok_def)
    ultimately show ?thesis using inv(1,4) p(2,3) by (simp add: queues_ok_def)
  qed
  moreover have "all_ready s = add_mset p (all_ready s')"
  proof -
    have "mset (level s l) = add_mset p (mset (level s' l))"
      using i il by (simp add: add_mset_drop_nth)
    then have "add_mset p (all_ready s') + mset (level s' l) = all_ready s + mset (level s' l)"
      using all_ready_update [OF l, of s' s] i(3) by simp
    then show ?thesis by (simp only: add_right_cancel)
  qed
  ultimately show ?thesis using p(4) by (simp add: sched_inv_def l_def)
qed

lemma none_inv: "sched_inv h s \<Longrightarrow> sched_inv h ((next_level ^^ MAX_PRIO) s)"
proof -
  assume s: "sched_inv h s"
  have "cursor_ok ((next_level ^^ k) s)" if "0 < k" for k using that by (cases k) simp_all
  then have "cursor_ok ((next_level ^^ MAX_PRIO) s)" by simp
  with s show ?thesis by (simp add: sched_inv_def queues_ok_def levels_ok_def)
qed

text \<open>The level a process is queued at: its \<open>prio\<close>, or 0 if that is out of range.\<close>

definition level_of :: "heap \<Rightarrow> ptr \<Rightarrow> nat" where
  "level_of h p = (let l = unat (prio (the (h p))) in if l < MAX_PRIO then l else 0)"

lemma level_of_less [simp]: "level_of h p < MAX_PRIO"
  by (simp add: level_of_def Let_def)

lemma admit_block_sel [simp]:
  "pid (admit_block x) = pid x" "priority (admit_block x) = priority x"
  "code (admit_block x) = code x" "regs (admit_block x) = regs x" "pc (admit_block x) = pc x"
  "krnl_mm (admit_block x) = krnl_mm x" "krnl_queues (admit_block x)"
  "unat (prio (admit_block x)) = (if unat (prio x) < MAX_PRIO then unat (prio x) else 0)"
  by (simp_all add: admit_block_def)

lemma admit_returns:
  assumes "p \<noteq> NULL" and "h p \<noteq> None" and "levels_ok h s"
  defines "x \<equiv> admit_block (the (h p))"
  shows "admit h p = Inr (x, h(p \<mapsto> x)) \<and> unat (prio x) = level_of h p
     \<and> levels_ok (h(p \<mapsto> x)) s"
proof -
  obtain y where y: "h p = Some y" using assms(2) by auto
  have lev: "unat (prio y) = l" if "p \<in> set (level s l)" and "l < MAX_PRIO" for l
    using assms(3) y that by (metis levels_ok_def option.sel)
  have "levels_ok (h(p \<mapsto> x)) s"
    using assms(1,3) y lev unfolding levels_ok_def live_def x_def by (auto; blast)
  then show ?thesis using assms(1) y by (simp add: admit_def x_def level_of_def)
qed

lemma levels_ok_enqueue:
  assumes "levels_ok h s" and "p \<noteq> NULL" and "h p \<noteq> None" and "unat (prio (the (h p))) = l"
    and "level s' = (level s)(l := ys)" and "set ys \<subseteq> insert p (set (level s l))"
  shows "levels_ok h s'"
  using assms unfolding levels_ok_def live_def by (auto split: if_splits)

definition appended :: "ptr list \<Rightarrow> ptr \<Rightarrow> ptr list" where
  "appended ps p = (if length ps < MAX_QUEUE_SIZE then ps @ [p] else ps)"

lemma add_returns:
  assumes "sched_inv h s" and "p \<noteq> NULL" and "h p \<noteq> None"
  shows "returns (add_proc h s p) (\<lambda>(h', s'). sched_inv h' s' \<and> running_list s' = running_list s
     \<and> level s' = (level s)(level_of h p := appended (level s (level_of h p)) p)
     \<and> curr_prio s' = curr_prio s \<and> curr_slot s' = curr_slot s
     \<and> h' = h(p \<mapsto> admit_block (the (h p))))"
proof -
  have inv: "queues_ok s" "cursor_ok s" "levels_ok h s" "live h (q_list (running_list s))"
    using assms(1) by (auto simp: sched_inv_def)
  let ?l = "level_of h p"
  define x where "x = admit_block (the (h p))"
  have a: "admit h p = Inr (x, h(p \<mapsto> x))" "unat (prio x) = ?l" "levels_ok (h(p \<mapsto> x)) s"
    using admit_returns [OF assms(2,3) inv(3)] by (simp_all add: x_def)
  have q: "q_inv (mlq_ready_queue s ! ?l)" by (rule queues_ok_nth [OF inv(1)]) simp
  obtain q' where e: "enqueue (mlq_ready_queue s ! ?l) p = Inr q'" "q_inv q'"
      "q_list q' = appended (level s ?l) p"
    using pq.enq [OF q assms(2)] by (auto elim!: returnsE simp: appended_def level_def)
  let ?s' = "s\<lparr>mlq_ready_queue := (mlq_ready_queue s)[?l := q']\<rparr>"
  have lev: "level ?s' = (level s)(?l := appended (level s ?l) p)"
    using inv(1) e(3) by (auto simp: level_def fun_eq_iff nth_list_update queues_ok_def)
  have "levels_ok (h(p \<mapsto> x)) ?s'"
    by (rule levels_ok_enqueue [OF a(3) assms(2) _ _ lev]) (auto simp: a(2) appended_def)
  moreover have "queues_ok ?s'"
    using inv(1) e(2) by (auto simp: queues_ok_def dest!: set_update_subset_insert [THEN subsetD])
  moreover have "live (h(p \<mapsto> x)) (q_list (running_list s))" using inv(4) by (auto simp: live_def)
  ultimately have "sched_inv (h(p \<mapsto> x)) ?s'"
    using inv(2) by (simp add: sched_inv_def cursor_ok_def)
  moreover have "add_proc h s p = Inr (h(p \<mapsto> x), ?s')"
    using a e(1) inv(1) by (simp add: add_proc_def add_mlq_proc_def queues_ok_def)
  ultimately show ?thesis using lev by (simp add: x_def)
qed

lemma put_returns:
  assumes "sched_inv h s" and "p \<noteq> NULL" and "h p \<noteq> None"
  shows "returns (put_proc h s p) (\<lambda>(h', s'). sched_inv h' s'
     \<and> q_list (running_list s') = remove1 p (q_list (running_list s))
     \<and> level s' = (level s)(level_of h p := appended (level s (level_of h p)) p)
     \<and> curr_prio s' = curr_prio s \<and> curr_slot s' = curr_slot s
     \<and> h' = h(p \<mapsto> admit_block (the (h p))))"
proof -
  have inv: "queues_ok s" "cursor_ok s" "levels_ok h s" "live h (q_list (running_list s))"
    using assms(1) by (auto simp: sched_inv_def)
  have "q_inv (running_list s)" using inv(1) by (simp add: queues_ok_def)
  then obtain z r where r: "purgequeue (running_list s) p = Inr (z, r)" "q_inv r"
      "q_list r = remove1 p (q_list (running_list s))"
    using pq.purge [OF _ assms(2)] by (blast elim!: returnsE)
  have "live h (q_list r)" using inv(4) r(3) set_remove1_subset live_subset by metis
  then have "sched_inv h (s\<lparr>running_list := r\<rparr>)"
    using inv r by (simp add: sched_inv_def queues_ok_def levels_ok_def)
  from add_returns [OF this assms(2,3)]
  obtain h' s' where a: "add_proc h (s\<lparr>running_list := r\<rparr>) p = Inr (h', s')" "sched_inv h' s'"
      "running_list s' = r" "level s' = (level s)(level_of h p := appended (level s (level_of h p)) p)"
      "curr_prio s' = curr_prio s" "curr_slot s' = curr_slot s" "h' = h(p \<mapsto> admit_block (the (h p)))"
    by (auto elim!: returnsE)
  then have "put_proc h s p = Inr (h', s')"
    using r(1) by (auto simp: put_proc_def put_mlq_proc_def add_proc_def add_mlq_proc_def
        rbind_Inr_iff split: prod.splits)
  with a r(3) show ?thesis by simp
qed

lemma finish_returns:
  assumes "sched_inv h s" and "p \<noteq> NULL"
  shows "returns (finish_proc s p) (\<lambda>s'. sched_inv h s'
     \<and> q_list (running_list s') = remove1 p (q_list (running_list s)) \<and> level s' = level s
     \<and> curr_prio s' = curr_prio s \<and> curr_slot s' = curr_slot s)"
proof -
  have inv: "queues_ok s" "cursor_ok s" "levels_ok h s" "live h (q_list (running_list s))"
    using assms(1) by (auto simp: sched_inv_def)
  have "q_inv (running_list s)" using inv(1) by (simp add: queues_ok_def)
  then obtain z r where r: "purgequeue (running_list s) p = Inr (z, r)" "q_inv r"
      "q_list r = remove1 p (q_list (running_list s))"
    using pq.purge [OF _ assms(2)] by (blast elim!: returnsE)
  have "live h (q_list r)" using inv(4) r(3) set_remove1_subset live_subset by metis
  then show ?thesis
    using inv r by (simp add: finish_proc_def finish_mlq_proc_def sched_inv_def queues_ok_def levels_ok_def)
qed

lemma all_ready_appended:
  assumes "level s' = (level s)(l := appended (level s l) p)" and "l < MAX_PRIO"
  shows "all_ready s' = (if length (level s l) < MAX_QUEUE_SIZE
                         then add_mset p (all_ready s) else all_ready s)"
proof -
  have "all_ready s' + mset (level s l)
      = (if length (level s l) < MAX_QUEUE_SIZE
         then add_mset p (all_ready s) else all_ready s) + mset (level s l)"
    using all_ready_update [OF assms(2), of s' s] assms(1) by (simp add: appended_def)
  then show ?thesis by (simp only: add_right_cancel)
qed

lemma sched_inv_init: "sched_inv h (init_scheduler static_sched)"
  by (auto simp: sched_inv_def init_scheduler_def static_sched_def queues_ok_def cursor_ok_def
      levels_ok_def level_def q_inv_def q_list_def empty_queue_def)

section \<open>Properties\<close>

text \<open>A state for concrete runs: two processes wait at level 3.\<close>

definition demo_sched :: sched_t where
  "demo_sched = (init_scheduler static_sched)\<lparr>mlq_ready_queue :=
     (replicate MAX_PRIO empty_queue)[3 := \<lparr>qproc = [1, 2] @ replicate 48 NULL, qsize = 2\<rparr>]\<rparr>"

definition demo_heap :: heap where
  "demo_heap = [1 \<mapsto> sample_pcb 1 5 3, 2 \<mapsto> sample_pcb 2 9 3]"

lemma demo_level: "l < MAX_PRIO \<Longrightarrow> level demo_sched l = (if l = 3 then [1, 2] else [])"
  by (simp add: level_def demo_sched_def q_list_def empty_queue_def)

lemma demo_cursor [simp]: "curr_prio demo_sched = 0" "curr_slot demo_sched = 140"
    "q_list (running_list demo_sched) = []"
  by (simp_all add: demo_sched_def init_scheduler_def static_sched_def empty_queue_def q_list_def
      MAX_PRIO_def)

lemma demo_inv: "sched_inv demo_heap demo_sched"
proof -
  have "q_inv \<lparr>qproc = [1, 2] @ replicate 48 NULL, qsize = 2\<rparr>"
    by (simp add: q_inv_def MAX_QUEUE_SIZE_def)
  moreover have "queues_ok (init_scheduler static_sched)"
    using sched_inv_init by (simp add: sched_inv_def)
  ultimately have "queues_ok demo_sched"
    by (auto simp: queues_ok_def demo_sched_def dest!: set_update_subset_insert [THEN subsetD])
  moreover have "levels_ok demo_heap demo_sched"
    by (auto simp: levels_ok_def demo_level demo_heap_def sample_pcb_def)
  ultimately show ?thesis by (simp add: sched_inv_def cursor_ok_def MAX_PRIO_def)
qed

lemma demo_first_level: "first_level demo_sched = Some 3"
proof -
  have "i mod MAX_PRIO = i" if "i < 4" for i :: nat using that by (simp add: MAX_PRIO_def)
  moreover have "level demo_sched i = (if i = 3 then [1, 2] else [])" if "i < 4" for i
    using that by (intro demo_level) (simp add: MAX_PRIO_def)
  ultimately show ?thesis by (auto simp: first_level_Some MAX_PRIO_def)
qed

text \<open>
  C4. \<open>get_proc\<close> is work-conserving and follows the multi-level policy. It never faults and
  keeps the invariant; it returns \<open>NULL\<close> exactly when every ready queue is empty; otherwise it
  serves the first non-empty level at or after the cursor, there the first process of least
  \<open>priority\<close> value, takes that process and no other out of the ready queues, and lists it as
  running.
\<close>

theorem get_proc_correct:
  assumes "sched_inv h s"
  shows "returns (get_proc h s) (\<lambda>(p, s'). sched_inv h s' \<and>
     (case first_level s of
        None \<Rightarrow> p = NULL \<and> all_ready s = {#} \<and> level s' = level s \<and> running_list s' = running_list s
      | Some k \<Rightarrow> all_ready s = add_mset p (all_ready s')
          \<and> q_list (running_list s') = appended (q_list (running_list s)) p
          \<and> (let l = (curr_prio s + k) mod MAX_PRIO in
             \<exists>i. first_min h (level s l) i \<and> p = level s l ! i
               \<and> level s' = (level s)(l := drop_nth i (level s l)))))"
proof -
  have inv: "queues_ok s" "curr_prio s < MAX_PRIO"
    using assms by (auto simp: sched_inv_def cursor_ok_def)
  show ?thesis
  proof (cases "first_level s")
    case None
    have "get_proc h s = Inr (NULL, (next_level ^^ MAX_PRIO) s)"
      using get_none [OF inv None] by (simp add: get_proc_def)
    then show ?thesis using None none_inv [OF assms] first_level_None [OF inv(2)]
      by (simp add: all_ready_empty)
  next
    case (Some k)
    obtain p s' where g: "get_proc h s = Inr (p, s')" "served h s k p s'"
      using get_some [OF assms Some] by (auto simp: get_proc_def elim!: returnsE)
    have "q_list (running_list s') = appended (q_list (running_list s)) p"
      using g(2) by (auto simp: served_def Let_def appended_def)
    then show ?thesis
      using g served_inv [OF assms g(2)] served_level [OF g(2) inv] Some by (simp add: Let_def)
  qed
qed

theorem get_proc_correct_witness:
  "returns (get_proc demo_heap demo_sched) (\<lambda>(p, s'). p = 1 \<and> level s' 3 = [2])"
proof -
  have "first_min demo_heap [1, 2] 0"
    by (auto simp: first_min_def less_Suc_eq demo_heap_def sample_pcb_def)
  then have i: "i = 0" if "first_min demo_heap [1, 2] i" for i
    using that first_min_unique by blast
  have l: "(0 + 3) mod MAX_PRIO = 3" "level demo_sched 3 = [1, 2]"
    by (simp_all add: demo_level MAX_PRIO_def)
  obtain p s' j where "get_proc demo_heap demo_sched = Inr (p, s')" "first_min demo_heap [1, 2] j"
      "p = [1, 2] ! j" "level s' = (level demo_sched)(3 := drop_nth j [1, 2])"
    using get_proc_correct [OF demo_inv] unfolding demo_first_level option.case demo_cursor l Let_def
    by (auto elim!: returnsE)
  moreover from this have "j = 0" using i by blast
  ultimately show ?thesis by (simp add: drop_nth_def)
qed

text \<open>
  The budget of a level: a level that the cursor reaches may be served
  \<open>MAX_PRIO - prio\<close> times before the cursor moves on; each service costs one turn, and the
  one that uses up the budget moves the cursor to the next level with a full budget.
\<close>

lemma get_proc_budget:
  assumes "sched_inv h s" and "first_level s = Some k"
  shows "returns (get_proc h s) (\<lambda>(p, s').
     let l = (curr_prio s + k) mod MAX_PRIO;
         budget = (if k = 0 then curr_slot s else int MAX_PRIO - int l);
         n = (l + 1) mod MAX_PRIO in
     if budget = 1 then curr_prio s' = n \<and> curr_slot s' = int MAX_PRIO - int n
     else curr_prio s' = l \<and> curr_slot s' = budget - 1)"
proof -
  have c: "curr_prio s < MAX_PRIO" using assms(1) by (simp add: sched_inv_def cursor_ok_def)
  obtain p s' q' r' where g: "get_proc h s = Inr (p, s')"
      "s' = (after_serve ((next_level ^^ k) s) q')\<lparr>running_list := r'\<rparr>"
    using get_some [OF assms] by (auto simp: get_proc_def served_def Let_def elim!: returnsE)
  then show ?thesis
    by (simp add: after_serve_def Let_def curr_prio_funpow [OF c] curr_slot_funpow [OF c] mod_Suc_eq)
qed

text \<open>
  \<open>put_proc\<close> and \<open>add_proc\<close> never fault on a live process, clamp an out-of-range
  \<open>prio\<close> to 0 before it indexes the queues, and put the process last at its level, unless 50
  processes wait there, in which case the process is lost; \<open>put_proc\<close> also removes it from the
  running list, and neither moves the cursor.
\<close>

lemma put_add_correct:
  assumes "sched_inv h s" and "p \<noteq> NULL" and "h p = Some x"
  shows "let l = (if unat (prio x) < 140 then unat (prio x) else 0) in
     returns (put_proc h s p) (\<lambda>(h', s'). sched_inv h' s'
       \<and> level s' = (level s)(l := if length (level s l) < 50 then level s l @ [p] else level s l)
       \<and> q_list (running_list s') = remove1 p (q_list (running_list s))
       \<and> curr_prio s' = curr_prio s \<and> curr_slot s' = curr_slot s
       \<and> all_ready s' = (if length (level s l) < 50 then add_mset p (all_ready s) else all_ready s))
   \<and> returns (add_proc h s p) (\<lambda>(h', s'). sched_inv h' s'
       \<and> level s' = (level s)(l := if length (level s l) < 50 then level s l @ [p] else level s l)
       \<and> running_list s' = running_list s \<and> curr_prio s' = curr_prio s \<and> curr_slot s' = curr_slot s
       \<and> all_ready s' = (if length (level s l) < 50 then add_mset p (all_ready s) else all_ready s))"
proof -
  have x: "h p \<noteq> None" using assms(3) by simp
  have l: "(if unat (prio x) < 140 then unat (prio x) else 0) = level_of h p"
    using assms(3) by (simp add: level_of_def MAX_PRIO_def)
  have ar: "all_ready s' = (if length (level s (level_of h p)) < 50
        then add_mset p (all_ready s) else all_ready s)"
    if "level s' = (level s)(level_of h p := appended (level s (level_of h p)) p)" for s'
    using all_ready_appended [OF that] by (simp add: MAX_QUEUE_SIZE_def)
  show ?thesis unfolding l Let_def
    using put_returns [OF assms(1,2) x] add_returns [OF assms(1,2) x] ar
    by (auto simp: appended_def MAX_QUEUE_SIZE_def elim!: returns_mono split del: if_split)
qed

text \<open>
  \<open>queue_empty\<close> cannot serve as a truth value: in a state of the multi-level scheduler,
  where \<open>ready_queue\<close> and \<open>run_queue\<close> are never filled, it returns 1 when no process
  waits and -1 when one does, and both are true in C.
\<close>

lemma queue_empty_always_true:
  assumes "queues_ok s" and "q_list (ready_queue s) = []" and "q_list (run_queue s) = []"
  shows "queue_empty s = (if all_ready s = {#} then 1 else -1) \<and> queue_empty s \<noteq> 0"
proof -
  have "empty (ready_queue s)" "empty (run_queue s)"
    using assms by (simp_all add: empty_iff queues_ok_def)
  moreover have "list_ex (\<lambda>l. \<not> empty (mlq_ready_queue s ! l)) [0..<MAX_PRIO] \<longleftrightarrow> all_ready s \<noteq> {#}"
    using empty_level [OF assms(1)] by (auto simp: list_ex_iff all_ready_empty)
  ultimately show ?thesis by (simp add: queue_empty_def)
qed

end
