(* ===== verification/Syscall.thy ===== *)
theory Syscall
  imports Isolation Kmem Sched
begin

text \<open>
  \<^verbatim>\<open>src/libstd.c\<close>, \<^verbatim>\<open>src/syscall.c\<close> and \<^verbatim>\<open>src/sys_mem.c\<close>: the way of a system call from
  a process to the memory-mapping call, which looks its process up by its identifier in the
  scheduler's queues and works on that process's memory or on the RAM device.
\<close>

section \<open>The kernel's state\<close>

text \<open>
  The process control blocks, the scheduler and the two devices. What a function reaches through
  \<open>proc->krnl\<close> is \<open>krnl_of\<close>; \<open>proc_run\<close> runs such a function for the process at \<open>p\<close> and
  stores what it leaves.
\<close>

record kern =
  procs :: heap
  sched :: sched_t
  kram :: memphy_struct
  kswp :: memphy_struct

definition krnl_of :: "kern \<Rightarrow> pcb_t \<Rightarrow> krnl_t" where
  "krnl_of K x = \<lparr>mm = krnl_mm x, mram = kram K, active_mswp = kswp K\<rparr>"

definition leave :: "kern \<Rightarrow> ptr \<Rightarrow> pcb_t \<Rightarrow> krnl_t \<Rightarrow> kern" where
  "leave K p x k = K\<lparr>procs := (procs K)(p \<mapsto> x\<lparr>krnl_mm := mm k\<rparr>), kram := mram k, kswp := active_mswp k\<rparr>"

definition proc_run :: "kern \<Rightarrow> ptr \<Rightarrow> (krnl_t \<Rightarrow> ('a \<times> krnl_t) res) \<Rightarrow> ('a \<times> kern) res" where
  "proc_run K p f =
     rbind (deref (procs K) p) (\<lambda>x. rbind (f (krnl_of K x)) (\<lambda>(r, k). Inr (r, leave K p x k)))"

section \<open>Finding the caller\<close>

text \<open>The search of one queue, from slot \<open>i\<close> on, and of the ready queues in the order of levels.\<close>

function pid_loop :: "heap \<Rightarrow> queue_t \<Rightarrow> u32 \<Rightarrow> nat \<Rightarrow> ptr res" where
  "pid_loop h q pd i =
     (if i < qsize q then
        rbind (arr_get (qproc q) i) (\<lambda>p.
          if p = NULL then pid_loop h q pd (i + 1)
          else rbind (deref h p) (\<lambda>x. if pid x = pd then Inr p else pid_loop h q pd (i + 1)))
      else Inr NULL)"
  by pat_completeness auto
termination by (relation "measure (\<lambda>(h, q, pd, i). qsize q - i)") auto

declare pid_loop.simps [simp del]

fun level_loop :: "heap \<Rightarrow> queue_t list \<Rightarrow> u32 \<Rightarrow> ptr res" where
  "level_loop h [] pd = Inr NULL"
| "level_loop h (q # qs) pd =
     rbind (pid_loop h q pd 0) (\<lambda>caller. if caller \<noteq> NULL then Inr caller else level_loop h qs pd)"

text \<open>\<open>linked\<close> says that the queue pointers of the calling process's \<open>krnl\<close> are set.\<close>

definition find_caller :: "kern \<Rightarrow> bool \<Rightarrow> u32 \<Rightarrow> ptr res" where
  "find_caller K linked pd =
     (if linked then
        rbind (pid_loop (procs K) (running_list (sched K)) pd 0) (\<lambda>caller.
          if caller = NULL then level_loop (procs K) (mlq_ready_queue (sched K)) pd else Inr caller)
      else Inr NULL)"

section \<open>The calls\<close>

text \<open>The registers that are written and read; \<open>a4\<close> to \<open>flags\<close> are neither.\<close>

record sc_regs =
  a1 :: addr
  a2 :: addr
  a3 :: addr

definition SYSMEM_MAP_OP :: int where "SYSMEM_MAP_OP = 1"
definition SYSMEM_INC_OP :: int where "SYSMEM_INC_OP = 2"
definition SYSMEM_SWP_OP :: int where "SYSMEM_SWP_OP = 3"
definition SYSMEM_IO_READ :: int where "SYSMEM_IO_READ = 4"
definition SYSMEM_IO_WRITE :: int where "SYSMEM_IO_WRITE = 5"

lemmas sysmem_ops = SYSMEM_MAP_OP_def SYSMEM_INC_OP_def SYSMEM_SWP_OP_def SYSMEM_IO_READ_def SYSMEM_IO_WRITE_def

text \<open>
  \<^verbatim>\<open>src/sys_mem.c\<close> includes \<^verbatim>\<open>include/os-mm.h\<close> before \<open>MM64\<close> is defined, so its \<open>addr_t\<close> is 32
  bits wide: an address argument is cut to 32 bits, and the callee, whose \<open>addr_t\<close> has 64 bits,
  sees it zero-extended, as a compiler for a 64-bit machine passes it.
\<close>

definition addr_arg :: "addr \<Rightarrow> addr" where
  "addr_arg w = ucast (ucast w :: u32)"

definition int_arg :: "addr \<Rightarrow> int" where
  "int_arg w = sint (ucast w :: u32)"

text \<open>
  \<open>__sys_memmap\<close>. The results of the operations are not looked at. A failed \<open>MEMPHY_read\<close> leaves
  \<open>value\<close> unwritten, and it is then read.
\<close>

definition sys_memmap :: "kern \<Rightarrow> bool \<Rightarrow> u32 \<Rightarrow> sc_regs \<Rightarrow> (int \<times> sc_regs \<times> kern) res" where
  "sys_memmap K linked pd rs =
     (let memop = int_arg (a1 rs) in
      rbind (find_caller K linked pd) (\<lambda>caller.
      if caller = NULL then Inr (-1, rs, K)
      else if memop = SYSMEM_MAP_OP then
        rbind (proc_run K caller (\<lambda>k. vmap_pgd_memset k (addr_arg (a2 rs)) (int_arg (a3 rs)))) (\<lambda>(_, K).
          Inr (0, rs, K))
      else if memop = SYSMEM_INC_OP then
        rbind (proc_run K caller (\<lambda>k. inc_vma_limit k (int_arg (a2 rs)) (addr_arg (a3 rs)))) (\<lambda>(_, K).
          Inr (0, rs, K))
      else if memop = SYSMEM_SWP_OP then
        rbind (proc_run K caller (\<lambda>k. mm_swap_page k (addr_arg (a2 rs)) (addr_arg (a3 rs)))) (\<lambda>(_, K).
          Inr (0, rs, K))
      else if memop = SYSMEM_IO_READ then
        rbind (MEMPHY_read (kram K) (addr_arg (a2 rs))) (\<lambda>(val, mp). case val of
          None \<Rightarrow> Inl Uninit_Read
        | Some b \<Rightarrow> Inr (0, rs\<lparr>a3 := scast b\<rparr>, K\<lparr>kram := mp\<rparr>))
      else if memop = SYSMEM_IO_WRITE then
        rbind (MEMPHY_write (kram K) (addr_arg (a2 rs)) (ucast (a3 rs))) (\<lambda>(_, mp).
          Inr (0, rs, K\<lparr>kram := mp\<rparr>))
      else Inr (0, rs, K)))"

text \<open>
  \<open>_syscall\<close> on the table of \<^verbatim>\<open>src/syscalltbl.lst\<close>: number 0 lists the calls, 17 maps memory, and
  any other number is \<open>__sys_ni_syscall\<close>, which returns 0.
\<close>

definition sys_listsyscall :: int where "sys_listsyscall = 0"

definition sys_ni_syscall :: int where "sys_ni_syscall = 0"

definition syscall :: "kern \<Rightarrow> bool \<Rightarrow> u32 \<Rightarrow> u32 \<Rightarrow> sc_regs \<Rightarrow> (int \<times> sc_regs \<times> kern) res" where
  "syscall K linked pd nr rs =
     (if nr = 0 then Inr (sys_listsyscall, rs, K)
      else if nr = 17 then sys_memmap K linked pd rs
      else Inr (sys_ni_syscall, rs, K))"

text \<open>\<open>libsyscall\<close>: the registers are a local variable, so what the call leaves in them is lost.\<close>

definition libsyscall :: "kern \<Rightarrow> ptr \<Rightarrow> u32 \<Rightarrow> addr \<Rightarrow> addr \<Rightarrow> addr \<Rightarrow> (int \<times> kern) res" where
  "libsyscall K p syscall_idx x1 x2 x3 =
     rbind (deref (procs K) p) (\<lambda>x.
     rbind (syscall K (krnl_queues x) (pid x) syscall_idx \<lparr>a1 = x1, a2 = x2, a3 = x3\<rparr>) (\<lambda>(r, _, K).
       Inr (r, K)))"


section \<open>The process that a call finds\<close>

definition first_pid :: "heap \<Rightarrow> u32 \<Rightarrow> ptr list \<Rightarrow> ptr" where
  "first_pid h pd ps = (case find (\<lambda>p. pid (the (h p)) = pd) ps of None \<Rightarrow> NULL | Some p \<Rightarrow> p)"

lemma first_pid_simps [simp]:
  "first_pid h pd [] = NULL"
  "first_pid h pd (p # ps) = (if pid (the (h p)) = pd then p else first_pid h pd ps)"
  by (simp_all add: first_pid_def)

lemma first_pid_append:
  "live h ps \<Longrightarrow> first_pid h pd (ps @ qs) = (if first_pid h pd ps = NULL then first_pid h pd qs else first_pid h pd ps)"
  by (induction ps) auto

lemma first_pid_unique:
  "p \<in> set ps \<Longrightarrow> pid (the (h p)) = pd \<Longrightarrow> (\<And>q. q \<in> set ps \<Longrightarrow> pid (the (h q)) = pd \<Longrightarrow> q = p) \<Longrightarrow>
     first_pid h pd ps = p"
proof -
  assume p: "p \<in> set ps" "pid (the (h p)) = pd" and u: "\<And>q. q \<in> set ps \<Longrightarrow> pid (the (h q)) = pd \<Longrightarrow> q = p"
  have "find (\<lambda>p. pid (the (h p)) = pd) ps \<noteq> None" unfolding find_None_iff using p by blast
  then obtain q where q: "find (\<lambda>p. pid (the (h p)) = pd) ps = Some q" by (elim not_None_eq [THEN iffD1, THEN exE])
  then have "q \<in> set ps \<and> pid (the (h q)) = pd" by (auto simp: find_Some_iff)
  then have "q = p" using u by blast
  then show ?thesis using q by (simp add: first_pid_def)
qed

lemma pid_loop_eq:
  assumes "q_inv q" and "live h (q_list q)"
  shows "pid_loop h q pd i = Inr (first_pid h pd (drop i (q_list q)))"
proof (induction "qsize q - i" arbitrary: i)
  case 0
  then show ?case using assms(1) by (subst pid_loop.simps) simp
next
  case (Suc n)
  then have i: "i < qsize q" and len: "i < length (q_list q)" "i < length (qproc q)"
    using assms(1) by (auto simp: q_inv_def)
  have nth: "qproc q ! i = q_list q ! i" using i by (simp add: q_list_def)
  obtain x where x: "q_list q ! i \<noteq> NULL" "h (q_list q ! i) = Some x" using live_nth [OF assms(2) len(1)] by blast
  have "pid_loop h q pd (i + 1) = Inr (first_pid h pd (drop (i + 1) (q_list q)))" by (rule Suc.hyps(1)) (use Suc.hyps(2) in simp)
  then show ?case using i len x nth
    by (subst pid_loop.simps) (simp add: Cons_nth_drop_Suc [OF len(1), symmetric])
qed

lemma level_loop_eq:
  "\<forall>q \<in> set qs. q_inv q \<and> live h (q_list q) \<Longrightarrow>
     level_loop h qs pd = Inr (first_pid h pd (concat (map q_list qs)))"
  by (induction qs) (auto simp: pid_loop_eq first_pid_append)

text \<open>The processes the kernel knows, in the order of the search.\<close>

definition known :: "sched_t \<Rightarrow> ptr list" where
  "known s = q_list (running_list s) @ concat (map q_list (mlq_ready_queue s))"

lemma live_known:
  assumes "sched_inv h s"
  shows "live h (q_list (running_list s))" and "\<forall>q \<in> set (mlq_ready_queue s). q_inv q \<and> live h (q_list q)"
    and "live h (known s)"
proof -
  show r: "live h (q_list (running_list s))" using assms by (simp add: sched_inv_def)
  have "live h (q_list q)" if "q \<in> set (mlq_ready_queue s)" for q
  proof -
    obtain l where "l < MAX_PRIO" "q = mlq_ready_queue s ! l"
      using \<open>q \<in> _\<close> assms by (auto simp: in_set_conv_nth sched_inv_def queues_ok_def)
    then show ?thesis using assms by (simp add: sched_inv_def levels_ok_def level_def)
  qed
  then show q: "\<forall>q \<in> set (mlq_ready_queue s). q_inv q \<and> live h (q_list q)"
    using assms by (simp add: sched_inv_def queues_ok_def)
  show "live h (known s)" using r q by (auto simp: known_def live_def)
qed

lemma find_caller_eq:
  assumes "sched_inv (procs K) (sched K)"
  shows "find_caller K linked pd = Inr (if linked then first_pid (procs K) pd (known (sched K)) else NULL)"
proof -
  have "q_inv (running_list (sched K))" using assms by (simp add: sched_inv_def queues_ok_def)
  then show ?thesis
    using live_known [OF assms] by (simp add: find_caller_def known_def pid_loop_eq level_loop_eq first_pid_append)
qed

text \<open>
  C15. A system call of a process that the kernel knows, whose identifier no other known process has,
  finds that process, whatever queue it waits in; the operations then work on its own memory or on
  the RAM device, each with its arguments cut to 32 bits, and the result is 0. An unknown system
  call or operation changes nothing and also returns 0. A process the kernel does not know gets -1.
\<close>

theorem memmap_correct:
  assumes "sched_inv (procs K) (sched K)" and "procs K p = Some x" and "p \<noteq> NULL"
    and "krnl_queues x" and "\<forall>q y. q \<noteq> p \<longrightarrow> procs K q = Some y \<longrightarrow> pid y \<noteq> pid x"
  shows "libsyscall K p nr op u w =
    (if nr \<noteq> 17 then Inr (0, K)
     else if p \<notin> set (known (sched K)) then Inr (-1, K)
     else if int_arg op = 1 then rbind (vmap_pgd_memset (krnl_of K x) (addr_arg u) (int_arg w)) (\<lambda>(_, k). Inr (0, leave K p x k))
     else if int_arg op = 2 then rbind (inc_vma_limit (krnl_of K x) (int_arg u) (addr_arg w)) (\<lambda>(_, k). Inr (0, leave K p x k))
     else if int_arg op = 3 then rbind (mm_swap_page (krnl_of K x) (addr_arg u) (addr_arg w)) (\<lambda>(_, k). Inr (0, leave K p x k))
     else if int_arg op = 4 then rbind (MEMPHY_read (kram K) (addr_arg u)) (\<lambda>(val, mp). case val of
         None \<Rightarrow> Inl Uninit_Read | Some _ \<Rightarrow> Inr (0, K\<lparr>kram := mp\<rparr>))
     else if int_arg op = 5 then rbind (MEMPHY_write (kram K) (addr_arg u) (ucast w)) (\<lambda>(_, mp). Inr (0, K\<lparr>kram := mp\<rparr>))
     else Inr (0, K))"
proof -
  have d: "deref (procs K) p = Inr x" using assms(2,3) by simp
  have lv: "live (procs K) (known (sched K))" by (rule live_known(3) [OF assms(1)])
  have uniq: "q = p" if "q \<in> set (known (sched K))" "pid (the (procs K q)) = pid x" for q
    using lv that assms(5) by (auto simp: live_def)
  have "first_pid (procs K) (pid x) (known (sched K)) = (if p \<in> set (known (sched K)) then p else NULL)"
  proof (cases "p \<in> set (known (sched K))")
    case True
    have "pid (the (procs K p)) = pid x" using assms(2) by simp
    then show ?thesis unfolding if_P [OF True] by (rule first_pid_unique [OF True _ uniq])
  next
    case False
    then have "find (\<lambda>q. pid (the (procs K q)) = pid x) (known (sched K)) = None"
      unfolding find_None_iff using uniq by metis
    then show ?thesis using False by (simp add: first_pid_def)
  qed
  then have c: "find_caller K True (pid x) = Inr (if p \<in> set (known (sched K)) then p else NULL)"
    by (simp add: find_caller_eq [OF assms(1)])
  note run = libsyscall_def d syscall_def sys_listsyscall_def sys_ni_syscall_def sys_memmap_def Let_def c
  show ?thesis
  proof (cases "nr = 17 \<and> p \<in> set (known (sched K))")
    case False
    then show ?thesis using assms(4) by (cases "nr = 17") (simp_all add: run)
  next
    case True
    then have k: "libsyscall K p nr op u w =
        rbind (sys_memmap K True (pid x) \<lparr>a1 = op, a2 = u, a3 = w\<rparr>) (\<lambda>(r, _, K). Inr (r, K))"
      using assms(4) by (simp add: libsyscall_def d syscall_def)
    have c': "find_caller K True (pid x) = Inr p" using c True by simp
    show ?thesis unfolding k using True assms(3)
      by (auto simp: sys_memmap_def Let_def c' sysmem_ops proc_run_def d rbind_assoc split_beta
          split: option.splits intro!: rbind_cong)
  qed
qed


definition demo_kern :: kern where
  "demo_kern = \<lparr>procs = demo_heap, sched = demo_sched, kram = mram new_krnl, kswp = active_mswp new_krnl\<rparr>"

lemma known_demo: "1 \<in> set (known demo_sched)"
proof -
  have "q_list (mlq_ready_queue demo_sched ! 3) = [1, 2]"
    using demo_level [of 3] by (simp add: level_def MAX_PRIO_def)
  moreover have "mlq_ready_queue demo_sched ! 3 \<in> set (mlq_ready_queue demo_sched)"
    by (intro nth_mem) (simp add: demo_sched_def MAX_PRIO_def)
  ultimately show ?thesis unfolding known_def by force
qed

theorem memmap_correct_witness:
  "libsyscall demo_kern 1 17 9 0 0 = Inr (0, demo_kern) \<and> libsyscall demo_kern 1 3 9 0 0 = Inr (0, demo_kern)"
proof -
  have u: "\<forall>q y. q \<noteq> 1 \<longrightarrow> procs demo_kern q = Some y \<longrightarrow> pid y \<noteq> pid (sample_pcb 1 5 3)"
    by (auto simp: demo_kern_def demo_heap_def sample_pcb_def split: if_splits)
  have inv: "sched_inv (procs demo_kern) (sched demo_kern)" using demo_inv by (simp add: demo_kern_def)
  have x: "procs demo_kern 1 = Some (sample_pcb 1 5 3)" by (simp add: demo_kern_def demo_heap_def)
  have k: "1 \<in> set (known (sched demo_kern))" using known_demo by (simp add: demo_kern_def)
  have l: "krnl_queues (sample_pcb 1 5 3)" by (simp add: sample_pcb_def)
  note m = memmap_correct [OF inv x one_neq_zero l u, of _ 9 0 0]
  show ?thesis using k by (simp add: m [of 17] m [of 3] int_arg_def del: One_nat_def)
qed

end
