(* ===== verification/Cpu.thy ===== *)
theory Cpu
  imports Syscall
begin

text \<open>
  \<^verbatim>\<open>src/cpu.c\<close> with \<open>MM_PAGING\<close>: a processor runs one instruction of a process. The theory shows
  that an instruction moves the program counter by one, keeps the memory invariant of the whole
  system and touches no other process.
\<close>

section \<open>Running an instruction\<close>

definition calc :: int where "calc = 0"

text \<open>A call that also works on the registers of the process.\<close>

definition reg_run :: "kern \<Rightarrow> ptr \<Rightarrow> (addr list \<Rightarrow> krnl_t \<Rightarrow> (int \<times> addr list \<times> krnl_t) res) \<Rightarrow> (int \<times> kern) res" where
  "reg_run K p f =
     rbind (deref (procs K) p) (\<lambda>x.
     rbind (f (regs x) (krnl_of K x)) (\<lambda>(r, rs, k). Inr (r, leave K p (x\<lparr>regs := rs\<rparr>) k)))"

text \<open>
  The switch of \<open>run\<close>. An argument of 64 bits is cut to the width of the parameter it is passed to.
  \<open>libread\<close> writes the value it reads to a field of the local copy of the instruction, so it is lost.
\<close>

definition exec_inst :: "kern \<Rightarrow> ptr \<Rightarrow> inst_t \<Rightarrow> (int \<times> kern) res" where
  "exec_inst K p ins = (case opcode ins of
      CALC \<Rightarrow> Inr (calc, K)
    | ALLOC \<Rightarrow> proc_run K p (\<lambda>k. liballoc k (arg_0 ins) (ucast (arg_1 ins)))
    | KMALLOC \<Rightarrow> reg_run K p (\<lambda>rs k. libkmem_malloc rs k (ucast (arg_0 ins)) (ucast (arg_1 ins)))
    | KMEM_CACHE_CREATE \<Rightarrow>
        Inr (libkmem_cache_pool_create (ucast (arg_0 ins)) (ucast (arg_1 ins)) (ucast (arg_2 ins)), K)
    | KMEM_CACHE_ALLOC \<Rightarrow> reg_run K p (\<lambda>rs k. libkmem_cache_alloc rs k (ucast (arg_0 ins)) (ucast (arg_1 ins)))
    | COPY_FROM_USER \<Rightarrow> proc_run K p (\<lambda>k. libkmem_copy_from_user k (ucast (arg_0 ins)) (ucast (arg_1 ins))
        (ucast (arg_2 ins)) (ucast (arg_3 ins)))
    | COPY_TO_USER \<Rightarrow> proc_run K p (\<lambda>k. libkmem_copy_to_user k (ucast (arg_0 ins)) (ucast (arg_1 ins))
        (ucast (arg_2 ins)) (ucast (arg_3 ins)))
    | FREE \<Rightarrow> proc_run K p (\<lambda>k. libfree k (ucast (arg_0 ins)))
    | READ \<Rightarrow> rbind (proc_run K p (\<lambda>k. libread k (ucast (arg_0 ins)) (arg_1 ins))) (\<lambda>(d, K).
        Inr (if d = None then -1 else 0, K))
    | WRITE \<Rightarrow> proc_run K p (\<lambda>k. libwrite k (ucast (arg_0 ins)) (ucast (arg_1 ins)) (arg_2 ins))
    | SYSCALL \<Rightarrow> libsyscall K p (ucast (arg_0 ins)) (arg_1 ins) (arg_2 ins) (arg_3 ins))"

definition run :: "kern \<Rightarrow> ptr \<Rightarrow> (int \<times> kern) res" where
  "run K p =
     rbind (deref (procs K) p) (\<lambda>x.
       if unat (pc x) \<ge> length (code x) then Inr (1, K)
       else exec_inst (K\<lparr>procs := (procs K)(p \<mapsto> x\<lparr>pc := pc x + 1\<rparr>)\<rparr>) p (code x ! unat (pc x)))"

section \<open>Memory of the system\<close>

definition kern_mem :: "kern \<Rightarrow> mem_sys" where
  "kern_mem K = \<lparr>mms = (\<lambda>p. Option.bind (procs K p) krnl_mm), ram = kram K, swp = kswp K\<rparr>"

text \<open>What an instruction of process \<open>p\<close> leaves: its block but for the registers, and everybody else.\<close>

definition only_touched :: "kern \<Rightarrow> ptr \<Rightarrow> pcb_t \<Rightarrow> kern \<Rightarrow> bool" where
  "only_touched K p x K' \<longleftrightarrow> sys_inv (kern_mem K') \<and> sched K' = sched K
     \<and> (\<exists>rs m. procs K' p = Some (x\<lparr>regs := rs, krnl_mm := Some m\<rparr>) \<and> length rs = length (regs x))
     \<and> (\<forall>q. q \<noteq> p \<longrightarrow> procs K' q = procs K q
          \<and> content (proc_view (kern_mem K') q) = content (proc_view (kern_mem K) q))"

lemma kern_mem_view:
  "procs K p = Some x \<Longrightarrow> proc_view (kern_mem K) p = krnl_of K x"
  "procs K p = Some x \<Longrightarrow> mms (kern_mem K) p = krnl_mm x"
  by (simp_all add: proc_view_def kern_mem_def krnl_of_def)

lemma kern_mem_leave:
  "kern_mem (leave K p x k) = (kern_mem K)\<lparr>mms := (mms (kern_mem K))(p := mm k), ram := mram k, swp := active_mswp k\<rparr>"
  by (simp add: kern_mem_def leave_def fun_eq_iff)

lemma sound_touched:
  assumes inv: "sys_inv (kern_mem K)" and p: "procs K p = Some x" "krnl_mm x = Some m"
    and k': "sound m (krnl_of K x) k'" and x': "x' = x\<lparr>regs := rs\<rparr>" "length rs = length (regs x)"
  shows "only_touched K p x (leave K p x' k')"
proof -
  have m: "mms (kern_mem K) p = Some m" using kern_mem_view(2) [OF p(1)] p(2) by simp
  note st = sound_step [OF inv m _ kern_mem_leave [of K p x' k'], unfolded kern_mem_view(1) [OF p(1)], OF k']
  obtain m' where "mm k' = Some m'" using k' by (rule soundE)
  then show ?thesis using st x' by (auto simp: only_touched_def leave_def)
qed

lemma proc_run_touched:
  assumes inv: "sys_inv (kern_mem K)" and p: "procs K p = Some x" "p \<noteq> NULL" "krnl_mm x = Some m"
    and f: "\<And>v. vm_inv m v (krnl_of K x) \<Longrightarrow> returns (f (krnl_of K x)) (\<lambda>(r, k'). sound m (krnl_of K x) k')"
  shows "returns (proc_run K p f) (\<lambda>(r, K'). only_touched K p x K')"
proof -
  have "mms (kern_mem K) p = Some m" using kern_mem_view(2) [OF p(1)] p(3) by simp
  then obtain v where v: "vm_inv m v (krnl_of K x)"
    using sys_invD [OF inv] kern_mem_view(1) [OF p(1)] by metis
  obtain r k' where "f (krnl_of K x) = Inr (r, k')" "sound m (krnl_of K x) k'"
    using f [OF v] by (auto elim!: returnsE)
  then show ?thesis using sound_touched [OF inv p(1,3), of k' x "regs x"] p by (simp add: proc_run_def)
qed


lemma reg_run_touched:
  assumes inv: "sys_inv (kern_mem K)" and p: "procs K p = Some x" "p \<noteq> NULL" "krnl_mm x = Some m"
    and f: "\<And>v. vm_inv m v (krnl_of K x) \<Longrightarrow> returns (f (regs x) (krnl_of K x))
      (\<lambda>(r, rs, k'). sound m (krnl_of K x) k' \<and> length rs = length (regs x))"
  shows "returns (reg_run K p f) (\<lambda>(r, K'). only_touched K p x K')"
proof -
  have "mms (kern_mem K) p = Some m" using kern_mem_view(2) [OF p(1)] p(3) by simp
  then obtain v where v: "vm_inv m v (krnl_of K x)"
    using sys_invD [OF inv] kern_mem_view(1) [OF p(1)] by metis
  obtain r rs k' where "f (regs x) (krnl_of K x) = Inr (r, rs, k')" "sound m (krnl_of K x) k'"
      "length rs = length (regs x)"
    using f [OF v] by (auto elim!: returnsE)
  then show ?thesis using sound_touched [OF inv p(1,3)] p by (simp add: reg_run_def)
qed

section \<open>The library calls\<close>

lemma call_sounds:
  assumes "vm_inv m v k"
  shows "returns (libfree k r) (\<lambda>(_, k'). sound m k k')"
    and "returns (libread k r off) (\<lambda>(_, k'). sound m k k')"
    and "returns (libwrite k d r off) (\<lambda>(_, k'). sound m k k')"
proof -
  show "returns (libfree k r) (\<lambda>(_, k'). sound m k k')"
    using do_call_spec [OF assms, of "Free r"] by (cases "libfree k r") (auto simp: do_call_def)
  show "returns (libread k r off) (\<lambda>(_, k'). sound m k k')"
    using do_call_spec [OF assms, of "Read r off"] by (cases "libread k r off") (auto simp: do_call_def)
  show "returns (libwrite k d r off) (\<lambda>(_, k'). sound m k k')"
    using do_call_spec [OF assms, of "Write d r off"] by (cases "libwrite k d r off") (auto simp: do_call_def)
qed

lemma liballoc_sound:
  assumes "vm_inv m v k" and "room v sz"
  shows "returns (liballoc k sz r) (\<lambda>(_, k'). sound m k k')"
proof -
  obtain a k' where "alloc_region k 0 (sint r) sz = Inr (a, k')" "sound m k k'"
    using alloc_sound [OF assms, of "sint r"] by (auto elim!: returnsE)
  then show ?thesis by (simp add: liballoc_def)
qed

lemma kmalloc_sound:
  assumes "vm_inv m v k" and "room v sz" and r: "sint r < int (length rs) \<or> 30 \<le> sint (r :: u32)"
  shows "returns (rbind (kmalloc k 0 (sint r) sz) (\<lambda>(a, k). if a = -1 then Inr (-1, rs, k)
      else rbind (arr_set rs (unat r) a) (\<lambda>rs. Inr (0, rs, k))))
    (\<lambda>(_, rs', k'). sound m k k' \<and> length rs' = length rs)"
proof (cases "sz = 0")
  case True
  then show ?thesis using sound_refl [OF assms(1)] by (simp add: kmalloc_def)
next
  case False
  obtain a k' where a: "alloc_region k 0 (sint r) sz = Inr (a, k')" "sound m k k'"
      "a \<noteq> None \<longrightarrow> 0 \<le> sint r \<and> sint r < 30"
    using alloc_sound [OF assms(1,2), of "sint r"] by (auto elim!: returnsE)
  show ?thesis
  proof (cases a)
    case (Some b)
    have "0 \<le> sint r" using a(3) Some by simp
    then have "unat r = nat (sint r)" by (rule unat_sint)
    then have "unat r < length rs" using r a(3) Some by auto
    then show ?thesis using False a Some by (simp add: kmalloc_def)
  qed (use False a in \<open>simp add: kmalloc_def\<close>)
qed

lemma copy_loop_sound:
  assumes rd: "\<And>m v k i. vm_inv m v k \<Longrightarrow> returns (rd k i) (\<lambda>(_, k'). sound m k k')"
    and wr: "\<And>m v k i b. vm_inv m v k \<Longrightarrow> returns (wr k i b) (\<lambda>(_, k'). sound m k k')"
  shows "vm_inv m v k \<Longrightarrow> returns (copy_loop rd wr k n i) (\<lambda>(_, k'). sound m k k')"
proof (induction "n - i" arbitrary: m v k i)
  case 0
  then show ?case by (subst copy_loop.simps) (simp add: sound_refl)
next
  case (Suc l)
  then have i: "i < n" by simp
  obtain r1 k1 where r1: "rd k (word_of_nat i) = Inr (r1, k1)" "sound m k k1"
    using rd [OF Suc.prems, of "word_of_nat i"] by (auto elim!: returnsE)
  obtain m1 v1 where m1: "mm k1 = Some m1" "vm_inv m1 v1 k1" using r1(2) by (rule soundE)
  show ?case
  proof (cases r1)
    case (Some b)
    obtain r2 k2 where r2: "wr k1 (word_of_nat i) b = Inr (r2, k2)" "sound m1 k1 k2"
      using wr [OF m1(2), of "word_of_nat i" b] by (auto elim!: returnsE)
    obtain m2 v2 where m2: "mm k2 = Some m2" "vm_inv m2 v2 k2" using r2(2) by (rule soundE)
    have s2: "sound m k k2" by (rule sound_trans [OF r1(2) m1(1) r2(2)])
    have "returns (copy_loop rd wr k2 n (i + 1)) (\<lambda>(_, k'). sound m2 k2 k')"
      by (rule Suc.hyps(1) [OF _ m2(2)]) (use Suc.hyps(2) in simp)
    then have "returns (copy_loop rd wr k2 n (i + 1)) (\<lambda>(_, k'). sound m k k')"
      by (rule returns_mono) (auto intro: sound_trans [OF s2 m2(1)])
    then show ?thesis using i r1(1) r2(1) Some s2 by (subst copy_loop.simps) simp
  qed (use i r1 in \<open>subst copy_loop.simps, simp\<close>)
qed


section \<open>One instruction\<close>

text \<open>
  The instructions for which the promise is made: an allocation keeps the area below \<open>2 ^ 22\<close>, a
  kernel allocation names one of the ten registers (or no region at all), and the memory-mapping
  system call, which may clear entries behind the back of paging, is left out.
\<close>

definition room_for :: "pcb_t \<Rightarrow> addr \<Rightarrow> bool" where
  "room_for x sz \<longleftrightarrow> (case krnl_mm x of None \<Rightarrow> True | Some m \<Rightarrow> list_all (\<lambda>v. room v sz) (mmap m))"

definition inst_ok :: "pcb_t \<Rightarrow> inst_t \<Rightarrow> bool" where
  "inst_ok x ins \<longleftrightarrow>
     (let reg = sint (ucast (arg_1 ins) :: u32); reg_ok = reg < 10 \<or> 30 \<le> reg in
      case opcode ins of
        ALLOC \<Rightarrow> room_for x (arg_0 ins)
      | KMALLOC \<Rightarrow> room_for x (ucast (ucast (arg_0 ins) :: u32)) \<and> reg_ok
      | KMEM_CACHE_ALLOC \<Rightarrow> room_for x PAGING64_PAGESZ \<and> reg_ok
      | SYSCALL \<Rightarrow> (ucast (arg_0 ins) :: u32) \<noteq> 17
      | _ \<Rightarrow> True)"

lemma room_forD: "room_for x sz \<Longrightarrow> krnl_mm x = Some m \<Longrightarrow> vm_inv m v k \<Longrightarrow> room v sz"
  using area_okD(1) [of m v] by (simp add: room_for_def vm_inv_def)

lemma room_for_pc [simp]: "room_for (x\<lparr>pc := c\<rparr>) = room_for x"
  by (simp add: room_for_def fun_eq_iff)

lemma inst_ok_pc [simp]: "inst_ok (x\<lparr>pc := c\<rparr>) = inst_ok x"
  by (simp add: inst_ok_def fun_eq_iff split: ins_opcode_t.split)

lemma touched_same: "sys_inv (kern_mem K) \<Longrightarrow> procs K p = Some x \<Longrightarrow> krnl_mm x = Some m \<Longrightarrow> only_touched K p x K"
  by (auto simp: only_touched_def intro!: exI [of _ "regs x"] exI [of _ m])

lemma exec_inst_touched:
  assumes inv: "sys_inv (kern_mem K)" and p: "procs K p = Some x" "p \<noteq> NULL" "krnl_mm x = Some m"
    and rs: "length (regs x) = 10" and ok: "inst_ok x ins"
  shows "returns (exec_inst K p ins) (\<lambda>(r, K'). only_touched K p x K')"
proof -
  note same = touched_same [OF inv p(1,3)] and pr = proc_run_touched [OF inv p] and rr = reg_run_touched [OF inv p]
  show ?thesis
  proof (cases "opcode ins")
    case ALLOC
    then have "room_for x (arg_0 ins)" using ok by (simp add: inst_ok_def)
    note rm = room_forD [OF this p(3)]
    show ?thesis unfolding exec_inst_def ALLOC ins_opcode_t.case
      by (rule pr, rule liballoc_sound, assumption, erule rm)
  next
    case FREE
    show ?thesis unfolding exec_inst_def FREE ins_opcode_t.case by (rule pr, erule call_sounds)
  next
    case READ
    have "returns (proc_run K p (\<lambda>k. libread k (ucast (arg_0 ins)) (arg_1 ins))) (\<lambda>(_, K'). only_touched K p x K')"
      by (rule pr, erule call_sounds)
    then show ?thesis unfolding exec_inst_def READ ins_opcode_t.case by (auto elim!: returnsE)
  next
    case WRITE
    show ?thesis unfolding exec_inst_def WRITE ins_opcode_t.case by (rule pr, erule call_sounds)
  next
    case KMALLOC
    let ?r = "ucast (arg_1 ins) :: u32" and ?sz = "ucast (arg_0 ins) :: u32"
    have r: "sint ?r < int (length (regs x)) \<or> 30 \<le> sint ?r" and rm: "room_for x (ucast ?sz)"
      using ok KMALLOC rs by (auto simp: inst_ok_def Let_def)
    have "returns (libkmem_malloc (regs x) (krnl_of K x) ?sz ?r)
        (\<lambda>(_, rs', k'). sound m (krnl_of K x) k' \<and> length rs' = length (regs x))" if v: "vm_inv m v (krnl_of K x)" for v
    proof (cases "?sz = 0")
      case False
      show ?thesis unfolding libkmem_malloc_def if_not_P [OF False]
        by (rule kmalloc_sound [OF v room_forD [OF rm p(3) v] r])
    qed (use sound_refl [OF v] in \<open>simp add: libkmem_malloc_def\<close>)
    then show ?thesis unfolding exec_inst_def KMALLOC ins_opcode_t.case by (rule rr)
  next
    case KMEM_CACHE_ALLOC
    let ?r = "ucast (arg_1 ins) :: u32"
    have r: "sint ?r < int (length (regs x)) \<or> 30 \<le> sint ?r" and rm: "room_for x PAGING64_PAGESZ"
      using ok KMEM_CACHE_ALLOC rs by (auto simp: inst_ok_def Let_def)
    have "returns (libkmem_cache_alloc (regs x) (krnl_of K x) (ucast (arg_0 ins)) ?r)
        (\<lambda>(_, rs', k'). sound m (krnl_of K x) k' \<and> length rs' = length (regs x))" if v: "vm_inv m v (krnl_of K x)" for v
      using kmalloc_sound [OF v room_forD [OF rm p(3) v] r] by (simp add: libkmem_cache_alloc_def kmem_cache_alloc_def)
    then show ?thesis unfolding exec_inst_def KMEM_CACHE_ALLOC ins_opcode_t.case by (rule rr)
  next
    case COPY_FROM_USER
    have "returns (libkmem_copy_from_user k a b c d) (\<lambda>(_, k'). sound m k k')" if "vm_inv m v k" for v k a b c d
      unfolding libkmem_copy_from_user_def read_user_mem_def write_kernel_mem_def
      by (rule copy_loop_sound [OF read_sound write_sound that])
    note cp = this
    show ?thesis unfolding exec_inst_def COPY_FROM_USER ins_opcode_t.case by (rule pr, erule cp)
  next
    case COPY_TO_USER
    have "returns (libkmem_copy_to_user k a b c d) (\<lambda>(_, k'). sound m k k')" if "vm_inv m v k" for v k a b c d
      unfolding libkmem_copy_to_user_def read_kernel_mem_def write_user_mem_def
      by (rule copy_loop_sound [OF read_sound write_sound that])
    note cp = this
    show ?thesis unfolding exec_inst_def COPY_TO_USER ins_opcode_t.case by (rule pr, erule cp)
  next
    case SYSCALL
    then show ?thesis using ok same p
      by (simp add: exec_inst_def inst_ok_def Let_def libsyscall_def syscall_def)
  qed (use same in \<open>simp_all add: exec_inst_def\<close>)
qed

text \<open>One call of \<open>run\<close>.\<close>

lemma run_touched:
  assumes "sys_inv (kern_mem K)" and "procs K p = Some x" and "p \<noteq> NULL" and "krnl_mm x = Some m"
    and "length (regs x) = 10" and "unat (pc x) < length (code x) \<longrightarrow> inst_ok x (code x ! unat (pc x))"
  shows "returns (run K p) (\<lambda>(r, K'). only_touched K p (x\<lparr>pc := (if unat (pc x) < length (code x) then pc x + 1 else pc x)\<rparr>) K')"
proof (cases "unat (pc x) < length (code x)")
  case True
  let ?x = "x\<lparr>pc := pc x + 1\<rparr>"
  let ?K = "K\<lparr>procs := (procs K)(p \<mapsto> ?x)\<rparr>"
  have "kern_mem ?K = kern_mem K" using assms(2) by (simp add: kern_mem_def fun_eq_iff)
  then have inv: "sys_inv (kern_mem ?K)" and mem: "proc_view (kern_mem ?K) q = proc_view (kern_mem K) q" for q
    using assms(1) by simp_all
  have "inst_ok ?x (code x ! unat (pc x))" using assms(6) True by simp
  then have "returns (exec_inst ?K p (code x ! unat (pc x))) (\<lambda>(r, K'). only_touched ?K p ?x K')"
    using assms by (intro exec_inst_touched [OF inv]) simp_all
  then obtain r K' where e: "exec_inst ?K p (code x ! unat (pc x)) = Inr (r, K')" "only_touched ?K p ?x K'"
    by (auto elim!: returnsE)
  have "run K p = Inr (r, K')" using assms(2,3) True e(1) by (simp add: run_def)
  moreover have "only_touched K p ?x K'" using e(2) by (auto simp: only_touched_def mem)
  ultimately show ?thesis using True by simp
next
  case False
  then have "run K p = Inr (1, K)" using assms(2,3) by (simp add: run_def)
  then show ?thesis using touched_same [OF assms(1,2,4)] False by simp
qed

text \<open>
  C13. One instruction of a process in a system that satisfies the memory invariant, whatever the
  instruction and its arguments but for the three limits of \<open>inst_ok\<close>, has no fault. It moves the
  program counter by one (at the end of the code it does nothing), keeps the invariant, and leaves
  the scheduler, the block of every other process and every byte of their memory as they were; of
  its own block only the counter, the registers and the memory description may change.
\<close>

theorem run_isolated:
  assumes "sys_inv (kern_mem K)" and "procs K p = Some x" and "p \<noteq> NULL" and "krnl_mm x = Some m"
    and "length (regs x) = 10" and "unat (pc x) < length (code x) \<longrightarrow> inst_ok x (code x ! unat (pc x))"
  shows "returns (run K p) (\<lambda>(r, K'). sys_inv (kern_mem K') \<and> sched K' = sched K
    \<and> (\<exists>rs m'. length rs = 10 \<and> procs K' p = Some (x\<lparr>
        pc := (if unat (pc x) < length (code x) then pc x + 1 else pc x), regs := rs, krnl_mm := Some m'\<rparr>))
    \<and> (\<forall>q. q \<noteq> p \<longrightarrow> procs K' q = procs K q
         \<and> content (proc_view (kern_mem K') q) = content (proc_view (kern_mem K) q)))"
proof -
  define y where "y = x\<lparr>pc := (if unat (pc x) < length (code x) then pc x + 1 else pc x)\<rparr>"
  obtain r K' where r: "run K p = Inr (r, K')" "only_touched K p y K'"
    using run_touched [OF assms] by (auto simp: y_def elim!: returnsE)
  have ly: "length (regs y) = 10" using assms(5) by (simp add: y_def)
  show ?thesis unfolding y_def [symmetric] r(1) returns_simps prod.case
    using r(2) [unfolded only_touched_def ly] by blast
qed

text \<open>A kernel with two processes; the first has one instruction.\<close>

definition one_inst :: "inst_t \<Rightarrow> kern" where
  "one_inst ins = \<lparr>procs = [1 \<mapsto> (sample_pcb 1 0 3)\<lparr>code := [ins], krnl_mm := Some init_mm\<rparr>,
     2 \<mapsto> (sample_pcb 2 0 3)\<lparr>krnl_mm := Some init_mm\<rparr>], sched = demo_sched,
     kram = mram new_krnl, kswp = active_mswp new_krnl\<rparr>"

lemma one_inst_inv: "sys_inv (kern_mem (one_inst ins))"
proof -
  have "kern_mem (one_inst ins) = new_sys" by (auto simp: kern_mem_def one_inst_def new_sys_def fun_eq_iff)
  then show ?thesis using sys_inv_new by simp
qed

theorem run_isolated_witness:
  "returns (run (one_inst \<lparr>opcode = WRITE, arg_0 = 7, arg_1 = 40, arg_2 = 99, arg_3 = 0\<rparr>) 1)
     (\<lambda>(r, K'). sys_inv (kern_mem K') \<and> (\<exists>x. procs K' 1 = Some x \<and> pc x = 1))"
proof -
  let ?i = "\<lparr>opcode = WRITE, arg_0 = 7, arg_1 = 40, arg_2 = 99, arg_3 = 0\<rparr>"
  let ?x = "(sample_pcb 1 0 3)\<lparr>code := [?i], krnl_mm := Some init_mm\<rparr>"
  have x: "procs (one_inst ?i) 1 = Some ?x" by (simp add: one_inst_def)
  have "inst_ok ?x ?i" by (simp add: inst_ok_def)
  then have "unat (pc ?x) < length (code ?x) \<longrightarrow> inst_ok ?x (code ?x ! unat (pc ?x))" by (simp add: sample_pcb_def)
  from run_isolated [OF one_inst_inv x _ _ _ this] show ?thesis
    by (auto simp: sample_pcb_def elim!: returnsE)
qed

end
