(* ===== verification/Timer.thy ===== *)
theory Timer
  imports Prelude
begin

text \<open>
  \<^verbatim>\<open>src/timer.c\<close>: the clock of the simulator. The timer thread waits until every attached device
  has finished its work of the current slot, advances the time and lets the devices go on; it is a
  barrier between the processors and the loader. The threads are a step relation whose steps are
  the critical sections of the code. A wait on a condition variable is a step that is enabled when
  the awaited condition holds: the condition is always set, and signalled, under the lock the
  waiting thread holds when it tests it.
\<close>

section \<open>State and operations\<close>

record timer_id =
  slot_done :: bool
  fsh :: bool

text \<open>
  \<open>devs\<close> has the devices in the order of their attachment, and a device is its position in it; the
  linked list \<open>dev_list\<close> of the code has them the other way round, the last attached first.
\<close>

record timer =
  devs :: "timer_id list"
  clock :: addr
  timer_started :: bool
  timer_stop :: bool

definition static_timer :: timer where
  "static_timer = \<lparr>devs = [], clock = 0, timer_started = False, timer_stop = False\<rparr>"

definition current_time :: "timer \<Rightarrow> addr" where
  "current_time t = clock t"

definition attach_event :: "timer \<Rightarrow> nat option \<times> timer" where
  "attach_event t =
     (if timer_started t then (None, t)
      else (Some (length (devs t)), t\<lparr>devs := devs t @ [\<lparr>slot_done = False, fsh = False\<rparr>]\<rparr>))"

definition start_timer :: "timer \<Rightarrow> timer" where
  "start_timer t = t\<lparr>timer_started := True\<rparr>"

definition set_dev :: "timer \<Rightarrow> nat \<Rightarrow> (timer_id \<Rightarrow> timer_id) \<Rightarrow> timer" where
  "set_dev t i f = t\<lparr>devs := (devs t)[i := f (devs t ! i)]\<rparr>"

text \<open>The two critical sections of \<open>next_slot\<close>; the second is entered when \<open>done\<close> is 0.\<close>

definition slot_finished :: "timer \<Rightarrow> nat \<Rightarrow> timer" where
  "slot_finished t i = set_dev t i (slot_done_update (\<lambda>_. True))"

definition slot_released :: "timer \<Rightarrow> nat \<Rightarrow> bool" where
  "slot_released t i \<longleftrightarrow> \<not> slot_done (devs t ! i)"

definition detach_event :: "timer \<Rightarrow> nat \<Rightarrow> timer" where
  "detach_event t i = set_dev t i (fsh_update (\<lambda>_. True))"

text \<open>
  Where the timer thread stands: at the loop test, in the first loop over the devices or in the
  second one (with the devices still to visit and the counters \<open>fsh\<close> and \<open>event\<close>), or ended.
\<close>

datatype timer_pc = Loop | Await "nat list" nat nat | Release "nat list" nat nat | Ended

definition dev_order :: "timer \<Rightarrow> nat list" where
  "dev_order t = rev [0..<length (devs t)]"

text \<open>
  One step of \<open>timer_routine\<close>; there is none while it waits for a device, nor after the end.
\<close>

fun timer_routine :: "timer \<times> timer_pc \<Rightarrow> (timer \<times> timer_pc) option" where
  "timer_routine (t, Loop) = Some (t, if timer_stop t then Ended else Await (dev_order t) 0 0)"
| "timer_routine (t, Await (d # ds) f e) =
     (if slot_done (devs t ! d) \<or> fsh (devs t ! d)
      then Some (t, Await ds (if fsh (devs t ! d) then f + 1 else f) (e + 1))
      else None)"
| "timer_routine (t, Await [] f e) = Some (t\<lparr>clock := clock t + 1\<rparr>, Release (dev_order t) f e)"
| "timer_routine (t, Release (d # ds) f e) = Some (set_dev t d (slot_done_update (\<lambda>_. False)), Release ds f e)"
| "timer_routine (t, Release [] f e) = Some (t, if f = e then Ended else Loop)"
| "timer_routine (t, Ended) = None"

text \<open>\<open>stop_timer\<close> asks the thread to end, waits for that, and frees the list.\<close>

definition stop_request :: "timer \<Rightarrow> timer" where
  "stop_request t = t\<lparr>timer_stop := True\<rparr>"

definition stop_timer :: "timer \<times> timer_pc \<Rightarrow> timer option" where
  "stop_timer = (\<lambda>(t, tpc). if tpc = Ended then Some (t\<lparr>timer_stop := True, devs := []\<rparr>) else None)"

section \<open>The threads\<close>

text \<open>A thread with a device works on its slot, is inside \<open>next_slot\<close>, or has detached.\<close>

datatype dev_pc = Working | Blocked | Gone

record barrier =
  tm :: timer
  tpc :: timer_pc
  dpc :: "nat \<Rightarrow> dev_pc"

datatype barrier_event = Timer | Done nat | Wake nat | Detach nat | Stop

definition ticks :: "barrier \<Rightarrow> bool" where
  "ticks s \<longleftrightarrow> (\<exists>f e. tpc s = Await [] f e)"

inductive barrier_step :: "barrier \<Rightarrow> barrier_event \<Rightarrow> barrier \<Rightarrow> bool" where
  tick: "timer_routine (tm s, tpc s) = Some (t', q) \<Longrightarrow> barrier_step s Timer (s\<lparr>tm := t', tpc := q\<rparr>)"
| finish: "i < length (devs (tm s)) \<Longrightarrow> dpc s i = Working \<Longrightarrow>
     barrier_step s (Done i) (s\<lparr>tm := slot_finished (tm s) i, dpc := (dpc s)(i := Blocked)\<rparr>)"
| wake: "i < length (devs (tm s)) \<Longrightarrow> dpc s i = Blocked \<Longrightarrow> slot_released (tm s) i \<Longrightarrow>
     barrier_step s (Wake i) (s\<lparr>dpc := (dpc s)(i := Working)\<rparr>)"
| leave: "i < length (devs (tm s)) \<Longrightarrow> dpc s i = Working \<Longrightarrow>
     barrier_step s (Detach i) (s\<lparr>tm := detach_event (tm s) i, dpc := (dpc s)(i := Gone)\<rparr>)"
| halt: "\<forall>i < length (devs (tm s)). dpc s i = Gone \<Longrightarrow> barrier_step s Stop (s\<lparr>tm := stop_request (tm s)\<rparr>)"

text \<open>
  A run, with the number of slots that the timer has ended and that each device has entered after
  the first one.
\<close>

inductive barrier_run :: "nat \<Rightarrow> barrier \<Rightarrow> nat \<Rightarrow> (nat \<Rightarrow> nat) \<Rightarrow> bool" for n where
  init: "tm s = start_timer (((\<lambda>t. snd (attach_event t)) ^^ n) static_timer) \<Longrightarrow> tpc s = Loop \<Longrightarrow>
     (\<forall>i. dpc s i = Working) \<Longrightarrow> barrier_run n s 0 (\<lambda>_. 0)"
| move: "barrier_run n s t w \<Longrightarrow> barrier_step s e s' \<Longrightarrow>
     barrier_run n s' (if e = Timer \<and> ticks s then t + 1 else t) (case e of Wake i \<Rightarrow> w(i := w i + 1) | _ \<Rightarrow> w)"


section \<open>The invariant of the barrier\<close>

definition passed :: "timer_pc \<Rightarrow> nat \<Rightarrow> bool" where
  "passed q i = (case q of Await ds _ _ \<Rightarrow> i \<notin> set ds | _ \<Rightarrow> False)"

definition pending :: "timer_pc \<Rightarrow> nat \<Rightarrow> bool" where
  "pending q i = (case q of Release ds _ _ \<Rightarrow> i \<in> set ds | _ \<Rightarrow> False)"

text \<open>A device in slot \<open>w\<close> while the timer has ended \<open>t\<close> slots.\<close>

definition dev_ok :: "timer_id \<Rightarrow> dev_pc \<Rightarrow> timer_pc \<Rightarrow> nat \<Rightarrow> nat \<Rightarrow> nat \<Rightarrow> bool" where
  "dev_ok d pc q i t w \<longleftrightarrow> (case pc of
      Working \<Rightarrow> \<not> slot_done d \<and> \<not> fsh d \<and> w = t \<and> \<not> passed q i \<and> \<not> pending q i
    | Blocked \<Rightarrow> \<not> fsh d \<and> (if slot_done d then (if pending q i then w + 1 = t else w = t)
                   else w + 1 = t \<and> \<not> passed q i \<and> \<not> pending q i)
    | Gone \<Rightarrow> fsh d \<and> \<not> slot_done d)"

definition loop_ok :: "nat \<Rightarrow> timer_pc \<Rightarrow> (nat \<Rightarrow> dev_pc) \<Rightarrow> bool" where
  "loop_ok n q pcs \<longleftrightarrow> (case q of
      Loop \<Rightarrow> True
    | Await ds f e \<Rightarrow> distinct ds \<and> set ds \<subseteq> {..<n} \<and> f \<le> e
        \<and> (f = e \<longrightarrow> (\<forall>i < n. i \<notin> set ds \<longrightarrow> pcs i = Gone))
    | Release ds f e \<Rightarrow> distinct ds \<and> set ds \<subseteq> {..<n} \<and> (f = e \<longrightarrow> (\<forall>i < n. pcs i = Gone))
    | Ended \<Rightarrow> \<forall>i < n. pcs i = Gone)"

definition barrier_inv :: "nat \<Rightarrow> barrier \<Rightarrow> nat \<Rightarrow> (nat \<Rightarrow> nat) \<Rightarrow> bool" where
  "barrier_inv n s t w \<longleftrightarrow> length (devs (tm s)) = n \<and> clock (tm s) = word_of_nat t
     \<and> loop_ok n (tpc s) (dpc s)
     \<and> (timer_stop (tm s) \<longrightarrow> (\<forall>i < n. dpc s i = Gone))
     \<and> (\<forall>i < n. dev_ok (devs (tm s) ! i) (dpc s i) (tpc s) i t (w i))"

lemma set_dev_sel [simp]:
  "length (devs (set_dev t i f)) = length (devs t)" "clock (set_dev t i f) = clock t"
  "timer_stop (set_dev t i f) = timer_stop t"
  "i < length (devs t) \<Longrightarrow> devs (set_dev t i f) ! j = (if j = i then f (devs t ! i) else devs t ! j)"
  by (auto simp: set_dev_def nth_list_update)

lemma loop_ok_gone: "loop_ok n q pcs \<Longrightarrow> pcs i \<noteq> Gone \<Longrightarrow> x = Gone \<or> i < n \<Longrightarrow> loop_ok n q (pcs(i := x))"
  by (cases q) (auto simp: loop_ok_def)

lemma order_set [simp]: "set (dev_order t) = {..<length (devs t)}" "distinct (dev_order t)"
  by (auto simp: dev_order_def)

text \<open>A step of one device.\<close>

lemma dev_step_inv:
  assumes inv: "barrier_inv n s t w" and i: "i < n" and ng: "dpc s i \<noteq> Gone"
    and ok: "dev_ok (f (devs (tm s) ! i)) pc (tpc s) i t w'"
  shows "barrier_inv n (s\<lparr>tm := set_dev (tm s) i f, dpc := (dpc s)(i := pc)\<rparr>) t (w(i := w'))"
  using assms loop_ok_gone [of n "tpc s" "dpc s" i pc] by (auto simp: barrier_inv_def)

lemma tick_inv:
  assumes inv: "barrier_inv n s t w" and st: "timer_routine (tm s, tpc s) = Some (t', q)"
  shows "barrier_inv n (s\<lparr>tm := t', tpc := q\<rparr>) (if ticks s then t + 1 else t) w"
proof -
  have len: "length (devs (tm s)) = n" and stop: "timer_stop (tm s) \<longrightarrow> (\<forall>i < n. dpc s i = Gone)"
    and cl: "clock (tm s) = word_of_nat t" and lo: "loop_ok n (tpc s) (dpc s)"
    and ok: "\<And>i. i < n \<Longrightarrow> dev_ok (devs (tm s) ! i) (dpc s i) (tpc s) i t (w i)"
    using inv by (simp_all add: barrier_inv_def)
  show ?thesis
  proof (cases "(tm s, tpc s)" rule: timer_routine.cases)
    case (1 u)
    have "dev_ok (devs (tm s) ! i) (dpc s i) q i t (w i)" if "i < n" for i
      using ok [OF that] that 1 st len by (auto simp: dev_ok_def passed_def pending_def split: dev_pc.splits if_splits)
    then show ?thesis using 1 st len stop cl by (auto simp: barrier_inv_def loop_ok_def ticks_def)
  next
    case (2 u d ds f e)
    have d: "d < n" "d \<notin> set ds" and q: "slot_done (devs u ! d) \<or> fsh (devs u ! d)"
        "q = Await ds (if fsh (devs u ! d) then f + 1 else f) (e + 1)" "t' = u"
      using 2 lo st by (auto simp: loop_ok_def split: if_splits)
    have "dev_ok (devs (tm s) ! i) (dpc s i) q i t (w i)" if "i < n" for i
      using ok [OF that] 2 q by (auto simp: dev_ok_def passed_def pending_def split: dev_pc.splits if_splits)
    moreover have "fsh (devs u ! d) \<longleftrightarrow> dpc s d = Gone"
      using ok [OF d(1)] 2 by (auto simp: dev_ok_def split: dev_pc.splits)
    then have "loop_ok n q (dpc s)" using lo 2 q(2) d by (auto simp: loop_ok_def)
    ultimately show ?thesis using 2 q(3) len stop cl by (simp add: barrier_inv_def ticks_def)
  next
    case (3 u f e)
    have q: "t' = u\<lparr>clock := clock u + 1\<rparr>" "q = Release (dev_order u) f e" using 3 st by auto
    have "dev_ok (devs u ! i) (dpc s i) q i (t + 1) (w i)" if "i < n" for i
      using ok [OF that] that 3 q len
      by (auto simp: dev_ok_def passed_def pending_def split: dev_pc.splits if_splits)
    then show ?thesis using 3 q lo len stop cl by (auto simp: barrier_inv_def ticks_def loop_ok_def)
  next
    case (4 u d ds f e)
    have d: "d < n" "d \<notin> set ds" and q: "t' = set_dev u d (slot_done_update (\<lambda>_. False))" "q = Release ds f e"
      using 4 lo st by (auto simp: loop_ok_def)
    have "dev_ok (devs t' ! i) (dpc s i) q i t (w i)" if "i < n" for i
      using ok [OF that] 4 q len d
      by (auto simp: dev_ok_def passed_def pending_def split: dev_pc.splits if_splits)
    then show ?thesis using 4 q lo len stop cl by (auto simp: barrier_inv_def ticks_def loop_ok_def)
  next
    case (5 u f e)
    have q: "t' = u" "q = (if f = e then Ended else Loop)" using 5 st by auto
    have "dev_ok (devs u ! i) (dpc s i) q i t (w i)" if "i < n" for i
      using ok [OF that] 5 q by (auto simp: dev_ok_def passed_def pending_def split: dev_pc.splits if_splits)
    then show ?thesis using 5 q lo len stop cl by (auto simp: barrier_inv_def ticks_def loop_ok_def)
  qed (use st in auto)
qed


lemma barrier_invD:
  assumes "barrier_inv n s t w"
  shows "length (devs (tm s)) = n" "clock (tm s) = word_of_nat t" "loop_ok n (tpc s) (dpc s)"
    "timer_stop (tm s) \<Longrightarrow> i < n \<Longrightarrow> dpc s i = Gone"
    "i < n \<Longrightarrow> dev_ok (devs (tm s) ! i) (dpc s i) (tpc s) i t (w i)"
  using assms by (simp_all add: barrier_inv_def)

lemma barrier_step_inv:
  assumes inv: "barrier_inv n s t w" and st: "barrier_step s e s'"
  shows "barrier_inv n s' (if e = Timer \<and> ticks s then t + 1 else t) (case e of Wake i \<Rightarrow> w(i := w i + 1) | _ \<Rightarrow> w)"
  using st
proof cases
  case (tick t' q)
  then show ?thesis using tick_inv [OF inv tick(3)] by simp
next
  case (finish i)
  have i: "i < n" using finish(3) barrier_invD(1) [OF inv] by simp
  have ok: "dev_ok (slot_done_update (\<lambda>_. True) (devs (tm s) ! i)) Blocked (tpc s) i t (w i)"
    using barrier_invD(5) [OF inv i] finish by (simp add: dev_ok_def)
  have "barrier_inv n s' t (w(i := w i))"
    unfolding finish(2) slot_finished_def by (rule dev_step_inv [OF inv i]) (use finish ok in simp_all)
  then show ?thesis using finish(1) by simp
next
  case (wake i)
  have i: "i < n" using wake(3) barrier_invD(1) [OF inv] by simp
  have ok: "dev_ok (devs (tm s) ! i) Working (tpc s) i t (w i + 1)"
    using barrier_invD(5) [OF inv i] wake by (auto simp: dev_ok_def slot_released_def split: if_splits)
  have "set_dev (tm s) i (\<lambda>d. d) = tm s" by (simp add: set_dev_def)
  then show ?thesis using dev_step_inv [OF inv i, of "\<lambda>d. d" Working "w i + 1"] ok wake by simp
next
  case (leave i)
  have i: "i < n" using leave(3) barrier_invD(1) [OF inv] by simp
  have ok: "dev_ok (fsh_update (\<lambda>_. True) (devs (tm s) ! i)) Gone (tpc s) i t (w i)"
    using barrier_invD(5) [OF inv i] leave by (simp add: dev_ok_def)
  have "barrier_inv n s' t (w(i := w i))"
    unfolding leave(2) detach_event_def by (rule dev_step_inv [OF inv i]) (use leave ok in simp_all)
  then show ?thesis using leave(1) by simp
next
  case halt
  then show ?thesis using inv by (auto simp: barrier_inv_def stop_request_def)
qed

lemma attached: "devs (((\<lambda>t. snd (attach_event t)) ^^ n) static_timer) = replicate n \<lparr>slot_done = False, fsh = False\<rparr>
    \<and> clock (((\<lambda>t. snd (attach_event t)) ^^ n) static_timer) = 0
    \<and> \<not> timer_started (((\<lambda>t. snd (attach_event t)) ^^ n) static_timer)
    \<and> \<not> timer_stop (((\<lambda>t. snd (attach_event t)) ^^ n) static_timer)"
  by (induction n) (auto simp: static_timer_def attach_event_def replicate_append_same)

lemma barrier_run_inv: "barrier_run n s t w \<Longrightarrow> barrier_inv n s t w"
proof (induction rule: barrier_run.induct)
  case (init s)
  then show ?case using attached [of n]
    by (auto simp: barrier_inv_def start_timer_def loop_ok_def dev_ok_def passed_def pending_def)
next
  case (move s t w e s')
  then show ?case by (intro barrier_step_inv)
qed

lemma barrier_run_le: "barrier_run n s t w \<Longrightarrow> w i \<le> t"
proof (induction rule: barrier_run.induct)
  case (move s t w e s')
  show ?case
  proof (cases "e = Wake i")
    case True
    have "w i + 1 = t" using move.hyps(2) unfolding True
    proof cases
      case wake
      then have "i < n" using barrier_invD(1) [OF barrier_run_inv [OF move.hyps(1)]] by simp
      from barrier_invD(5) [OF barrier_run_inv [OF move.hyps(1)] this] wake show ?thesis
        by (auto simp: dev_ok_def slot_released_def split: if_splits)
    qed
    then show ?thesis using True by simp
  next
    case False
    then show ?thesis using move.IH by (cases e) auto
  qed
qed simp

section \<open>Properties\<close>

text \<open>
  C16. The timer is a barrier. In every interleaving of the timer thread with \<open>n\<close> devices, a device
  that works is in the slot of the clock, which does not move while it works; a device inside
  \<open>next_slot\<close> is at most one slot behind; so no two attached devices are ever more than one slot
  apart. The timer thread ends only when all devices have detached.
\<close>

theorem slots_in_step:
  assumes "barrier_run n s t w" and "i < n" and "j < n"
  shows "current_time (tm s) = word_of_nat t
    \<and> (dpc s i = Working \<longrightarrow> w i = t)
    \<and> (dpc s i = Blocked \<longrightarrow> w i = t \<or> w i + 1 = t)
    \<and> (dpc s i \<noteq> Gone \<longrightarrow> dpc s j \<noteq> Gone \<longrightarrow> w i \<le> w j + 1)
    \<and> (tpc s = Ended \<longrightarrow> dpc s i = Gone)"
proof -
  note inv = barrier_run_inv [OF assms(1)]
  note ok = barrier_invD(5) [OF inv assms(2)] barrier_invD(5) [OF inv assms(3)]
  have range: "w k = t \<or> w k + 1 = t" if "dev_ok d pc q k t (w k)" "pc \<noteq> Gone" for d pc q k
    using that by (cases pc) (auto simp: dev_ok_def split: if_splits)
  have "tpc s = Ended \<longrightarrow> dpc s i = Gone" using barrier_invD(3) [OF inv] assms(2) by (auto simp: loop_ok_def)
  then show ?thesis using range [OF ok(1)] range [OF ok(2)] ok(1) barrier_invD(2) [OF inv]
    by (auto simp: current_time_def dev_ok_def)
qed

section \<open>Every wait ends\<close>

text \<open>A continuation of a run, with its events.\<close>

inductive barrier_path :: "barrier \<Rightarrow> barrier_event list \<Rightarrow> barrier \<Rightarrow> bool" for s where
  stay: "barrier_path s [] s"
| go: "barrier_path s es s' \<Longrightarrow> barrier_step s' e s'' \<Longrightarrow> barrier_path s (es @ [e]) s''"

text \<open>The timer thread waits only for a device that still works or that can leave \<open>next_slot\<close> at once.\<close>

lemma timer_waits:
  assumes "barrier_run n s t w" and "timer_routine (tm s, tpc s) = None"
  shows "tpc s = Ended \<and> (\<forall>i < n. dpc s i = Gone) \<or> (\<exists>i < n. dpc s i = Working \<or> (\<exists>s'. barrier_step s (Wake i) s'))"
proof -
  note inv = barrier_run_inv [OF assms(1)]
  have wake: "\<exists>s'. barrier_step s (Wake i) s'" if "i < n" "dpc s i = Blocked" "\<not> slot_done (devs (tm s) ! i)" for i
    using barrier_step.wake [of i s] that barrier_invD(1) [OF inv] by (auto simp: slot_released_def)
  show ?thesis
  proof (cases "(tm s, tpc s)" rule: timer_routine.cases)
    case (2 u d ds f e)
    have d: "d < n" using barrier_invD(3) [OF inv] 2 by (auto simp: loop_ok_def)
    have nd: "\<not> slot_done (devs (tm s) ! d)" "\<not> fsh (devs (tm s) ! d)" using assms(2) 2 by (auto split: if_splits)
    then have "dpc s d \<noteq> Gone" using barrier_invD(5) [OF inv d] by (auto simp: dev_ok_def)
    then show ?thesis using wake [OF d _ nd(1)] d by (cases "dpc s d") auto
  next
    case (6 u)
    then show ?thesis using barrier_invD(3) [OF inv] by (auto simp: loop_ok_def)
  qed (use assms(2) in auto)
qed

lemma barrier_enabled:
  assumes "barrier_run n s t w" and "i < n" and "dpc s i = Blocked"
  shows "\<exists>e s'. barrier_step s e s'"
proof -
  note inv = barrier_run_inv [OF assms(1)]
  have ne: "tpc s \<noteq> Ended" using barrier_invD(3) [OF inv] assms(2,3) by (auto simp: loop_ok_def)
  show ?thesis
  proof (cases "timer_routine (tm s, tpc s)")
    case None
    with timer_waits [OF assms(1) None] ne obtain d where d: "d < n" "dpc s d = Working \<or> (\<exists>s'. barrier_step s (Wake d) s')" by blast
    then show ?thesis using barrier_step.finish [of d s] barrier_invD(1) [OF inv] by auto
  next
    case (Some r)
    then show ?thesis using barrier_step.tick [of s "fst r" "snd r"] by auto
  qed
qed

text \<open>
  How far the threads have come while a device waits in slot \<open>W\<close>. The position of the timer thread
  counts its steps since the last tick; the rank of a device counts its entries into slots and into
  \<open>next_slot\<close>, and one that has detached has the highest.
\<close>

definition timer_pos :: "nat \<Rightarrow> timer_pc \<Rightarrow> nat" where
  "timer_pos n q = (case q of Release ds _ _ \<Rightarrow> n - length ds | Loop \<Rightarrow> n + 1 | Await ds _ _ \<Rightarrow> n + 2 + (n - length ds) | Ended \<Rightarrow> 0)"

definition dev_rank :: "nat \<Rightarrow> dev_pc \<Rightarrow> nat \<Rightarrow> nat" where
  "dev_rank W pc w = (case pc of Working \<Rightarrow> 2 * w | Blocked \<Rightarrow> 2 * w + 1 | Gone \<Rightarrow> 2 * W + 4)"

definition rank :: "nat \<Rightarrow> nat \<Rightarrow> barrier \<Rightarrow> nat \<Rightarrow> (nat \<Rightarrow> nat) \<Rightarrow> nat" where
  "rank n W s t w = t * (2 * n + 3) + timer_pos n (tpc s) + (\<Sum>d < n. dev_rank W (dpc s d) (w d))"

lemma timer_pos_step:
  assumes lo: "loop_ok n (tpc s) pcs" and len: "length (devs (tm s)) = n" and st: "timer_routine (tm s, tpc s) = Some (t', q)"
    and q: "q \<noteq> Ended"
  shows "(if ticks s then t + 1 else t) * (2 * n + 3) + timer_pos n q = t * (2 * n + 3) + timer_pos n (tpc s) + 1"
proof -
  have short: "length ds \<le> n" if "distinct ds" "set ds \<subseteq> {..<n}" for ds :: "nat list"
    using card_mono [OF _ that(2)] distinct_card [OF that(1)] by simp
  have order: "length (dev_order t) = length (devs t)" for t by (simp add: dev_order_def)
  show ?thesis
  proof (cases "(tm s, tpc s)" rule: timer_routine.cases)
    case (1 u)
    then show ?thesis using st q len order [of u] by (auto simp: timer_pos_def ticks_def split: if_splits)
  next
    case (2 u d ds f e)
    then have "length (d # ds) \<le> n" using lo by (intro short) (auto simp: loop_ok_def)
    moreover have "q = Await ds (if fsh (devs u ! d) then f + 1 else f) (e + 1)" using 2 st by (auto split: if_splits)
    ultimately show ?thesis using 2 by (simp add: timer_pos_def ticks_def)
  next
    case (3 u f e)
    then show ?thesis using st len order [of u] by (auto simp: timer_pos_def ticks_def)
  next
    case (4 u d ds f e)
    then have "length (d # ds) \<le> n" using lo by (intro short) (auto simp: loop_ok_def)
    moreover have "q = Release ds f e" using 4 st by auto
    ultimately show ?thesis using 4 by (simp add: timer_pos_def ticks_def)
  next
    case (5 u f e)
    then show ?thesis using st q by (auto simp: timer_pos_def ticks_def split: if_splits)
  qed (use st in auto)
qed

lemma dev_rank_le:
  assumes "barrier_run n s t w" and "i < n" and "dpc s i = Blocked" and "d < n"
  shows "t = w i \<or> t = w i + 1"
    and "dev_rank (w i) (dpc s d) (w d) \<le> 2 * w i + 4 \<and> 2 * w i \<le> dev_rank (w i) (dpc s d) (w d) + 1"
proof -
  note i = slots_in_step [OF assms(1,2,2)]
  show t: "t = w i \<or> t = w i + 1" using i assms(3) by auto
  note d = slots_in_step [OF assms(1,4,4)]
  have "dpc s d = Working \<Longrightarrow> w d = t" "dpc s d = Blocked \<Longrightarrow> w d = t \<or> w d + 1 = t" using d by blast+
  then show "dev_rank (w i) (dpc s d) (w d) \<le> 2 * w i + 4 \<and> 2 * w i \<le> dev_rank (w i) (dpc s d) (w d) + 1"
    using t unfolding dev_rank_def by (cases "dpc s d") auto
qed

lemma rank_step:
  assumes run: "barrier_run n s t w" and i: "i < n" "dpc s i = Blocked" and st: "barrier_step s e s'" and e: "e \<noteq> Wake i"
  defines "t' \<equiv> if e = Timer \<and> ticks s then t + 1 else t"
    and "w' \<equiv> case e of Wake d \<Rightarrow> w(d := w d + 1) | _ \<Rightarrow> w"
  shows "dpc s' i = Blocked \<and> w' i = w i \<and> rank n (w i) s t w < rank n (w i) s' t' w'"
proof -
  note inv = barrier_run_inv [OF run]
  have len: "length (devs (tm s)) = n" by (rule barrier_invD(1) [OF inv])
  have run': "barrier_run n s' t' w'" unfolding t'_def w'_def by (rule barrier_run.move [OF run st])
  have dev: "rank n (w i) s t w < rank n (w i) s' t' w'"
    if "d < n" "tpc s' = tpc s" "t' = t" "\<And>b. b \<noteq> d \<Longrightarrow> dpc s' b = dpc s b \<and> w' b = w b"
      "dev_rank (w i) (dpc s d) (w d) < dev_rank (w i) (dpc s' d) (w' d)" for d
  proof -
    have "dev_rank (w i) (dpc s b) (w b) \<le> dev_rank (w i) (dpc s' b) (w' b)" for b
      using that(4) [of b] that(5) by (cases "b = d") simp_all
    then have "(\<Sum>b < n. dev_rank (w i) (dpc s b) (w b)) < (\<Sum>b < n. dev_rank (w i) (dpc s' b) (w' b))"
      using that(1,5) by (intro sum_strict_mono_ex1) auto
    then show ?thesis using that(2,3) by (simp add: rank_def)
  qed
  show ?thesis using st
  proof cases
    case (tick u q)
    have "loop_ok n q (dpc s)" using barrier_invD(3) [OF barrier_run_inv [OF run']] tick(2) by simp
    then have "q \<noteq> Ended" using i by (auto simp: loop_ok_def)
    from timer_pos_step [OF barrier_invD(3) [OF inv] len tick(3) this, of t] show ?thesis
      using i tick(1,2) by (simp add: rank_def t'_def w'_def)
  next
    case (finish d)
    have "d \<noteq> i" using finish(4) i(2) by auto
    moreover have "rank n (w i) s t w < rank n (w i) s' t' w'"
      by (rule dev [of d]) (use finish len in \<open>simp_all add: t'_def w'_def dev_rank_def\<close>)
    ultimately show ?thesis using finish(1,2) i by (simp add: w'_def)
  next
    case (wake d)
    have "d \<noteq> i" using wake(1) e by simp
    moreover have "rank n (w i) s t w < rank n (w i) s' t' w'"
      by (rule dev [of d]) (use wake len in \<open>simp_all add: t'_def w'_def dev_rank_def\<close>)
    ultimately show ?thesis using wake(1,2) i by (simp add: w'_def)
  next
    case (leave d)
    have d: "d < n" "d \<noteq> i" using leave(3,4) i(2) len by auto
    have "w d = t" using slots_in_step [OF run d(1,1)] leave(4) by simp
    then have "w d < w i + 2" using dev_rank_le(1) [OF run i d(1)] by auto
    then have "rank n (w i) s t w < rank n (w i) s' t' w'"
      by (intro dev [of d]) (use leave d in \<open>simp_all add: t'_def w'_def dev_rank_def\<close>)
    then show ?thesis using leave(1,2) d i by (simp add: w'_def)
  next
    case halt
    then show ?thesis using i len by auto
  qed
qed

lemma rank_path:
  assumes "barrier_path s es s'" and "barrier_run n s t w" and "i < n" and "dpc s i = Blocked" and "Wake i \<notin> set es"
  shows "\<exists>t' w'. barrier_run n s' t' w' \<and> dpc s' i = Blocked \<and> w' i = w i \<and> rank n (w i) s t w + length es \<le> rank n (w i) s' t' w'"
  using assms
proof (induction rule: barrier_path.induct)
  case stay
  then show ?case by auto
next
  case (go es s' e s'')
  then obtain t' w' where r: "barrier_run n s' t' w'" "dpc s' i = Blocked" "w' i = w i"
      "rank n (w i) s t w + length es \<le> rank n (w i) s' t' w'" by auto
  have "e \<noteq> Wake i" using go.prems(4) by auto
  note up = rank_step [OF r(1) assms(3) r(2) go.hyps(2) this]
  show ?case
    by (rule exI [of _ "if e = Timer \<and> ticks s' then t' + 1 else t'"],
        rule exI [of _ "case e of Wake d \<Rightarrow> w'(d := w' d + 1) | _ \<Rightarrow> w'"])
      (use up barrier_run.move [OF r(1) go.hyps(2)] r(3,4) in auto)
qed

lemma rank_bounds:
  assumes "barrier_run n s t w" and "i < n" and "dpc s i = Blocked"
  shows "rank n (w i) s t w \<le> (w i + 1) * (2 * n + 3) + 2 * n + 2 + n * (2 * w i + 4)"
    and "w i * (2 * n + 3) + n * (2 * w i) \<le> rank n (w i) s t w + n"
proof -
  note b = dev_rank_le [OF assms]
  have t: "t * (2 * n + 3) \<le> (w i + 1) * (2 * n + 3)" "w i * (2 * n + 3) \<le> t * (2 * n + 3)"
    using b(1) [OF assms(2)] by auto
  have "(\<Sum>d < n. dev_rank (w i) (dpc s d) (w d)) \<le> (\<Sum>d < n. 2 * w i + 4)"
    by (rule sum_mono) (use b(2) in simp)
  moreover have "timer_pos n (tpc s) \<le> 2 * n + 2" by (cases "tpc s") (auto simp: timer_pos_def)
  ultimately show "rank n (w i) s t w \<le> (w i + 1) * (2 * n + 3) + 2 * n + 2 + n * (2 * w i + 4)"
    using t(1) unfolding rank_def by simp
  have "(\<Sum>d < n. 2 * w i) \<le> (\<Sum>d < n. dev_rank (w i) (dpc s d) (w d) + 1)"
    by (rule sum_mono) (use b(2) in simp)
  then have "n * (2 * w i) \<le> (\<Sum>d < n. dev_rank (w i) (dpc s d) (w d)) + n" by (simp only: sum.distrib) simp
  then show "w i * (2 * n + 3) + n * (2 * w i) \<le> rank n (w i) s t w + n"
    using t(2) unfolding rank_def by linarith
qed

text \<open>
  C31. No device waits for good. When the timer thread cannot go on, it has ended and all devices have
  detached, or it waits for a device that still works or can leave \<open>next_slot\<close> at once. And from any
  state in which device \<open>i\<close> is inside \<open>next_slot\<close>, whatever the timer thread and the other devices do
  and in whatever order: as long as \<open>i\<close> has not left it, some step is possible, and after \<open>9 n + 5\<close> steps
  it has left; so the barrier neither deadlocks nor runs on without it.
\<close>

theorem barrier_progress:
  assumes "barrier_run n s t w"
  shows "(timer_routine (tm s, tpc s) = None \<longrightarrow> tpc s = Ended \<and> (\<forall>i < n. dpc s i = Gone)
       \<or> (\<exists>i < n. dpc s i = Working \<or> (\<exists>s'. barrier_step s (Wake i) s')))
    \<and> (\<forall>i < n. dpc s i = Blocked \<longrightarrow> (\<forall>es s'. barrier_path s es s' \<longrightarrow> Wake i \<notin> set es \<longrightarrow>
          length es \<le> 9 * n + 5 \<and> (\<exists>e s''. barrier_step s' e s'')))"
proof (intro conjI allI impI)
  show "tpc s = Ended \<and> (\<forall>i < n. dpc s i = Gone) \<or> (\<exists>i < n. dpc s i = Working \<or> (\<exists>s'. barrier_step s (Wake i) s'))"
    if "timer_routine (tm s, tpc s) = None" by (rule timer_waits [OF assms that])
  fix i es s' assume i: "i < n" "dpc s i = Blocked" and path: "barrier_path s es s'" "Wake i \<notin> set es"
  obtain t' w' where r: "barrier_run n s' t' w'" "dpc s' i = Blocked" "w' i = w i"
      "rank n (w i) s t w + length es \<le> rank n (w i) s' t' w'"
    using rank_path [OF path(1) assms i path(2)] by blast
  show "length es \<le> 9 * n + 5"
    using r(4) rank_bounds(2) [OF assms i] rank_bounds(1) [OF r(1) i(1) r(2)] unfolding r(3)
    by (simp add: algebra_simps)
  show "\<exists>e s''. barrier_step s' e s''" by (rule barrier_enabled [OF r(1) i(1) r(2)])
qed

text \<open>One device, after it has finished its first slot.\<close>

definition one_dev :: barrier where
  "one_dev = \<lparr>tm = start_timer (snd (attach_event static_timer)), tpc = Loop, dpc = \<lambda>_. Working\<rparr>"

lemma one_dev_run: "\<exists>s. barrier_run 1 s 0 (\<lambda>_. 0) \<and> dpc s 0 = Blocked"
proof -
  have 0: "barrier_run 1 one_dev 0 (\<lambda>_. 0)" by (rule barrier_run.init) (simp_all add: one_dev_def)
  have "barrier_step one_dev (Done 0) (one_dev\<lparr>tm := slot_finished (tm one_dev) 0, dpc := (dpc one_dev)(0 := Blocked)\<rparr>)"
    by (rule barrier_step.finish) (simp_all add: one_dev_def start_timer_def attach_event_def static_timer_def)
  from barrier_run.move [OF 0 this] show ?thesis by auto
qed

theorem slots_in_step_witness:
  "\<exists>s. barrier_run 1 s 0 (\<lambda>_. 0) \<and> dpc s 0 = Blocked \<and> current_time (tm s) = 0"
proof -
  obtain s where s: "barrier_run 1 s 0 (\<lambda>_. 0)" "dpc s 0 = Blocked" using one_dev_run by blast
  then show ?thesis using slots_in_step [OF s(1), of 0 0] by auto
qed

theorem barrier_progress_witness:
  "\<exists>s. barrier_run 1 s 0 (\<lambda>_. 0) \<and> dpc s 0 = Blocked
    \<and> {es. \<exists>s'. barrier_path s es s' \<and> Wake 0 \<notin> set es} \<subseteq> {es. length es \<le> 14}"
proof -
  obtain s where s: "barrier_run 1 s 0 (\<lambda>_. 0)" "dpc s 0 = Blocked" using one_dev_run by blast
  have "length es \<le> 14" if "barrier_path s es s'" "Wake 0 \<notin> set es" for es s'
    using barrier_progress [OF s(1)] s(2) that by force
  then show ?thesis using s by blast
qed

end
