(* ===== verification/Scan.thy ===== *)
theory Scan
  imports Prelude
begin

text \<open>
  What \<^verbatim>\<open>src/loader.c\<close> and \<^verbatim>\<open>src/os.c\<close> use of the C input functions: \<open>fscanf\<close> with the
  conversions \<open>%s\<close>, \<open>%d\<close>, \<open>%u\<close> and \<open>%lu\<close>, and \<open>fgets\<close>. A file is what is left of its
  characters. The theory also has the decimal numerals that the conversions read back.
\<close>

section \<open>Characters and numbers\<close>

definition is_space :: "char \<Rightarrow> bool" where
  "is_space c \<longleftrightarrow> of_char c = (32 :: nat) \<or> 9 \<le> (of_char c :: nat) \<and> of_char c \<le> (13 :: nat)"

definition is_digit :: "char \<Rightarrow> bool" where
  "is_digit c \<longleftrightarrow> 48 \<le> (of_char c :: nat) \<and> of_char c \<le> (57 :: nat)"

definition num_val :: "string \<Rightarrow> nat" where
  "num_val ds = foldl (\<lambda>n c. 10 * n + (of_char c - 48)) 0 ds"

definition skip_space :: "string \<Rightarrow> string" where
  "skip_space s = dropWhile is_space s"

text \<open>
  A conversion of a number: white space, a sign, digits. Without a digit nothing is converted, and
  the sign has been read.
\<close>

definition scan_sign :: "string \<Rightarrow> bool \<times> string" where
  "scan_sign s = (case s of [] \<Rightarrow> (False, [])
     | c # t \<Rightarrow> if c = CHR ''-'' then (True, t) else if c = CHR ''+'' then (False, t) else (False, s))"

definition scan_num :: "string \<Rightarrow> int option \<times> string" where
  "scan_num s =
     (let (neg, t) = scan_sign (skip_space s);
          ds = takeWhile is_digit t
      in if ds = [] then (None, t)
         else (Some (if neg then - int (num_val ds) else int (num_val ds)), dropWhile is_digit t))"

text \<open>
  The value stored in an unsigned variable of the given width, or in an \<open>int\<close>. A number out of
  range is undefined behaviour.
\<close>

definition to_unsigned :: "int \<Rightarrow> 'a::len word res" where
  "to_unsigned n = (if \<bar>n\<bar> < 2 ^ LENGTH('a) then Inr (word_of_int n) else Inl Bad_Conversion)"

definition to_int :: "int \<Rightarrow> int res" where
  "to_int n = (if - (2 ^ 31) \<le> n \<and> n < 2 ^ 31 then Inr n else Inl Bad_Conversion)"

text \<open>
  Up to \<open>n\<close> conversions in a row, each storing with \<open>conv\<close>; the first that fails ends the call.
  White space between conversions in the format changes nothing, as each skips it anyway.
\<close>

fun scan_nums :: "(int \<Rightarrow> 'a res) \<Rightarrow> nat \<Rightarrow> string \<Rightarrow> ('a list \<times> string) res" where
  "scan_nums conv 0 s = Inr ([], s)"
| "scan_nums conv (Suc n) s = (case scan_num s of
      (None, t) \<Rightarrow> Inr ([], t)
    | (Some v, t) \<Rightarrow> rbind (conv v) (\<lambda>w. rbind (scan_nums conv n t) (\<lambda>(ws, u). Inr (w # ws, u))))"

text \<open>A format that ends in white space, which is skipped when all its conversions were made.\<close>

definition scan_line :: "(int \<Rightarrow> 'a res) \<Rightarrow> nat \<Rightarrow> string \<Rightarrow> ('a list \<times> string) res" where
  "scan_line conv n s =
     rbind (scan_nums conv n s) (\<lambda>(ws, t). Inr (ws, if length ws = n then skip_space t else t))"

text \<open>
  \<open>%s\<close> into an array of \<open>cap\<close> characters, the last for the terminating \<open>NUL\<close>. At the end of the
  file nothing is stored.
\<close>

definition scan_word :: "nat \<Rightarrow> string \<Rightarrow> (string option \<times> string) res" where
  "scan_word cap s =
     (let t = skip_space s; w = takeWhile (\<lambda>c. \<not> is_space c) t in
      if w = [] then Inr (None, t)
      else if length w < cap then Inr (Some w, dropWhile (\<lambda>c. \<not> is_space c) t)
      else Inl Out_Of_Bounds)"

text \<open>
  \<open>fgets\<close> with an array of \<open>cap\<close> characters: a line with its newline, or as much of it as fits; at
  the end of the file nothing is stored.
\<close>

definition line_of :: "string \<Rightarrow> string" where
  "line_of s = (let l = takeWhile (\<lambda>c. c \<noteq> CHR ''\<newline>'') s in
     if length l < length s then l @ [CHR ''\<newline>''] else l)"

definition scan_gets :: "nat \<Rightarrow> string \<Rightarrow> string option \<times> string" where
  "scan_gets cap s =
     (if s = [] then (None, s)
      else (let l = take (cap - 1) (line_of s) in (Some l, drop (length l) s)))"

text \<open>The characters of an array as the string functions see it.\<close>

definition c_str :: "string \<Rightarrow> string" where
  "c_str s = takeWhile (\<lambda>c. c \<noteq> CHR 0x00) s"

section \<open>Decimal numerals\<close>

fun dec :: "nat \<Rightarrow> string" where
  "dec n = (if n < 10 then [char_of (48 + n)] else dec (n div 10) @ [char_of (48 + n mod 10)])"

declare dec.simps [simp del]

lemma of_digit [simp]: "d < 10 \<Longrightarrow> of_char (char_of (48 + d) :: char) = (48 + d :: nat)"
  by simp

lemma dec_digits: "\<forall>c \<in> set (dec n). is_digit c"
proof (induction n rule: dec.induct)
  case (1 n)
  then show ?case by (subst dec.simps) (auto simp: is_digit_def)
qed

lemma dec_val [simp]: "num_val (dec n) = n"
proof (induction n rule: dec.induct)
  case (1 n)
  then show ?case by (subst dec.simps) (auto simp: num_val_def)
qed

lemma dec_ne [simp]: "dec n \<noteq> []"
  by (subst dec.simps) simp

lemma dec_length: "0 < k \<Longrightarrow> n < 10 ^ k \<Longrightarrow> length (dec n) \<le> k"
proof (induction k arbitrary: n)
  case (Suc k)
  show ?case
  proof (cases "n < 10")
    case False
    then have "0 < k" using Suc.prems by (cases k) auto
    moreover have "n div 10 < 10 ^ k" using Suc.prems by (simp add: div_less_iff_less_mult mult.commute)
    ultimately show ?thesis using False Suc.IH by (subst dec.simps) simp
  qed (simp add: dec.simps)
qed simp

lemma digit_char: "is_digit c \<Longrightarrow> \<not> is_space c \<and> c \<noteq> CHR ''-'' \<and> c \<noteq> CHR ''+'' \<and> c \<noteq> CHR 0x00 \<and> c \<noteq> CHR ''\<newline>''"
  by (auto simp: is_digit_def is_space_def)

lemma space_chars [simp]: "is_space (CHR '' '')" "is_space (CHR ''\<newline>'')"
    "\<not> is_digit (CHR '' '')" "\<not> is_digit (CHR ''\<newline>'')"
  by (simp_all add: is_space_def is_digit_def)

lemma skip_space_space [simp]: "is_space c \<Longrightarrow> skip_space (c # s) = skip_space s"
  by (simp add: skip_space_def)

lemma skip_space_dec: "skip_space (dec n @ s) = dec n @ s"
proof -
  obtain c t where c: "dec n = c # t" using dec_ne [of n] by (cases "dec n") auto
  then have "is_digit c" using dec_digits [of n] by simp
  then show ?thesis using c digit_char by (simp add: skip_space_def)
qed

text \<open>A numeral that is followed by no further digit is read back.\<close>

lemma scan_num_dec:
  assumes "s = [] \<or> \<not> is_digit (hd s)"
  shows "scan_num (dec n @ s) = (Some (int n), s)"
proof -
  obtain c t where c: "dec n = c # t" using dec_ne [of n] by (cases "dec n") auto
  then have "is_digit c" using dec_digits [of n] by simp
  then have "scan_sign (skip_space (dec n @ s)) = (False, dec n @ s)"
    using digit_char [of c] by (simp add: skip_space_dec) (simp add: c scan_sign_def)
  moreover have "takeWhile is_digit (dec n @ s) = dec n" "dropWhile is_digit (dec n @ s) = s"
    using assms dec_digits [of n] by (cases s; auto simp: takeWhile_append dropWhile_append)+
  ultimately show ?thesis by (simp add: scan_num_def)
qed

lemma scan_num_space: "is_space c \<Longrightarrow> scan_num (c # s) = scan_num s"
  by (simp add: scan_num_def)

end
