(* ===== verification/Loader.thy ===== *)
theory Loader
  imports Os_Types Scan
begin

text \<open>
  \<^verbatim>\<open>src/loader.c\<close>: a process description is read from a text file into a process control block.
  \<open>malloc\<close> gives memory with unknown content: the fields of the block and the instructions that
  are not written keep what the parameters \<open>x0\<close> and \<open>j\<close> have there. A call of \<open>exit\<close>, which ends
  the simulator, is \<open>None\<close>. The field \<open>path\<close>, which nothing reads, is not modelled.
\<close>

section \<open>Operation codes\<close>

definition OPT_CALC :: string where "OPT_CALC = ''calc''"
definition OPT_ALLOC :: string where "OPT_ALLOC = ''alloc''"
definition OPT_FREE :: string where "OPT_FREE = ''free''"
definition OPT_READ :: string where "OPT_READ = ''read''"
definition OPT_WRITE :: string where "OPT_WRITE = ''write''"
definition OPT_SYSCALL :: string where "OPT_SYSCALL = ''syscall''"
definition OPT_KMALLOC :: string where "OPT_KMALLOC = ''kmalloc''"
definition OPT_KMEM_CACHE_CREATE :: string where "OPT_KMEM_CACHE_CREATE = ''kmem_cache_create''"
definition OPT_KMEM_CACHE_ALLOC :: string where "OPT_KMEM_CACHE_ALLOC = ''kmem_cache_alloc''"
definition OPT_COPY_FROM_USER :: string where "OPT_COPY_FROM_USER = ''copy_from_user''"
definition OPT_COPY_TO_USER :: string where "OPT_COPY_TO_USER = ''copy_to_user''"

lemmas opt_defs = OPT_CALC_def OPT_ALLOC_def OPT_FREE_def OPT_READ_def OPT_WRITE_def OPT_SYSCALL_def
  OPT_KMALLOC_def OPT_KMEM_CACHE_CREATE_def OPT_KMEM_CACHE_ALLOC_def OPT_COPY_FROM_USER_def OPT_COPY_TO_USER_def

definition get_opcode :: "string \<Rightarrow> ins_opcode_t option" where
  "get_opcode opt =
     (if c_str opt = OPT_CALC then Some CALC
      else if c_str opt = OPT_ALLOC then Some ALLOC
      else if c_str opt = OPT_FREE then Some FREE
      else if c_str opt = OPT_READ then Some READ
      else if c_str opt = OPT_WRITE then Some WRITE
      else if c_str opt = OPT_KMALLOC then Some KMALLOC
      else if c_str opt = OPT_KMEM_CACHE_CREATE then Some KMEM_CACHE_CREATE
      else if c_str opt = OPT_KMEM_CACHE_ALLOC then Some KMEM_CACHE_ALLOC
      else if c_str opt = OPT_COPY_FROM_USER then Some COPY_FROM_USER
      else if c_str opt = OPT_COPY_TO_USER then Some COPY_TO_USER
      else if c_str opt = OPT_SYSCALL then Some SYSCALL
      else None)"

section \<open>Reading the file\<close>

text \<open>The arguments that were converted, in the first fields of an instruction.\<close>

definition put_args :: "inst_t \<Rightarrow> addr list \<Rightarrow> inst_t" where
  "put_args ins ws =
     \<lparr>opcode = opcode ins,
      arg_0 = (if 0 < length ws then ws ! 0 else arg_0 ins),
      arg_1 = (if 1 < length ws then ws ! 1 else arg_1 ins),
      arg_2 = (if 2 < length ws then ws ! 2 else arg_2 ins),
      arg_3 = (if 3 < length ws then ws ! 3 else arg_3 ins)\<rparr>"

text \<open>
  The switch of \<open>load\<close>. \<open>buf\<close> is the local array of that name, \<open>None\<close> before it was ever
  written. \<open>fgets\<close> stores nothing at the end of the file, and \<open>sscanf\<close> then reads what was there.
\<close>

definition read_args :: "inst_t \<Rightarrow> string option \<Rightarrow> string \<Rightarrow> (inst_t \<times> string option \<times> string) res" where
  "read_args ins buf file = (case opcode ins of
      CALC \<Rightarrow> Inr (ins, buf, file)
    | FREE \<Rightarrow> rbind (scan_line to_unsigned 1 file) (\<lambda>(ws, file). Inr (put_args ins ws, buf, file))
    | op \<Rightarrow>
        if op \<in> {KMEM_CACHE_ALLOC, KMALLOC, ALLOC} then
          rbind (scan_line to_unsigned 2 file) (\<lambda>(ws, file). Inr (put_args ins ws, buf, file))
        else if op \<in> {KMEM_CACHE_CREATE, READ, WRITE} then
          rbind (scan_line to_unsigned 3 file) (\<lambda>(ws, file). Inr (put_args ins ws, buf, file))
        else (let (l, file) = scan_gets 200 file; buf = (if l = None then buf else l) in
          case buf of None \<Rightarrow> Inl Uninit_Read
          | Some b \<Rightarrow> rbind (scan_nums to_unsigned 4 (c_str b)) (\<lambda>(ws, _). Inr (put_args ins ws, buf, file))))"

text \<open>
  The loop of \<open>load\<close>, with \<open>n\<close> instructions to read, from index \<open>i\<close> on. \<open>opbuf\<close> is the array
  \<open>opcode\<close> of ten characters.
\<close>

primrec load_loop :: "(nat \<Rightarrow> inst_t) \<Rightarrow> nat \<Rightarrow> nat \<Rightarrow> string option \<Rightarrow> string option \<Rightarrow> string \<Rightarrow> inst_t list option res" where
  "load_loop j 0 i opbuf buf file = Inr (Some [])"
| "load_loop j (Suc n) i opbuf buf file =
     rbind (scan_word 10 file) (\<lambda>(w, file).
     let opbuf = (if w = None then opbuf else w) in
     case opbuf of None \<Rightarrow> Inl Uninit_Read
     | Some opt \<Rightarrow> (case get_opcode opt of
         None \<Rightarrow> Inr None
       | Some op \<Rightarrow>
           rbind (read_args ((j i)\<lparr>opcode := op\<rparr>) buf file) (\<lambda>(ins, buf, file).
           rbind (load_loop j n (i + 1) opbuf buf file) (\<lambda>rest. Inr (map_option (Cons ins) rest)))))"

text \<open>
  \<open>load\<close>, given the content of the file, or \<open>None\<close> where it cannot be opened, and the static
  variable \<open>avail_pid\<close>, which it returns increased.
\<close>

definition load :: "pcb_t \<Rightarrow> (nat \<Rightarrow> inst_t) \<Rightarrow> u32 \<Rightarrow> string option \<Rightarrow> (pcb_t \<times> u32) option res" where
  "load x0 j avail_pid file =
     (let x = x0\<lparr>pid := avail_pid, bp := 1024, pc := 0\<rparr> in
      case file of None \<Rightarrow> Inr None
      | Some s \<Rightarrow> rbind (scan_nums to_unsigned 2 s) (\<lambda>(ws, s).
          case ws of [pr, sz] \<Rightarrow>
            rbind (load_loop j (unat (sz :: u32)) 0 None None s) (\<lambda>text.
              Inr (map_option (\<lambda>text. (x\<lparr>priority := pr, code := text\<rparr>, avail_pid + 1)) text))
          | _ \<Rightarrow> Inl Uninit_Read))"


text \<open>
  What \<open>load\<close> stores in the field \<open>path\<close>: \<open>sizeof(path)\<close> is the size of a pointer, so at most 16
  characters. No code reads the field, and the block leaves it out.
\<close>

definition stored_path :: "string \<Rightarrow> string" where
  "stored_path file_name = take (2 * 8) file_name"

text \<open>Of the name of a process only five characters are stored behind its directory.\<close>

lemma stored_path_cut: "stored_path (''input/proc/'' @ name) = ''input/proc/'' @ take 5 name"
  by (simp add: stored_path_def)

section \<open>The format of the files\<close>

fun op_name :: "ins_opcode_t \<Rightarrow> string" where
  "op_name CALC = OPT_CALC"
| "op_name ALLOC = OPT_ALLOC"
| "op_name FREE = OPT_FREE"
| "op_name READ = OPT_READ"
| "op_name WRITE = OPT_WRITE"
| "op_name KMALLOC = OPT_KMALLOC"
| "op_name KMEM_CACHE_CREATE = OPT_KMEM_CACHE_CREATE"
| "op_name KMEM_CACHE_ALLOC = OPT_KMEM_CACHE_ALLOC"
| "op_name COPY_FROM_USER = OPT_COPY_FROM_USER"
| "op_name COPY_TO_USER = OPT_COPY_TO_USER"
| "op_name SYSCALL = OPT_SYSCALL"

fun arity :: "ins_opcode_t \<Rightarrow> nat" where
  "arity CALC = 0"
| "arity FREE = 1"
| "arity ALLOC = 2"
| "arity KMALLOC = 2"
| "arity KMEM_CACHE_ALLOC = 2"
| "arity KMEM_CACHE_CREATE = 3"
| "arity READ = 3"
| "arity WRITE = 3"
| "arity _ = 4"

definition args_of :: "inst_t \<Rightarrow> addr list" where
  "args_of ins = take (arity (opcode ins)) [arg_0 ins, arg_1 ins, arg_2 ins, arg_3 ins]"

definition args_text :: "addr list \<Rightarrow> string" where
  "args_text ws = concat (map (\<lambda>w. '' '' @ dec (unat w)) ws)"

definition inst_line :: "inst_t \<Rightarrow> string" where
  "inst_line ins = op_name (opcode ins) @ args_text (args_of ins) @ ''\<newline>''"

definition program_text :: "u32 \<Rightarrow> inst_t list \<Rightarrow> string" where
  "program_text pr is = dec (unat pr) @ '' '' @ dec (length is) @ ''\<newline>'' @ concat (map inst_line is)"

text \<open>What \<open>load\<close> makes of an instruction over unwritten memory: the arguments it has no use for stay.\<close>

definition loaded :: "inst_t \<Rightarrow> inst_t \<Rightarrow> inst_t" where
  "loaded y ins = put_args (y\<lparr>opcode := opcode ins\<rparr>) (args_of ins)"

definition long_op :: "ins_opcode_t \<Rightarrow> bool" where
  "long_op op \<longleftrightarrow> 10 \<le> length (op_name op)"

lemma long_ops: "long_op op \<longleftrightarrow> op \<in> {KMEM_CACHE_CREATE, KMEM_CACHE_ALLOC, COPY_FROM_USER, COPY_TO_USER}"
  by (cases op) (simp_all add: long_op_def opt_defs)

section \<open>Reading back\<close>

lemma get_opcode_name: "get_opcode (op_name op) = Some op"
  by (cases op) (simp_all add: get_opcode_def c_str_def opt_defs)

lemma op_name_chars: "op_name op \<noteq> []" "\<forall>c \<in> set (op_name op). \<not> is_space c"
  by (cases op; simp add: opt_defs is_space_def)+

lemma scan_word_name:
  assumes "s = [] \<or> is_space (hd s)"
  shows "scan_word 10 (op_name op @ s) =
    (if long_op op then Inl Out_Of_Bounds else Inr (Some (op_name op), s))"
proof -
  obtain c t where c: "op_name op = c # t" using op_name_chars(1) [of op] by (cases "op_name op") auto
  then have "skip_space (op_name op @ s) = op_name op @ s"
    using op_name_chars(2) [of op] by (simp add: skip_space_def)
  moreover have "takeWhile (\<lambda>c. \<not> is_space c) (op_name op @ s) = op_name op"
    "dropWhile (\<lambda>c. \<not> is_space c) (op_name op @ s) = s"
    using assms op_name_chars(2) [of op] by (cases s; auto simp: takeWhile_append dropWhile_append)+
  ultimately show ?thesis using op_name_chars(1) [of op] by (auto simp: scan_word_def long_op_def)
qed

lemma scan_word_skip: "scan_word cap (skip_space s) = scan_word cap s"
proof -
  have "dropWhile is_space (dropWhile is_space s) = dropWhile is_space s" by (induction s) auto
  then show ?thesis by (simp add: scan_word_def skip_space_def)
qed

lemma load_loop_skip: "load_loop j n i ob b (skip_space s) = load_loop j n i ob b s"
  by (cases n) (simp_all add: scan_word_skip)

lemma load_loop_space: "is_space c \<Longrightarrow> load_loop j n i ob b (c # s) = load_loop j n i ob b s"
  using load_loop_skip [of j n i ob b "c # s"] load_loop_skip [of j n i ob b s] by simp

lemma to_unsigned_unat: "to_unsigned (int (unat (w :: 'a::len word))) = Inr w"
  using unsigned_less [of w] by (simp add: to_unsigned_def del: of_nat_unat) (simp add: nat_less_iff)

lemma scan_args:
  "s = [] \<or> \<not> is_digit (hd s) \<Longrightarrow> scan_nums to_unsigned (length ws) (args_text ws @ s) = Inr (ws, s)"
proof (induction ws)
  case (Cons w ws)
  have "args_text ws @ s = [] \<or> \<not> is_digit (hd (args_text ws @ s))"
    using Cons.prems by (cases ws) (auto simp: args_text_def)
  then have "scan_num (dec (unat w) @ args_text ws @ s) = (Some (int (unat w)), args_text ws @ s)" by (rule scan_num_dec)
  then show ?case using Cons.IH Cons.prems
    by (simp add: args_text_def scan_num_space to_unsigned_unat del: of_nat_unat)
qed (simp add: args_text_def)


lemma args_line: "length ws = n \<Longrightarrow> scan_line to_unsigned n (args_text ws @ ''\<newline>'' @ s) = Inr (ws, skip_space s)"
  using scan_args [of "''\<newline>'' @ s" ws] by (simp add: scan_line_def)

lemma args_text_chars: "c \<in> set (args_text ws) \<Longrightarrow> c \<noteq> CHR ''\<newline>'' \<and> c \<noteq> CHR 0x00"
proof (induction ws)
  case (Cons w ws)
  have "c = CHR '' '' \<or> is_digit c \<or> c \<in> set (args_text ws)"
    using Cons.prems dec_digits [of "unat w"] by (auto simp: args_text_def)
  then show ?case using Cons.IH digit_char [of c] by auto
qed (simp add: args_text_def)

lemma args_text_length: "length (args_text ws) \<le> 21 * length ws"
proof (induction ws)
  case (Cons w ws)
  have "unat w < 2 ^ 64" using unsigned_less [of w] by simp
  then have "unat w < 10 ^ 20" by simp
  then have "length (dec (unat w)) \<le> 20" by (intro dec_length) simp_all
  then show ?case using Cons.IH by (simp add: args_text_def)
qed (simp add: args_text_def)

lemma gets_line:
  assumes "length ws \<le> 4"
  shows "scan_gets 200 (args_text ws @ ''\<newline>'' @ s) = (Some (args_text ws @ ''\<newline>''), s)"
proof -
  have "takeWhile (\<lambda>c. c \<noteq> CHR ''\<newline>'') (args_text ws @ ''\<newline>'' @ s) = args_text ws"
    using args_text_chars [of _ ws] by (subst takeWhile_append2) auto
  then have "line_of (args_text ws @ ''\<newline>'' @ s) = args_text ws @ ''\<newline>''" by (simp add: line_of_def)
  moreover have "length (args_text ws @ ''\<newline>'') \<le> 199" using args_text_length [of ws] assms by simp
  ultimately show ?thesis by (simp add: scan_gets_def Let_def)
qed

lemma put_args_Nil [simp]: "put_args ins [] = ins"
  by (simp add: put_args_def)

lemma length_args_of [simp]: "length (args_of ins) = arity (opcode ins)"
  by (cases "opcode ins") (simp_all add: args_of_def)

text \<open>One line. What \<open>fscanf\<close> has skipped behind it does not matter to the rest of the loop.\<close>

lemma read_args_line:
  "\<exists>buf' s'. read_args (y\<lparr>opcode := opcode ins\<rparr>) buf (args_text (args_of ins) @ ''\<newline>'' @ s) = Inr (loaded y ins, buf', s')
     \<and> (\<forall>j n i ob b. load_loop j n i ob b s' = load_loop j n i ob b s)"
proof -
  let ?y = "y\<lparr>opcode := opcode ins\<rparr>" and ?s = "args_text (args_of ins) @ ''\<newline>'' @ s"
  have line: "scan_line to_unsigned (arity (opcode ins)) ?s = Inr (args_of ins, skip_space s)"
    by (rule args_line) simp
  consider "opcode ins = CALC" | "opcode ins \<in> {COPY_FROM_USER, COPY_TO_USER, SYSCALL}"
    | "opcode ins \<notin> {CALC, COPY_FROM_USER, COPY_TO_USER, SYSCALL}" by blast
  then show ?thesis
  proof cases
    case 1
    then have "read_args ?y buf ?s = Inr (loaded y ins, buf, ''\<newline>'' @ s)"
      by (simp add: read_args_def loaded_def args_of_def args_text_def)
    then show ?thesis using load_loop_space by auto
  next
    case 2
    have four: "length (args_of ins) = 4" using 2 by auto
    have "takeWhile (\<lambda>c. c \<noteq> CHR 0x00) (args_text (args_of ins) @ ''\<newline>'') = args_text (args_of ins) @ ''\<newline>''"
      using args_text_chars [of _ "args_of ins"] by (subst takeWhile_append2) auto
    then have "scan_nums to_unsigned 4 (c_str (args_text (args_of ins) @ ''\<newline>'')) = Inr (args_of ins, ''\<newline>'')"
      using scan_args [of "''\<newline>''" "args_of ins"] four by (simp add: c_str_def)
    then have "read_args ?y buf ?s = Inr (loaded y ins, Some (args_text (args_of ins) @ ''\<newline>''), s)"
      using 2 gets_line [of "args_of ins" s] four by (auto simp: read_args_def loaded_def Let_def)
    then show ?thesis by blast
  next
    case 3
    then have "read_args ?y buf ?s = Inr (loaded y ins, buf, skip_space s)"
      using line by (cases "opcode ins") (simp_all add: read_args_def loaded_def)
    then show ?thesis using load_loop_skip by blast
  qed
qed

text \<open>The whole program.\<close>

lemma load_loop_text:
  "load_loop j (length is) i ob b (concat (map inst_line is) @ s) =
     (if \<exists>ins \<in> set is. long_op (opcode ins) then Inl Out_Of_Bounds
      else Inr (Some (map (\<lambda>(n, ins). loaded (j n) ins) (enumerate i is))))"
proof (induction "is" arbitrary: i ob b)
  case (Cons ins "is")
  let ?s = "args_text (args_of ins) @ ''\<newline>'' @ concat (map inst_line is) @ s"
  have "?s = [] \<or> is_space (hd ?s)"
    by (cases "args_of ins") (simp_all add: args_text_def)
  then have w: "scan_word 10 (op_name (opcode ins) @ ?s) =
      (if long_op (opcode ins) then Inl Out_Of_Bounds else Inr (Some (op_name (opcode ins)), ?s))"
    by (rule scan_word_name)
  have line: "concat (map inst_line (ins # is)) @ s = op_name (opcode ins) @ ?s" by (simp add: inst_line_def)
  obtain buf' s' where r: "read_args ((j i)\<lparr>opcode := opcode ins\<rparr>) b ?s = Inr (loaded (j i) ins, buf', s')"
      "\<And>j n i ob b. load_loop j n i ob b s' = load_loop j n i ob b (concat (map inst_line is) @ s)"
    using read_args_line [of ins "j i" b "concat (map inst_line is) @ s"] by blast
  show ?case
  proof (cases "long_op (opcode ins)")
    case False
    then have "load_loop j (length (ins # is)) i ob b (concat (map inst_line (ins # is)) @ s) =
        rbind (load_loop j (length is) (i + 1) (Some (op_name (opcode ins))) buf' (concat (map inst_line is) @ s))
          (\<lambda>rest. Inr (map_option (Cons (loaded (j i) ins)) rest))"
      unfolding line using w r by (simp add: get_opcode_name)
    then show ?thesis using Cons.IH False by simp
  next
    case True
    then show ?thesis unfolding line using w by simp
  qed
qed simp

section \<open>Properties\<close>

text \<open>
  C24. A file in the format of the process descriptions, with a priority, the number of
  instructions and one line for each, is read back exactly: the block gets the next process
  identifier, the priority, a cleared program counter and the instructions with their arguments; what
  an instruction has no use for stays unwritten. But an instruction whose name has ten characters or
  more, the kernel caches and the two copies, overruns the array the name is read into.
\<close>

theorem load_correct:
  assumes "length is < 2 ^ 32"
  shows "load x0 j avail_pid (Some (program_text pr is)) =
    (if \<exists>ins \<in> set is. opcode ins \<in> {KMEM_CACHE_CREATE, KMEM_CACHE_ALLOC, COPY_FROM_USER, COPY_TO_USER}
     then Inl Out_Of_Bounds
     else Inr (Some (x0\<lparr>pid := avail_pid, priority := pr, pc := 0, bp := 1024,
       code := map (\<lambda>(n, ins). (j n)\<lparr>opcode := opcode ins,
         arg_0 := (if opcode ins = CALC then arg_0 (j n) else arg_0 ins),
         arg_1 := (if opcode ins \<in> {CALC, FREE} then arg_1 (j n) else arg_1 ins),
         arg_2 := (if opcode ins \<in> {READ, WRITE, SYSCALL} then arg_2 ins else arg_2 (j n)),
         arg_3 := (if opcode ins = SYSCALL then arg_3 ins else arg_3 (j n))\<rparr>) (enumerate 0 is)\<rparr>,
       avail_pid + 1)))"
proof -
  let ?sz = "word_of_nat (length is) :: u32"
  have sz: "unat ?sz = length is" using assms by (simp add: unsigned_of_nat take_bit_nat_eq_self)
  have n: "scan_num (program_text pr is) = (Some (int (unat pr)), '' '' @ dec (length is) @ ''\<newline>'' @ concat (map inst_line is))"
    unfolding program_text_def by (rule scan_num_dec) simp
  have m: "scan_num ('' '' @ dec (length is) @ ''\<newline>'' @ concat (map inst_line is)) =
      (Some (int (length is)), ''\<newline>'' @ concat (map inst_line is))"
    using scan_num_dec [of "''\<newline>'' @ concat (map inst_line is)" "length is"] by (simp add: scan_num_space)
  have u: "to_unsigned (int (unat pr)) = Inr pr" "to_unsigned (int (length is)) = Inr ?sz"
    using to_unsigned_unat [of pr] to_unsigned_unat [of ?sz] sz by simp_all
  have two: "scan_nums to_unsigned 2 (program_text pr is) = Inr ([pr, ?sz], ''\<newline>'' @ concat (map inst_line is))"
    using u by (simp add: numeral_2_eq_2 n m del: of_nat_unat append.simps)
  have lp: "load_loop j (length is) 0 None None (CHR ''\<newline>'' # concat (map inst_line is)) =
      (if \<exists>ins \<in> set is. long_op (opcode ins) then Inl Out_Of_Bounds
       else Inr (Some (map (\<lambda>(n, ins). loaded (j n) ins) (enumerate 0 is))))"
    using load_loop_text [of j "is" 0 None None "[]"] by (simp add: load_loop_space)
  have ld: "loaded y ins = y\<lparr>opcode := opcode ins,
         arg_0 := (if opcode ins = CALC then arg_0 y else arg_0 ins),
         arg_1 := (if opcode ins \<in> {CALC, FREE} then arg_1 y else arg_1 ins),
         arg_2 := (if opcode ins \<in> {READ, WRITE, SYSCALL} then arg_2 ins else arg_2 y),
         arg_3 := (if opcode ins = SYSCALL then arg_3 ins else arg_3 y)\<rparr>" if "\<not> long_op (opcode ins)" for y ins
    using that by (cases "opcode ins") (simp_all add: loaded_def put_args_def args_of_def long_op_def opt_defs)
  have "map (\<lambda>(n, ins). loaded (j n) ins) (enumerate 0 is) = map (\<lambda>(n, ins). (j n)\<lparr>opcode := opcode ins,
         arg_0 := (if opcode ins = CALC then arg_0 (j n) else arg_0 ins),
         arg_1 := (if opcode ins \<in> {CALC, FREE} then arg_1 (j n) else arg_1 ins),
         arg_2 := (if opcode ins \<in> {READ, WRITE, SYSCALL} then arg_2 ins else arg_2 (j n)),
         arg_3 := (if opcode ins = SYSCALL then arg_3 ins else arg_3 (j n))\<rparr>) (enumerate 0 is)"
    if short: "\<not> (\<exists>ins \<in> set is. long_op (opcode ins))"
  proof (rule map_cong [OF refl], clarify)
    fix n ins assume "(n, ins) \<in> set (enumerate 0 is)"
    then have "ins \<in> set is" using in_set_enumerate_eq [of "(n, ins)" 0 "is"] nth_mem by auto
    then have "\<not> long_op (opcode ins)" using short by blast
    then show "loaded (j n) ins = (j n)\<lparr>opcode := opcode ins,
         arg_0 := (if opcode ins = CALC then arg_0 (j n) else arg_0 ins),
         arg_1 := (if opcode ins \<in> {CALC, FREE} then arg_1 (j n) else arg_1 ins),
         arg_2 := (if opcode ins \<in> {READ, WRITE, SYSCALL} then arg_2 ins else arg_2 (j n)),
         arg_3 := (if opcode ins = SYSCALL then arg_3 ins else arg_3 (j n))\<rparr>" by (rule ld)
  qed
  then show ?thesis unfolding long_ops [symmetric] by (simp add: load_def two lp sz split del: if_split split: if_split_asm) (simp split: if_split)
qed

theorem load_correct_witness:
  "\<forall>j. load (sample_pcb 0 0 0) j 7 (Some ''1 2\<newline>write 102 1 20\<newline>calc\<newline>'') =
     Inr (Some ((sample_pcb 7 1 0)\<lparr>code := [(j 0)\<lparr>opcode := WRITE, arg_0 := 102, arg_1 := 1, arg_2 := 20\<rparr>,
       (j 1)\<lparr>opcode := CALC\<rparr>]\<rparr>, 8))"
proof -
  let ?is = "[\<lparr>opcode = WRITE, arg_0 = 102, arg_1 = 1, arg_2 = 20, arg_3 = 0\<rparr>,
    \<lparr>opcode = CALC, arg_0 = 0, arg_1 = 0, arg_2 = 0, arg_3 = 0\<rparr>]"
  have t: "program_text 1 ?is = ''1 2\<newline>write 102 1 20\<newline>calc\<newline>''"
    by (simp add: program_text_def inst_line_def args_text_def args_of_def opt_defs dec.simps char_of_def bit_0)
  have "load (sample_pcb 0 0 0) j 7 (Some ''1 2\<newline>write 102 1 20\<newline>calc\<newline>'') =
     Inr (Some ((sample_pcb 7 1 0)\<lparr>code := [(j 0)\<lparr>opcode := WRITE, arg_0 := 102, arg_1 := 1, arg_2 := 20\<rparr>,
       (j 1)\<lparr>opcode := CALC\<rparr>]\<rparr>, 8))" for j
    using load_correct [of ?is "sample_pcb 0 0 0" j 7 1] unfolding t by (simp add: sample_pcb_def)
  then show ?thesis by blast
qed

end
