(* ===== verification/Config.thy ===== *)
theory Config
  imports Loader
begin

text \<open>
  \<^verbatim>\<open>src/os.c\<close>: the configuration file and \<open>read_config\<close>. None of its calls of \<open>fscanf\<close> is checked,
  so what a file leaves out stays unwritten.
\<close>

section \<open>The configuration\<close>

text \<open>
  The static variables that \<open>read_config\<close> sets. A variable that no conversion wrote keeps its static
  0; an element of an allocated array that was not written is \<open>None\<close>.
\<close>

record ld_args =
  path :: string
  start_time :: "addr option"
  ld_prio :: "addr option"

record config =
  time_slot :: int
  num_cpus :: int
  num_processes :: int
  memramsz :: addr
  memswpsz :: "addr list"
  ld_processes :: "ld_args list"

definition PAGING_MAX_MMSWP :: nat where "PAGING_MAX_MMSWP = 4"

text \<open>The value of the \<open>i\<close>th variable of a call that made the conversions \<open>ws\<close>.\<close>

definition converted :: "'a \<Rightarrow> 'a list \<Rightarrow> nat \<Rightarrow> 'a" where
  "converted v ws i = (if i < length ws then ws ! i else v)"

fun scan_swaps :: "nat \<Rightarrow> string \<Rightarrow> (addr list \<times> string) res" where
  "scan_swaps 0 s = Inr ([], s)"
| "scan_swaps (Suc n) s =
     rbind (scan_nums to_unsigned 1 s) (\<lambda>(ws, s).
     rbind (scan_swaps n s) (\<lambda>(vs, s). Inr (converted 0 ws 0 # vs, s)))"

text \<open>
  One line of a process: \<open>path\<close> and \<open>proc\<close> are arrays of 100 characters. Where no name was read,
  \<open>strcat\<close> reads \<open>proc\<close> unwritten.
\<close>

definition scan_proc :: "string \<Rightarrow> (ld_args \<times> string) res" where
  "scan_proc s = (case scan_num s of
      (None, s) \<Rightarrow> Inl Uninit_Read
    | (Some st, s) \<Rightarrow>
        rbind (to_unsigned st) (\<lambda>st.
        rbind (scan_word 100 s) (\<lambda>(proc, s). case proc of
          None \<Rightarrow> Inl Uninit_Read
        | Some proc \<Rightarrow>
            rbind (scan_line to_unsigned 1 s) (\<lambda>(ws, s).
            if 100 \<le> length (''input/proc/'' @ c_str proc) then Inl Out_Of_Bounds
            else Inr (\<lparr>path = ''input/proc/'' @ c_str proc, start_time = Some st,
                       ld_prio = (if ws = [] then None else Some (ws ! 0))\<rparr>, s)))))"

fun scan_procs :: "nat \<Rightarrow> string \<Rightarrow> ld_args list res" where
  "scan_procs 0 s = Inr []"
| "scan_procs (Suc n) s =
     rbind (scan_proc s) (\<lambda>(p, s). rbind (scan_procs n s) (\<lambda>ps. Inr (p # ps)))"

definition read_config :: "string option \<Rightarrow> config option res" where
  "read_config file = (case file of None \<Rightarrow> Inr None
    | Some s \<Rightarrow>
        rbind (scan_line to_int 3 s) (\<lambda>(ns, s).
        rbind (scan_line to_unsigned 1 s) (\<lambda>(ram, s).
        rbind (scan_swaps PAGING_MAX_MMSWP s) (\<lambda>(swps, s).
        rbind (scan_procs (nat (converted 0 ns 2)) (skip_space s)) (\<lambda>ps.
          Inr (Some \<lparr>time_slot = converted 0 ns 0, num_cpus = converted 0 ns 1,
            num_processes = converted 0 ns 2, memramsz = converted 0 ram 0, memswpsz = swps,
            ld_processes = ps\<rparr>))))))"

section \<open>The format of the file\<close>

text \<open>
  Three numbers, a line with the sizes of the devices, and one line for each process: the time it
  is loaded, its name and its priority.
\<close>

fun proc_line :: "addr \<times> string \<times> addr \<Rightarrow> string" where
  "proc_line (st, name, pr) = dec (unat st) @ '' '' @ name @ '' '' @ dec (unat pr) @ ''\<newline>''"

definition config_text :: "nat \<Rightarrow> nat \<Rightarrow> nat \<Rightarrow> addr \<Rightarrow> addr list \<Rightarrow> (addr \<times> string \<times> addr) list \<Rightarrow> string" where
  "config_text ts nc np ram swps ps = dec ts @ '' '' @ dec nc @ '' '' @ dec np @ ''\<newline>''
     @ dec (unat ram) @ args_text swps @ ''\<newline>'' @ concat (map proc_line ps)"

text \<open>A name that \<open>%s\<close> reads and that fits the array \<open>path\<close> behind the directory.\<close>

definition name_ok :: "string \<Rightarrow> bool" where
  "name_ok s \<longleftrightarrow> s \<noteq> [] \<and> length s \<le> 88 \<and> (\<forall>c \<in> set s. \<not> is_space c \<and> c \<noteq> CHR 0x00)"

lemma scan_num_skip: "scan_num (skip_space s) = scan_num s"
proof -
  have "dropWhile is_space (dropWhile is_space s) = dropWhile is_space s" by (induction s) auto
  then show ?thesis by (simp add: scan_num_def skip_space_def)
qed

lemma scan_procs_skip: "scan_procs n (skip_space s) = scan_procs n s"
  by (cases n) (simp_all add: scan_proc_def scan_num_skip)

lemma scan_word_chars:
  assumes "w \<noteq> []" "length w < cap" "\<forall>c \<in> set w. \<not> is_space c" "s = [] \<or> is_space (hd s)"
  shows "scan_word cap (w @ s) = Inr (Some w, s)"
proof -
  have "skip_space (w @ s) = w @ s" using assms(1,3) by (cases w) (simp_all add: skip_space_def)
  moreover have "takeWhile (\<lambda>c. \<not> is_space c) (w @ s) = w" "dropWhile (\<lambda>c. \<not> is_space c) (w @ s) = s"
    using assms(3,4) by (cases s; auto simp: takeWhile_append dropWhile_append)+
  ultimately show ?thesis using assms(1,2) by (simp add: scan_word_def Let_def)
qed

lemma scan_word_space: "is_space c \<Longrightarrow> scan_word cap (c # s) = scan_word cap s"
  by (simp add: scan_word_def)

definition the_args :: "addr \<times> string \<times> addr \<Rightarrow> ld_args" where
  "the_args = (\<lambda>(st, name, pr). \<lparr>path = ''input/proc/'' @ name, start_time = Some st, ld_prio = Some pr\<rparr>)"

lemma scan_proc_line:
  assumes "name_ok name"
  shows "scan_proc (proc_line (st, name, pr) @ s) = Inr (the_args (st, name, pr), skip_space s)"
proof -
  have n: "scan_num (proc_line (st, name, pr) @ s) = (Some (int (unat st)), '' '' @ name @ '' '' @ dec (unat pr) @ ''\<newline>'' @ s)"
    using scan_num_dec [of "'' '' @ name @ '' '' @ dec (unat pr) @ ''\<newline>'' @ s" "unat st"] by (simp del: of_nat_unat)
  have n': "scan_num (dec (unat st) @ CHR '' '' # name @ CHR '' '' # dec (unat pr) @ CHR ''\<newline>'' # s) =
      (Some (int (unat st)), CHR '' '' # name @ CHR '' '' # dec (unat pr) @ CHR ''\<newline>'' # s)"
    using n by (simp del: of_nat_unat)
  have w: "scan_word 100 ('' '' @ name @ '' '' @ dec (unat pr) @ ''\<newline>'' @ s) = Inr (Some name, '' '' @ dec (unat pr) @ ''\<newline>'' @ s)"
    using scan_word_chars [of name 100 "'' '' @ dec (unat pr) @ ''\<newline>'' @ s"] assms
    by (simp add: scan_word_space name_ok_def)
  have l: "scan_line to_unsigned 1 ('' '' @ dec (unat pr) @ ''\<newline>'' @ s) = Inr ([pr], skip_space s)"
    using args_line [of "[pr]" 1 s] by (simp add: args_text_def)
  have "c_str name = name" using assms by (simp add: c_str_def name_ok_def takeWhile_eq_all_conv)
  then show ?thesis using assms w l
    by (simp add: scan_proc_def n' to_unsigned_unat name_ok_def the_args_def del: of_nat_unat)
qed

lemma scan_procs_lines:
  assumes "\<forall>(st, name, pr) \<in> set ps. name_ok name"
  shows "scan_procs n (concat (map proc_line ps)) =
    (if n \<le> length ps then Inr (map the_args (take n ps)) else Inl Uninit_Read)"
  using assms
proof (induction ps arbitrary: n)
  case Nil
  then show ?case by (cases n) (simp_all add: scan_proc_def scan_num_def scan_sign_def skip_space_def)
next
  case (Cons p ps)
  obtain st name pr where p: "p = (st, name, pr)" by (cases p)
  show ?case
  proof (cases n)
    case (Suc m)
    have "scan_proc (proc_line p @ concat (map proc_line ps)) = Inr (the_args p, skip_space (concat (map proc_line ps)))"
      unfolding p by (rule scan_proc_line) (use Cons.prems p in auto)
    then show ?thesis using Cons.IH [of m] Cons.prems Suc by (simp add: scan_procs_skip)
  qed simp
qed


lemma scan_swaps_text:
  "s = [] \<or> \<not> is_digit (hd s) \<Longrightarrow> scan_swaps (length ws) (args_text ws @ s) = Inr (ws, s)"
proof (induction ws)
  case (Cons w ws)
  have "args_text ws @ s = [] \<or> \<not> is_digit (hd (args_text ws @ s))"
    using Cons.prems by (cases ws) (auto simp: args_text_def)
  then have "scan_num (dec (unat w) @ args_text ws @ s) = (Some (int (unat w)), args_text ws @ s)" by (rule scan_num_dec)
  then show ?case using Cons.IH Cons.prems
    by (simp add: args_text_def scan_num_space to_unsigned_unat converted_def del: of_nat_unat)
qed (simp add: args_text_def)

lemma scan_swaps_skip: "scan_swaps n (skip_space s) = scan_swaps n s \<or> n = 0"
  by (cases n) (simp_all add: scan_num_skip)

section \<open>Properties\<close>

text \<open>
  C25. A configuration file in the format of the shipped ones, with numbers that fit their variables,
  four swap sizes and names that fit the array \<open>path\<close>, is read back exactly. If it announces more
  processes than it has lines for, the missing ones are read from unwritten memory.
\<close>

theorem read_config_correct:
  assumes "ts < 2 ^ 31" and "nc < 2 ^ 31" and "np < 2 ^ 31" and "length swps = 4"
    and "\<forall>(st, name, pr) \<in> set ps. name_ok name"
  shows "read_config (Some (config_text ts nc np ram swps ps)) =
    (if np \<le> length ps then Inr (Some \<lparr>time_slot = int ts, num_cpus = int nc, num_processes = int np,
       memramsz = ram, memswpsz = swps,
       ld_processes = map (\<lambda>(st, name, pr). \<lparr>path = ''input/proc/'' @ name, start_time = Some st, ld_prio = Some pr\<rparr>) (take np ps)\<rparr>)
     else Inl Uninit_Read)"
proof -
  let ?l = "concat (map proc_line ps)"
  let ?r = "dec (unat ram) @ args_text swps @ ''\<newline>'' @ ?l"
  have i: "to_int (int n) = Inr (int n)" if "n < 2 ^ 31" for n using that by (simp add: to_int_def)
  have 1: "scan_num (config_text ts nc np ram swps ps) = (Some (int ts), '' '' @ dec nc @ '' '' @ dec np @ ''\<newline>'' @ ?r)"
    unfolding config_text_def by (rule scan_num_dec) simp
  have 2: "scan_num ('' '' @ dec nc @ '' '' @ dec np @ ''\<newline>'' @ ?r) = (Some (int nc), '' '' @ dec np @ ''\<newline>'' @ ?r)"
    using scan_num_dec [of "'' '' @ dec np @ ''\<newline>'' @ ?r" nc] by (simp add: scan_num_space)
  have 3: "scan_num ('' '' @ dec np @ ''\<newline>'' @ ?r) = (Some (int np), ''\<newline>'' @ ?r)"
    using scan_num_dec [of "''\<newline>'' @ ?r" np] by (simp add: scan_num_space)
  have nums: "scan_line to_int 3 (config_text ts nc np ram swps ps) = Inr ([int ts, int nc, int np], ?r)"
    using 1 2 3 i assms(1-3) skip_space_dec [of "unat ram" "args_text swps @ ''\<newline>'' @ ?l"]
    by (simp add: scan_line_def numeral_3_eq_3 del: append.simps) simp
  have "args_text swps @ ''\<newline>'' @ ?l = [] \<or> \<not> is_digit (hd (args_text swps @ ''\<newline>'' @ ?l))"
    by (cases swps) (simp_all add: args_text_def)
  from scan_num_dec [OF this, of "unat ram"]
  have ram: "scan_line to_unsigned 1 ?r = Inr ([ram], skip_space (args_text swps @ ''\<newline>'' @ ?l))"
    by (simp add: scan_line_def to_unsigned_unat del: of_nat_unat)
  have swps: "scan_swaps PAGING_MAX_MMSWP (skip_space (args_text swps @ ''\<newline>'' @ ?l)) = Inr (swps, ''\<newline>'' @ ?l)"
    using scan_swaps_skip [of 4 "args_text swps @ ''\<newline>'' @ ?l"] scan_swaps_text [of "''\<newline>'' @ ?l" swps] assms(4)
    by (simp add: PAGING_MAX_MMSWP_def)
  have ps: "scan_procs np (skip_space (''\<newline>'' @ ?l)) = (if np \<le> length ps then Inr (map the_args (take np ps)) else Inl Uninit_Read)"
    using scan_procs_lines [OF assms(5), of np] by (simp add: scan_procs_skip)
  have np: "nat (converted 0 [int ts, int nc, int np] 2) = np" by (simp add: converted_def)
  show ?thesis unfolding read_config_def option.case nums rbind_simps prod.case ram swps np ps
    by (simp add: converted_def the_args_def)
qed

theorem read_config_correct_witness:
  "read_config (Some ''2 1 1\<newline>2048 16777216 0 0 0\<newline>1 sc1 15\<newline>'') =
     Inr (Some \<lparr>time_slot = 2, num_cpus = 1, num_processes = 1, memramsz = 2048, memswpsz = [16777216, 0, 0, 0],
       ld_processes = [\<lparr>path = ''input/proc/sc1'', start_time = Some 1, ld_prio = Some 15\<rparr>]\<rparr>)"
proof -
  have t: "config_text 2 1 1 2048 [16777216, 0, 0, 0] [(1, ''sc1'', 15)] = ''2 1 1\<newline>2048 16777216 0 0 0\<newline>1 sc1 15\<newline>''"
    by (simp add: config_text_def args_text_def dec.simps char_of_def bit_0)
  have "name_ok ''sc1''" by (simp add: name_ok_def is_space_def)
  then show ?thesis
    using read_config_correct [of 2 1 1 "[16777216, 0, 0, 0]" "[(1, ''sc1'', 15)]" 2048] unfolding t by simp
qed

end
