(* ===== verification/Sched_Fair.thy ===== *)
theory Sched_Fair
  imports Sched
begin

text \<open>
  What the multi-level policy of \<^verbatim>\<open>src/sched.c\<close> guarantees over time: a waiting bound for
  every non-empty level, for any interleaving of the locked operations, and the order in which a
  single level serves its processes.
\<close>

section \<open>The distance of a level from the cursor\<close>

text \<open>The levels passed from \<open>c\<close> to \<open>l\<close>, and the turns they may take before \<open>l\<close> is reached.\<close>

definition dist :: "nat \<Rightarrow> nat \<Rightarrow> nat" where
  "dist c l = (if c \<le> l then l - c else l + MAX_PRIO - c)"

definition wait :: "sched_t \<Rightarrow> nat \<Rightarrow> nat" where
  "wait s l = (if curr_prio s = l then 0
     else nat (curr_slot s)
       + (\<Sum>i \<in> {1..<dist (curr_prio s) l}. MAX_PRIO - (curr_prio s + i) mod MAX_PRIO))"

lemma dist_0_iff: "c < MAX_PRIO \<Longrightarrow> l < MAX_PRIO \<Longrightarrow> dist c l = 0 \<longleftrightarrow> c = l"
  by (auto simp: dist_def)

lemma dist_next:
  assumes "c < MAX_PRIO" "l < MAX_PRIO" "c \<noteq> l"
  shows "dist c l = Suc (dist ((c + 1) mod MAX_PRIO) l)"
proof (cases "c + 1 = MAX_PRIO")
  case True
  with assms show ?thesis by (auto simp: dist_def)
next
  case False
  with assms show ?thesis by (auto simp: dist_def)
qed

lemma dist_less: "c < MAX_PRIO \<Longrightarrow> l < MAX_PRIO \<Longrightarrow> dist c l < MAX_PRIO"
  by (auto simp: dist_def)

lemma dist_mod: "c < MAX_PRIO \<Longrightarrow> l < MAX_PRIO \<Longrightarrow> (c + dist c l) mod MAX_PRIO = l"
  by (auto simp: dist_def)

lemma sum_first_shift:
  fixes f :: "nat \<Rightarrow> nat"
  assumes "0 < n"
  shows "(\<Sum>i \<in> {1..<Suc n}. f i) = f 1 + (\<Sum>i \<in> {1..<n}. f (Suc i))"
proof -
  have "(\<Sum>i \<in> {1..<Suc n}. f i) = f 1 + (\<Sum>i \<in> {Suc 1..<Suc n}. f i)"
    using assms by (intro sum.atLeast_Suc_lessThan) simp
  then show ?thesis by (simp only: sum.shift_bounds_Suc_ivl)
qed

lemma wait_next_level:
  assumes "curr_prio s < MAX_PRIO" "l < MAX_PRIO" "curr_prio s \<noteq> l"
  shows "wait s l = nat (curr_slot s) + wait (next_level s) l"
proof -
  let ?c = "curr_prio s" and ?c' = "(curr_prio s + 1) mod MAX_PRIO"
  let ?f = "\<lambda>i. MAX_PRIO - (?c + i) mod MAX_PRIO"
  have d: "dist ?c l = Suc (dist ?c' l)" using assms by (rule dist_next)
  have "wait (next_level s) l = (\<Sum>i \<in> {1..<dist ?c l}. ?f i)"
  proof (cases "?c' = l")
    case True
    then show ?thesis using d by (simp add: wait_def dist_def)
  next
    case False
    then have pos: "0 < dist ?c' l" using assms(2) dist_0_iff [of ?c' l] by simp
    have "(\<Sum>i \<in> {1..<dist ?c l}. ?f i) = ?f 1 + (\<Sum>i \<in> {1..<dist ?c' l}. ?f (Suc i))"
      using sum_first_shift [OF pos, of ?f] d by simp
    also have "(\<Sum>i \<in> {1..<dist ?c' l}. ?f (Suc i))
        = (\<Sum>i \<in> {1..<dist ?c' l}. MAX_PRIO - (?c' + i) mod MAX_PRIO)"
      by (rule sum.cong) (simp_all add: mod_add_left_eq)
    finally show ?thesis using False assms(1)
      by (simp add: wait_def flip: of_nat_diff)
  qed
  then show ?thesis using assms(3) by (simp add: wait_def)
qed

lemma wait_funpow:
  assumes "curr_prio s < MAX_PRIO" "l < MAX_PRIO"
    and "\<And>i. i < k \<Longrightarrow> (curr_prio s + i) mod MAX_PRIO \<noteq> l"
  shows "wait ((next_level ^^ k) s) l \<le> wait s l"
  using assms(3)
proof (induction k)
  case 0
  show ?case by simp
next
  case (Suc k)
  have "curr_prio ((next_level ^^ k) s) = (curr_prio s + k) mod MAX_PRIO"
    using assms(1) by (rule curr_prio_funpow)
  then have "wait ((next_level ^^ Suc k) s) l \<le> wait ((next_level ^^ k) s) l"
    using wait_next_level [of "(next_level ^^ k) s" l] Suc.prems [of k] assms(2) by simp
  moreover have "wait ((next_level ^^ k) s) l \<le> wait s l"
    by (rule Suc.IH) (simp add: Suc.prems)
  ultimately show ?case by (rule order_trans)
qed

lemma wait_after_serve:
  assumes "cursor_ok s" "l < MAX_PRIO" "curr_prio s \<noteq> l"
  shows "wait (after_serve s q) l < wait s l"
proof -
  have c: "curr_prio s < MAX_PRIO" "0 < curr_slot s" using assms(1) by (auto simp: cursor_ok_def)
  show ?thesis
  proof (cases "curr_slot s = 1")
    case True
    then have "wait (after_serve s q) l = wait (next_level s) l"
      by (simp add: after_serve_def Let_def wait_def)
    then show ?thesis using wait_next_level [OF c(1) assms(2,3)] c(2) by simp
  next
    case False
    then show ?thesis using assms(3) c(2) by (simp add: after_serve_def Let_def wait_def)
  qed
qed

lemma wait_running [simp]: "wait (s\<lparr>running_list := r\<rparr>) l = wait s l"
  by (simp add: wait_def)

lemma wait_cong: "curr_prio s' = curr_prio s \<Longrightarrow> curr_slot s' = curr_slot s \<Longrightarrow> wait s' l = wait s l"
  by (simp add: wait_def)

text \<open>A call that serves another level brings the cursor closer to a non-empty level.\<close>

lemma served_wait:
  assumes "sched_inv h s" and "served h s k p s'" and "first_level s = Some k"
    and "l < MAX_PRIO" and "level s l \<noteq> []" and "(curr_prio s + k) mod MAX_PRIO \<noteq> l"
  shows "wait s' l < wait s l"
proof -
  have c: "cursor_ok s" "curr_prio s < MAX_PRIO" using assms(1) by (auto simp: sched_inv_def cursor_ok_def)
  have "(curr_prio s + i) mod MAX_PRIO \<noteq> l" if "i < k" for i
    using that assms(3,5) by (auto simp: first_level_Some)
  then have "wait ((next_level ^^ k) s) l \<le> wait s l" using c(2) assms(4) by (intro wait_funpow)
  moreover have "cursor_ok ((next_level ^^ k) s)" using c(1) by (cases k) simp_all
  then have "wait (after_serve ((next_level ^^ k) s) q) l < wait ((next_level ^^ k) s) l" for q
    using c(2) assms(4,6) by (intro wait_after_serve) (simp_all add: curr_prio_funpow)
  moreover obtain q' r' where "s' = (after_serve ((next_level ^^ k) s) q')\<lparr>running_list := r'\<rparr>"
    using assms(2) by (auto simp: served_def Let_def)
  ultimately show ?thesis by (metis order_less_le_trans wait_running)
qed

text \<open>The turns that all levels but \<open>l\<close> have together bound the wait.\<close>

lemma wait_bound:
  assumes "cursor_ok s" and "l < MAX_PRIO"
  shows "wait s l + (MAX_PRIO - l) \<le> 9870"
proof (cases "curr_prio s = l")
  case True
  then show ?thesis by (simp add: wait_def MAX_PRIO_def)
next
  case False
  let ?c = "curr_prio s" and ?g = "\<lambda>i. (curr_prio s + i) mod MAX_PRIO"
  let ?d = "dist ?c l"
  have c: "?c < MAX_PRIO" "nat (curr_slot s) \<le> MAX_PRIO - ?g 0"
    using assms(1) by (auto simp: cursor_ok_def)
  have d: "0 < ?d" "?d < MAX_PRIO" using False c assms(2) dist_0_iff dist_less by auto
  have inj: "inj_on ?g {0..?d}"
  proof (rule inj_onI)
    fix i j assume "i \<in> {0..?d}" "j \<in> {0..?d}" "?g i = ?g j"
    then show "i = j" using c(1) d(2)
      by (auto simp: mod_if MAX_PRIO_def split: if_splits)
  qed
  have "wait s l = nat (curr_slot s) + (\<Sum>i \<in> {1..<?d}. MAX_PRIO - ?g i)"
    using False by (simp only: wait_def if_False)
  also have "\<dots> \<le> (MAX_PRIO - ?g 0) + (\<Sum>i \<in> {1..<?d}. MAX_PRIO - ?g i)"
    using c(2) by (rule add_right_mono)
  also have "\<dots> = (\<Sum>i \<in> {0..<?d}. MAX_PRIO - ?g i)"
    using sum.atLeast_Suc_lessThan [OF d(1), of "\<lambda>i. MAX_PRIO - ?g i"] by simp
  finally have "wait s l + (MAX_PRIO - ?g ?d) \<le> (\<Sum>i \<in> {0..?d}. MAX_PRIO - ?g i)"
    by (simp add: atLeastLessThanSuc_atLeastAtMost [symmetric])
  also have "\<dots> = (\<Sum>m \<in> ?g ` {0..?d}. MAX_PRIO - m)"
    using inj by (simp add: sum.reindex)
  also have "\<dots> \<le> (\<Sum>m \<in> {..<MAX_PRIO}. MAX_PRIO - m)"
    by (rule sum_mono2) auto
  also have "\<dots> = 9870" by (simp add: MAX_PRIO_def lessThan_nat_numeral lessThan_Suc)
  finally show ?thesis using dist_mod [OF c(1) assms(2)] by simp
qed

section \<open>Interleavings of the locked operations\<close>

text \<open>
  What the threads do to the scheduler, in the order in which they take \<open>queue_lock\<close>: a CPU
  takes a process (\<open>Got\<close>, with the level it came from) or finds none, puts one back, finishes
  and frees one, or runs one, which changes its block but not its \<open>prio\<close>; the loader creates
  a block and adds it. A process that is finished is in no ready queue when \<open>finish_proc\<close> is called, and
  at most once in the list of running ones; \<open>client_sched\<close> below shows this for every caller that
  finishes only processes that it got and has not put back.
\<close>

datatype sched_event = Got ptr nat | Idle | Put ptr | Finished ptr | Ran ptr | Loaded ptr

inductive sched_step :: "heap \<times> sched_t \<Rightarrow> sched_event \<Rightarrow> heap \<times> sched_t \<Rightarrow> bool" where
  got: "get_proc h s = Inr (p, s') \<Longrightarrow> p \<noteq> NULL \<Longrightarrow>
      sched_step (h, s) (Got p (level_of h p)) (h, s')"
| idle: "get_proc h s = Inr (NULL, s') \<Longrightarrow> sched_step (h, s) Idle (h, s')"
| put: "p \<noteq> NULL \<Longrightarrow> h p \<noteq> None \<Longrightarrow> put_proc h s p = Inr (h', s') \<Longrightarrow>
      sched_step (h, s) (Put p) (h', s')"
| finished: "p \<noteq> NULL \<Longrightarrow> p \<notin># all_ready s \<Longrightarrow> count (mset (q_list (running_list s))) p \<le> 1 \<Longrightarrow>
      finish_proc s p = Inr s' \<Longrightarrow>
      sched_step (h, s) (Finished p) (h(p := None), s')"
| ran: "h p = Some x \<Longrightarrow> prio y = prio x \<Longrightarrow> sched_step (h, s) (Ran p) (h(p \<mapsto> y), s)"
| loaded: "p \<noteq> NULL \<Longrightarrow> h p = None \<Longrightarrow> add_proc (h(p \<mapsto> x)) s p = Inr (h', s') \<Longrightarrow>
      sched_step (h, s) (Loaded p) (h', s')"

inductive sched_run :: "heap \<times> sched_t \<Rightarrow> sched_event list \<Rightarrow> heap \<times> sched_t \<Rightarrow> bool" where
  nil: "sched_run \<sigma> [] \<sigma>"
| cons: "sched_step \<sigma> e \<sigma>' \<Longrightarrow> sched_run \<sigma>' es \<sigma>'' \<Longrightarrow> sched_run \<sigma> (e # es) \<sigma>''"

inductive_simps sched_run_simps [simp]:
  "sched_run \<sigma> [] \<sigma>'" "sched_run \<sigma> (e # es) \<sigma>'"

lemma mem_all_ready: "p \<in># all_ready s \<longleftrightarrow> (\<exists>l < MAX_PRIO. p \<in> set (level s l))"
  by (auto simp: all_ready_def set_mset_sum)

lemma ready_block:
  assumes "sched_inv h s" and "l < MAX_PRIO" and "p \<in> set (level s l)"
  obtains x where "p \<noteq> NULL" "h p = Some x" "unat (prio x) = l"
proof -
  have "levels_ok h s" using assms(1) by (simp add: sched_inv_def)
  then have "p \<noteq> NULL \<and> h p \<noteq> None \<and> unat (prio (the (h p))) = l"
    using assms(2,3) unfolding levels_ok_def live_def by blast
  then show ?thesis using that by auto
qed

lemma running_block:
  assumes "sched_inv h s" and "p \<in> set (q_list (running_list s))"
  obtains x where "p \<noteq> NULL" "h p = Some x"
proof -
  have "live h (q_list (running_list s))" using assms(1) by (simp add: sched_inv_def)
  then have "p \<noteq> NULL \<and> h p \<noteq> None" using assms(2) unfolding live_def by blast
  then show ?thesis using that by auto
qed

lemma sched_inv_heap:
  assumes "sched_inv h s"
    and keep: "\<And>p x. p \<in># all_ready s \<or> p \<in> set (q_list (running_list s)) \<Longrightarrow> h p = Some x
        \<Longrightarrow> \<exists>y. h' p = Some y \<and> prio y = prio x"
  shows "sched_inv h' s"
proof -
  have "p \<noteq> NULL \<and> h' p \<noteq> None \<and> unat (prio (the (h' p))) = l"
    if l: "l < MAX_PRIO" "p \<in> set (level s l)" for l p
  proof -
    obtain x where x: "p \<noteq> NULL" "h p = Some x" "unat (prio x) = l"
      using assms(1) l by (rule ready_block)
    have "p \<in># all_ready s" using l by (auto simp: mem_all_ready)
    then obtain y where "h' p = Some y" "prio y = prio x" using keep x(2) by blast
    with x show ?thesis by simp
  qed
  then have "levels_ok h' s" by (simp add: levels_ok_def live_def)
  moreover have "p \<noteq> NULL \<and> h' p \<noteq> None" if p: "p \<in> set (q_list (running_list s))" for p
  proof -
    obtain x where x: "p \<noteq> NULL" "h p = Some x" using assms(1) p by (rule running_block)
    then obtain y where "h' p = Some y" using keep p by blast
    with x show ?thesis by simp
  qed
  then have "live h' (q_list (running_list s))" by (simp add: live_def)
  ultimately show ?thesis using assms(1) by (simp add: sched_inv_def)
qed

lemma got_cases:
  assumes "sched_inv h s" and "get_proc h s = Inr (p, s')"
  obtains (none) "p = NULL" "first_level s = None" "s' = (next_level ^^ MAX_PRIO) s"
  | (some) k where "p \<noteq> NULL" "h p \<noteq> None" "first_level s = Some k" "served h s k p s'"
proof (cases "first_level s")
  case None
  have "queues_ok s" "curr_prio s < MAX_PRIO"
    using assms(1) by (simp_all add: sched_inv_def cursor_ok_def)
  then have "get_mlq_proc h s = Inr (NULL, (next_level ^^ MAX_PRIO) s)" using None by (rule get_none)
  then have "(p, s') = (NULL, (next_level ^^ MAX_PRIO) s)"
    using assms(2) unfolding get_proc_def by (metis sum.inject(2))
  then show thesis using None none by (metis prod.inject)
next
  case (Some k)
  have "p \<noteq> NULL \<and> h p \<noteq> None \<and> served h s k p s'"
    using get_some [OF assms(1) Some] assms(2) unfolding get_proc_def by simp
  with Some show thesis by (metis some)
qed

lemma not_in_remove1: "ys = remove1 p xs \<Longrightarrow> count (mset xs) p \<le> 1 \<Longrightarrow> p \<notin> set ys"
proof -
  assume "ys = remove1 p xs" and c: "count (mset xs) p \<le> 1"
  then have "count (mset ys) p = count (mset xs) p - 1" by simp
  then have "count (mset ys) p = 0" using c by simp
  then show ?thesis using count_eq_zero_iff [of "mset ys" p] by simp
qed

lemma sched_step_inv:
  assumes "sched_step (h, s) e (h', s')" and "sched_inv h s"
  shows "sched_inv h' s'"
  using assms(1)
proof cases
  case (got p)
  then show ?thesis using assms(2) by (metis got_cases served_inv)
next
  case idle
  then show ?thesis using assms(2) by (metis got_cases none_inv)
next
  case (put p)
  show ?thesis using put_returns [OF assms(2) put(2,3)] put(4) by auto
next
  case (finished p)
  have r: "sched_inv h s'" "q_list (running_list s') = remove1 p (q_list (running_list s))" "level s' = level s"
    using finish_returns [OF assms(2) finished(3)] finished(6) by simp_all
  have "p \<notin># all_ready s'" using finished(4) r(3) by (simp add: all_ready_def)
  moreover have "p \<notin> set (q_list (running_list s'))" by (rule not_in_remove1) (use finished(5) r(2) in simp_all)
  ultimately show ?thesis unfolding finished(2) by (intro sched_inv_heap [OF r(1)]) (metis fun_upd_other)
next
  case (ran p x y)
  show ?thesis unfolding ran using assms(2) by (rule sched_inv_heap) (use ran in auto)
next
  case (loaded p x)
  have "sched_inv (h(p \<mapsto> x)) s" using assms(2) by (rule sched_inv_heap) (use loaded in auto)
  then show ?thesis using add_returns [of "h(p \<mapsto> x)" s p] loaded by auto
qed

text \<open>A non-empty level stays non-empty and no farther from the cursor until it is served.\<close>

lemma sched_step_wait:
  assumes "sched_step (h, s) e (h', s')" and "sched_inv h s" and "l < MAX_PRIO" and "level s l \<noteq> []"
    and "\<And>p. e \<noteq> Got p l"
  shows "level s' l \<noteq> [] \<and> wait s' l + (case e of Got p m \<Rightarrow> 1 | _ \<Rightarrow> 0) \<le> wait s l"
  using assms(1)
proof cases
  case (got p)
  show ?thesis using assms(2) got(3)
  proof (cases rule: got_cases)
    case none
    with got show ?thesis by simp
  next
    case (some k)
    have inv: "queues_ok s" "curr_prio s < MAX_PRIO"
      using assms(2) by (auto simp: sched_inv_def cursor_ok_def)
    have p: "unat (prio (the (h p))) = (curr_prio s + k) mod MAX_PRIO"
      using served_inv [OF assms(2) some(4)] by simp
    then have ne: "(curr_prio s + k) mod MAX_PRIO \<noteq> l"
      using got(1) assms(5) by (auto simp: level_of_def)
    have "level s' l = level s l" using served_level [OF some(4) inv] ne by auto
    then show ?thesis
      using served_wait [OF assms(2) some(4,3) assms(3,4) ne] assms(4) got(1) by simp
  qed
next
  case idle
  have "first_level s = None" using assms(2) idle(3) by (cases rule: got_cases) simp_all
  then show ?thesis using assms(2,3,4) first_level_None by (simp add: sched_inv_def cursor_ok_def)
next
  case (put p)
  have r: "level s' = (level s)(level_of h p := appended (level s (level_of h p)) p)"
      "curr_prio s' = curr_prio s" "curr_slot s' = curr_slot s"
    using put_returns [OF assms(2) put(2,3)] put(4) by simp_all
  have "wait s' l = wait s l" using r(2,3) by (rule wait_cong)
  then show ?thesis using put(1) r(1) assms(4) by (auto simp: appended_def)
next
  case (finished p)
  have r: "level s' = level s" "curr_prio s' = curr_prio s" "curr_slot s' = curr_slot s"
    using finish_returns [OF assms(2) finished(3)] finished(6) by simp_all
  have "wait s' l = wait s l" using r(2,3) by (rule wait_cong)
  then show ?thesis using finished(1) r(1) assms(4) by simp
next
  case (ran p x y)
  then show ?thesis using assms(4) by simp
next
  case (loaded p x)
  have "sched_inv (h(p \<mapsto> x)) s" using assms(2) by (rule sched_inv_heap) (use loaded in auto)
  then have r: "level s' = (level s)(level_of (h(p \<mapsto> x)) p :=
        appended (level s (level_of (h(p \<mapsto> x)) p)) p)"
      "curr_prio s' = curr_prio s" "curr_slot s' = curr_slot s"
    using add_returns [of "h(p \<mapsto> x)" s p] loaded by simp_all
  have "wait s' l = wait s l" using r(2,3) by (rule wait_cong)
  then show ?thesis using loaded(1) r(1) assms(4) by (auto simp: appended_def)
qed

fun is_got :: "sched_event \<Rightarrow> bool" where
  "is_got (Got p l) = True"
| "is_got _ = False"

lemma sched_run_inv: "sched_run \<sigma> es \<sigma>' \<Longrightarrow> sched_inv (fst \<sigma>) (snd \<sigma>) \<Longrightarrow> sched_inv (fst \<sigma>') (snd \<sigma>')"
proof (induction rule: sched_run.induct)
  case (cons \<sigma> e \<sigma>' es \<sigma>'')
  then show ?case using sched_step_inv [of "fst \<sigma>" "snd \<sigma>" e "fst \<sigma>'" "snd \<sigma>'"] by simp
qed simp

lemma sched_run_wait:
  assumes "sched_run \<sigma> es \<sigma>'" and "sched_inv (fst \<sigma>) (snd \<sigma>)" and "l < MAX_PRIO"
    and "level (snd \<sigma>) l \<noteq> []" and "\<And>p. Got p l \<notin> set es"
  shows "length (filter is_got es) \<le> wait (snd \<sigma>) l"
  using assms
proof (induction rule: sched_run.induct)
  case (nil \<sigma>)
  then show ?case by simp
next
  case (cons \<sigma> e \<sigma>' es \<sigma>'')
  have step: "sched_step (fst \<sigma>, snd \<sigma>) e (fst \<sigma>', snd \<sigma>')" using cons.hyps(1) by simp
  have w: "level (snd \<sigma>') l \<noteq> []"
      "wait (snd \<sigma>') l + (case e of Got p m \<Rightarrow> 1 | _ \<Rightarrow> 0) \<le> wait (snd \<sigma>) l"
    using sched_step_wait [OF step cons.prems(1,2,3)] cons.prems(4) by auto
  have "length (filter is_got es) \<le> wait (snd \<sigma>') l"
    using sched_step_inv [OF step cons.prems(1)] cons.prems w(1) by (intro cons.IH) auto
  with w(2) show ?case by (cases e) simp_all
qed

section \<open>Callers that keep to what they got\<close>

text \<open>
  The scheduler with the processes \<open>H\<close> that it has handed out. A caller may put back, finish and run only
  a process that it holds, and the loader adds only a block that is new; nothing else is asked of them.
\<close>

inductive client_step :: "heap \<times> sched_t \<times> ptr multiset \<Rightarrow> sched_event \<Rightarrow> heap \<times> sched_t \<times> ptr multiset \<Rightarrow> bool" where
  got: "get_proc h s = Inr (p, s') \<Longrightarrow> p \<noteq> NULL \<Longrightarrow> client_step (h, s, H) (Got p (level_of h p)) (h, s', add_mset p H)"
| idle: "get_proc h s = Inr (NULL, s') \<Longrightarrow> client_step (h, s, H) Idle (h, s', H)"
| put: "put_proc h s p = Inr (h', s') \<Longrightarrow> client_step (h, s, add_mset p H) (Put p) (h', s', H)"
| finished: "finish_proc s p = Inr s' \<Longrightarrow> client_step (h, s, add_mset p H) (Finished p) (h(p := None), s', H)"
| ran: "p \<in># H \<Longrightarrow> h p = Some x \<Longrightarrow> prio y = prio x \<Longrightarrow> client_step (h, s, H) (Ran p) (h(p \<mapsto> y), s, H)"
| loaded: "p \<noteq> NULL \<Longrightarrow> h p = None \<Longrightarrow> add_proc (h(p \<mapsto> x)) s p = Inr (h', s') \<Longrightarrow>
      client_step (h, s, H) (Loaded p) (h', s', H)"

inductive client_run :: "heap \<times> sched_t \<times> ptr multiset \<Rightarrow> sched_event list \<Rightarrow> heap \<times> sched_t \<times> ptr multiset \<Rightarrow> bool"
  for \<sigma> where
  start: "client_run \<sigma> [] \<sigma>"
| step: "client_run \<sigma> es \<sigma>' \<Longrightarrow> client_step \<sigma>' e \<sigma>'' \<Longrightarrow> client_run \<sigma> (es @ [e]) \<sigma>''"

definition held_inv :: "heap \<Rightarrow> sched_t \<Rightarrow> ptr multiset \<Rightarrow> bool" where
  "held_inv h s H \<longleftrightarrow> sched_inv h s \<and> (\<forall>p. count (all_ready s + H) p \<le> 1)
     \<and> mset (q_list (running_list s)) \<subseteq># H \<and> (\<forall>p \<in># H. p \<noteq> NULL \<and> h p \<noteq> None)"

lemma held_invD:
  assumes "held_inv h s H"
  shows "sched_inv h s" "count (all_ready s + H) p \<le> 1" "mset (q_list (running_list s)) \<subseteq># H"
    "p \<in># H \<Longrightarrow> p \<noteq> NULL \<and> h p \<noteq> None"
  using assms by (simp_all add: held_inv_def)

lemma handed_once:
  assumes "held_inv h s (add_mset p H)"
  shows "p \<notin># all_ready s" "p \<notin># H" "count (mset (q_list (running_list s))) p \<le> 1" "p \<noteq> NULL" "h p \<noteq> None"
proof -
  note c = held_invD(2) [OF assms, of p]
  show "p \<notin># all_ready s" "p \<notin># H" using c by (simp_all add: not_in_iff)
  show "count (mset (q_list (running_list s))) p \<le> 1"
    using c mset_subset_eq_count [OF held_invD(3) [OF assms], of p] by simp
  show "p \<noteq> NULL" "h p \<noteq> None" using held_invD(4) [OF assms, of p] by simp_all
qed

text \<open>None of the four operations has a fault.\<close>

lemma held_returns:
  assumes "held_inv h s H"
  shows "returns (get_proc h s) (\<lambda>_. True)" and "p \<in># H \<Longrightarrow> returns (put_proc h s p) (\<lambda>_. True)"
    and "p \<in># H \<Longrightarrow> returns (finish_proc s p) (\<lambda>_. True)"
    and "p \<noteq> NULL \<Longrightarrow> h p = None \<Longrightarrow> returns (add_proc (h(p \<mapsto> x)) s p) (\<lambda>_. True)"
proof -
  note inv = held_invD(1) [OF assms]
  show "returns (get_proc h s) (\<lambda>_. True)"
    using get_none [of s h] get_some [OF inv] inv
    by (cases "first_level s") (auto simp: sched_inv_def cursor_ok_def get_proc_def elim!: returnsE)
  show "p \<in># H \<Longrightarrow> returns (put_proc h s p) (\<lambda>_. True)" "p \<in># H \<Longrightarrow> returns (finish_proc s p) (\<lambda>_. True)"
    using put_returns [OF inv, of p] finish_returns [OF inv, of p] held_invD(4) [OF assms, of p] by (auto elim!: returnsE)
  have "sched_inv (h(p \<mapsto> x)) s" if "h p = None" by (rule sched_inv_heap [OF inv]) (use that in auto)
  then show "p \<noteq> NULL \<Longrightarrow> h p = None \<Longrightarrow> returns (add_proc (h(p \<mapsto> x)) s p) (\<lambda>_. True)"
    using add_returns [of "h(p \<mapsto> x)" s p] by (auto elim!: returnsE)
qed

text \<open>Such a caller does nothing that \<open>sched_step\<close> leaves out.\<close>

lemma client_sched:
  assumes "client_step (h, s, H) e (h', s', H')" and "held_inv h s H"
  shows "sched_step (h, s) e (h', s')"
  using assms(1)
proof cases
  case (finished p)
  then have "held_inv h s (add_mset p H')" using assms(2) by simp
  note o = handed_once [OF this]
  show ?thesis using sched_step.finished [OF o(4,1,3), of s'] finished by simp
next
  case (put p)
  then have "held_inv h s (add_mset p H')" using assms(2) by simp
  note o = handed_once [OF this]
  show ?thesis using sched_step.put [of p h s h' s'] o(4,5) put by simp
qed (auto intro: sched_step.intros)

lemma client_step_inv:
  assumes st: "client_step (h, s, H) e (h', s', H')" and inv: "held_inv h s H"
  shows "held_inv h' s' H'"
proof -
  note S = held_invD(1) [OF inv] and once = held_invD(2) [OF inv]
  have S': "sched_inv h' s'" by (rule sched_step_inv [OF client_sched [OF st inv] S])
  have "(\<forall>p. count (all_ready s' + H') p \<le> 1) \<and> mset (q_list (running_list s')) \<subseteq># H' \<and> (\<forall>p \<in># H'. p \<noteq> NULL \<and> h' p \<noteq> None)"
    using st
  proof cases
    case (got p)
    from S got(4) show ?thesis
    proof (cases rule: got_cases)
      case (some k)
      have "all_ready s = add_mset p (all_ready s')" using served_inv [OF S some(4)] by simp
      moreover have "mset (q_list (running_list s')) \<subseteq># add_mset p (mset (q_list (running_list s)))"
        using some(4) by (auto simp: served_def Let_def)
      then have "mset (q_list (running_list s')) \<subseteq># add_mset p H"
        using held_invD(3) [OF inv] by (meson mset_subset_eq_add_mset_cancel subset_mset.order_trans)
      ultimately show ?thesis using once some(1,2) held_invD(4) [OF inv] got(2,3) by auto
    qed (use got in simp)
  next
    case idle
    from S idle(4) show ?thesis
    proof (cases rule: got_cases)
      case none
      then show ?thesis using once held_invD(3,4) [OF inv] idle(2,3) by (simp add: all_ready_def)
    qed simp
  next
    case (put p)
    then have H: "H = add_mset p H'" by simp
    note o = handed_once [OF inv [unfolded H]]
    have r: "q_list (running_list s') = remove1 p (q_list (running_list s))"
        "level s' = (level s)(level_of h p := appended (level s (level_of h p)) p)" "h' = h(p \<mapsto> admit_block (the (h p)))"
      using put_returns [OF S o(4,5)] put(3) by simp_all
    have "all_ready s' \<subseteq># add_mset p (all_ready s)" using all_ready_appended [OF r(2) level_of_less] by (auto split: if_splits)
    then have "count (all_ready s' + H') q \<le> 1" for q
      using once [of q] mset_subset_eq_count [of "all_ready s'" "add_mset p (all_ready s)" q] H by (auto split: if_splits)
    moreover have "mset (q_list (running_list s')) \<subseteq># H'"
      using held_invD(3) [OF inv] H by (simp add: r(1) subset_eq_diff_conv)
    ultimately show ?thesis using held_invD(4) [OF inv] H by (auto simp: r(3))
  next
    case (finished p)
    then have H: "H = add_mset p H'" by simp
    note o = handed_once [OF inv [unfolded H]]
    have r: "q_list (running_list s') = remove1 p (q_list (running_list s))" "all_ready s' = all_ready s"
      using finish_returns [OF S o(4)] finished(4) by (simp_all add: all_ready_def)
    have "mset (q_list (running_list s')) \<subseteq># H'"
      using held_invD(3) [OF inv] H by (simp add: r(1) subset_eq_diff_conv)
    moreover have "count (all_ready s' + H') q \<le> 1" for q using once [of q] H r(2) by (auto split: if_splits)
    ultimately show ?thesis using held_invD(4) [OF inv] finished H o(2) by auto
  next
    case (ran p x y)
    then show ?thesis using inv by (auto simp: held_inv_def)
  next
    case (loaded p x)
    have no: "h p = None" using loaded by simp
    have "p \<notin> set (level s l)" if "l < MAX_PRIO" for l using ready_block [OF S that, of p] no by auto
    then have new: "p \<notin># all_ready s + H" using no held_invD(4) [OF inv, of p] by (auto simp: mem_all_ready)
    have "sched_inv (h(p \<mapsto> x)) s" using S by (rule sched_inv_heap) (use loaded in auto)
    then have r: "running_list s' = running_list s" "h' = (h(p \<mapsto> x))(p \<mapsto> admit_block x)"
        "level s' = (level s)(level_of (h(p \<mapsto> x)) p := appended (level s (level_of (h(p \<mapsto> x)) p)) p)"
      using add_returns [of "h(p \<mapsto> x)" s p] loaded by simp_all
    have "all_ready s' \<subseteq># add_mset p (all_ready s)" using all_ready_appended [OF r(3) level_of_less] by (auto split: if_splits)
    then have "count (all_ready s' + H') q \<le> 1" for q
      using once [of q] new mset_subset_eq_count [of "all_ready s'" "add_mset p (all_ready s)" q] loaded(2)
      by (auto simp: not_in_iff split: if_splits)
    then show ?thesis using held_invD(3,4) [OF inv] loaded(2) by (auto simp: r(1,2))
  qed
  with S' show ?thesis by (simp add: held_inv_def)
qed

section \<open>Time slices on one level\<close>

text \<open>One time slice of a single CPU: take a process, run it, put it back (\<^verbatim>\<open>cpu_routine\<close>).\<close>

definition time_slice :: "heap \<Rightarrow> sched_t \<Rightarrow> (ptr \<times> heap \<times> sched_t) res" where
  "time_slice h s = rbind (get_proc h s) (\<lambda>(p, s). rbind (put_proc h s p) (\<lambda>(h, s). Inr (p, h, s)))"

fun time_slices :: "nat \<Rightarrow> heap \<Rightarrow> sched_t \<Rightarrow> (ptr list \<times> heap \<times> sched_t) res" where
  "time_slices 0 h s = Inr ([], h, s)"
| "time_slices (Suc n) h s =
     rbind (time_slice h s) (\<lambda>(p, h, s).
     rbind (time_slices n h s) (\<lambda>(ps, h, s). Inr (p # ps, h, s)))"

text \<open>Two processes wait at level \<open>l\<close>, all other levels are empty.\<close>

definition two_waiting :: "heap \<Rightarrow> sched_t \<Rightarrow> nat \<Rightarrow> ptr \<Rightarrow> ptr \<Rightarrow> bool" where
  "two_waiting h s l p r \<longleftrightarrow> sched_inv h s \<and> l < MAX_PRIO \<and> p \<noteq> r
     \<and> (level s l = [p, r] \<or> level s l = [r, p]) \<and> (\<forall>m < MAX_PRIO. m \<noteq> l \<longrightarrow> level s m = [])
     \<and> priority (the (h p)) < priority (the (h r))"

lemma two_waiting_slice:
  assumes "two_waiting h s l p r"
  shows "returns (time_slice h s) (\<lambda>(q, h', s'). q = p \<and> two_waiting h' s' l p r)"
proof -
  have inv: "sched_inv h s" and l: "l < MAX_PRIO" and ne: "p \<noteq> r"
    and lev: "level s l = [p, r] \<or> level s l = [r, p]"
    and other: "\<And>m. m < MAX_PRIO \<Longrightarrow> m \<noteq> l \<Longrightarrow> level s m = []"
    and prio: "priority (the (h p)) < priority (the (h r))"
    using assms by (auto simp: two_waiting_def)
  have c: "queues_ok s" "curr_prio s < MAX_PRIO" using inv by (auto simp: sched_inv_def cursor_ok_def)
  obtain k where k: "first_level s = Some k"
    using first_level_None [OF c(2)] l lev by (cases "first_level s") auto
  obtain q s1 where g: "get_proc h s = Inr (q, s1)" "q \<noteq> NULL" "h q \<noteq> None" "served h s k q s1"
    using get_some [OF inv k] by (auto simp: get_proc_def elim!: returnsE)
  have kl: "(curr_prio s + k) mod MAX_PRIO = l"
    using k other [of "(curr_prio s + k) mod MAX_PRIO"] by (auto simp: first_level_Some)
  obtain i where i: "first_min h (level s l) i" "q = level s l ! i"
      "level s1 = (level s)(l := drop_nth i (level s l))"
    using served_level [OF g(4) c] kl by auto
  have "i = (if level s l = [p, r] then 0 else 1)"
    using i(1) prio lev ne by (auto simp: first_min_def less_Suc_eq)
  then have q: "q = p" and l1: "level s1 l = [r]" "\<And>m. m \<noteq> l \<Longrightarrow> level s1 m = level s m"
    using i(2,3) lev ne by (auto simp: drop_nth_def)
  have inv1: "sched_inv h s1" and lp: "unat (prio (the (h p))) = l"
    using served_inv [OF inv g(4)] kl q by auto
  then have lo: "level_of h p = l" using l by (simp add: level_of_def)
  obtain h' s' where u: "put_proc h s1 p = Inr (h', s')" "sched_inv h' s'"
      "level s' = (level s1)(l := appended (level s1 l) p)" "h' = h(p \<mapsto> admit_block (the (h p)))"
    using put_returns [OF inv1, of p] g(2,3) q lo by (auto elim!: returnsE)
  have "level s' l = [r, p]" "\<forall>m < MAX_PRIO. m \<noteq> l \<longrightarrow> level s' m = []"
    using u(3) l1 other by (auto simp: appended_def MAX_QUEUE_SIZE_def)
  then have "two_waiting h' s' l p r"
    using u(2,4) l ne prio by (simp add: two_waiting_def)
  with g(1) u(1) q show ?thesis by (simp add: time_slice_def)
qed

lemma two_waiting_slices:
  "two_waiting h s l p r \<Longrightarrow> returns (time_slices n h s) (\<lambda>(ps, h', s'). ps = replicate n p)"
proof (induction n arbitrary: h s)
  case (Suc n)
  obtain h' s' where "time_slice h s = Inr (p, h', s')" "two_waiting h' s' l p r"
    using two_waiting_slice [OF Suc.prems] by (auto elim!: returnsE)
  with Suc.IH [of h' s'] show ?case by (auto elim!: returns_mono)
qed simp

section \<open>Properties\<close>

lemma client_run_inv:
  assumes "client_run (h0, init_scheduler static_sched, {#}) es (h, s, H)"
  shows "held_inv h s H"
proof -
  have "held_inv (fst \<sigma>) (fst (snd \<sigma>)) (snd (snd \<sigma>))"
    if "client_run (h0, init_scheduler static_sched, {#}) es \<sigma>" for \<sigma>
    using that
  proof (induction rule: client_run.induct)
    case start
    have "level (init_scheduler static_sched) l = []" if "l < MAX_PRIO" for l
      using that by (simp add: level_def init_scheduler_def static_sched_def q_list_def)
    then have "all_ready (init_scheduler static_sched) = {#}" by (simp add: all_ready_empty)
    then show ?case using sched_inv_init
      by (simp add: held_inv_def init_scheduler_def static_sched_def q_list_def)
  next
    case (step es \<sigma> e \<sigma>')
    then show ?case
      using client_step_inv [of "fst \<sigma>" "fst (snd \<sigma>)" "snd (snd \<sigma>)" e "fst \<sigma>'" "fst (snd \<sigma>')" "snd (snd \<sigma>')"] by simp
  qed
  from this [OF assms] show ?thesis by simp
qed

text \<open>
  C27. Safety of the scheduler under every interleaving of callers that put back and finish only what
  they got. From the initial state, every queued pointer refers to a block that has not been freed, every
  process waits at the level of its \<open>prio\<close>, no queue exceeds its array and the cursor stays in range;
  no process waits twice or waits while it is handed out; the list of running processes has only
  processes that are handed out, so none that was freed; and no operation that such a caller can
  start next has a fault.
\<close>

theorem scheduler_safe:
  assumes "client_run (h0, init_scheduler static_sched, {#}) es (h, s, H)"
  shows "sched_inv h s \<and> (\<forall>p. count (all_ready s + H) p \<le> 1)
    \<and> mset (q_list (running_list s)) \<subseteq># H \<and> (\<forall>p \<in># H. h p \<noteq> None)
    \<and> returns (get_proc h s) (\<lambda>_. True)
    \<and> (\<forall>p \<in># H. returns (put_proc h s p) (\<lambda>_. True) \<and> returns (finish_proc s p) (\<lambda>_. True))
    \<and> (\<forall>p x. p \<noteq> NULL \<longrightarrow> h p = None \<longrightarrow> returns (add_proc (h(p \<mapsto> x)) s p) (\<lambda>_. True))"
proof -
  have "held_inv h s H" by (rule client_run_inv [OF assms])
  note i = held_invD [OF this] held_returns [OF this]
  show ?thesis using i by blast
qed

theorem scheduler_safe_witness:
  "\<exists>h s l. client_run (Map.empty, init_scheduler static_sched, {#}) [Loaded 1, Got 1 l, Finished 1] (h, s, {#})
     \<and> h 1 = None \<and> sched_inv h s \<and> q_list (running_list s) = []"
proof -
  let ?i = "init_scheduler static_sched" and ?h = "[1 \<mapsto> sample_pcb 1 5 3]"
  have 0: "client_run (Map.empty, ?i, {#}) [] (Map.empty, ?i, {#})" by (rule client_run.start)
  have "returns (add_proc ?h ?i 1) (\<lambda>_. True)" using scheduler_safe [OF 0] by simp
  then obtain h1 s1 where a: "add_proc ?h ?i 1 = Inr (h1, s1)" by (auto elim!: returnsE)
  then have 1: "client_run (Map.empty, ?i, {#}) [Loaded 1] (h1, s1, {#})"
    using client_run.step [OF 0 client_step.loaded [of 1 Map.empty]] by simp
  note S = client_run_inv [OF 1, THEN held_invD(1)]
  have "sched_inv ?h ?i" by (rule sched_inv_init)
  then have "level s1 = (level ?i)(level_of ?h 1 := appended (level ?i (level_of ?h 1)) 1)"
    using add_returns [of ?h ?i 1] a by simp
  moreover have "level ?i l = []" if "l < MAX_PRIO" for l
    using that by (simp add: level_def init_scheduler_def static_sched_def q_list_def)
  ultimately have r: "all_ready s1 = {#1#}"
    using all_ready_appended [of s1 ?i "level_of ?h 1" 1] by (simp add: all_ready_empty MAX_QUEUE_SIZE_def)
  obtain p s2 where g: "get_proc h1 s1 = Inr (p, s2)"
    using scheduler_safe [OF 1] by (auto elim!: returnsE)
  have p: "p = 1"
    using S g
  proof (cases rule: got_cases)
    case none
    then show ?thesis using S r first_level_None [of s1] by (simp add: sched_inv_def cursor_ok_def flip: all_ready_empty)
  next
    case (some k)
    then show ?thesis using served_inv [OF S some(4)] r by simp
  qed
  then have 2: "client_run (Map.empty, ?i, {#}) [Loaded 1, Got 1 (level_of h1 1)] (h1, s2, {#1#})"
    using client_run.step [OF 1 client_step.got [OF g]] by simp
  obtain s3 where f: "finish_proc s2 1 = Inr s3"
    using scheduler_safe [OF 2] by (auto elim!: returnsE)
  have 3: "client_run (Map.empty, ?i, {#}) [Loaded 1, Got 1 (level_of h1 1), Finished 1] (h1(1 := None), s3, {#})"
    using client_run.step [OF 2 client_step.finished [OF f, of h1 "{#}"]] by simp
  have e: "sched_inv (h1(1 := None)) s3" "q_list (running_list s3) = []" using scheduler_safe [OF 3] by simp_all
  show ?thesis
    by (rule exI [of _ "h1(1 := None)"], rule exI [of _ s3], rule exI [of _ "level_of h1 1"]) (use 3 e in simp)
qed

text \<open>
  C5. No level starves: while a level is non-empty, whatever the threads do, fewer than
  \<open>9870 - (140 - l)\<close> + 1 processes of other levels are dispatched before a process of that level
  is (9870 is the sum of the budgets of all levels).
\<close>

theorem no_level_starves:
  assumes "sched_run (h, s) es (h', s')" and "sched_inv h s" and "l < MAX_PRIO" and "level s l \<noteq> []"
    and "9870 - (MAX_PRIO - l) < length (filter is_got es)"
  shows "\<exists>p. Got p l \<in> set es"
proof (rule ccontr)
  assume no: "\<not> ?thesis"
  have "length (filter is_got es) \<le> wait s l"
    using sched_run_wait [OF assms(1), of l] no assms(2,3,4) by auto
  moreover have "wait s l + (MAX_PRIO - l) \<le> 9870"
    using assms(2,3) by (intro wait_bound) (simp_all add: sched_inv_def)
  ultimately show False using assms(5) by simp
qed

lemma get_put_run:
  "time_slices n h s = Inr (ps, h', s') \<Longrightarrow> two_waiting h s l p r \<Longrightarrow>
   \<exists>es. sched_run (h, s) es (h', s') \<and> length (filter is_got es) = n"
proof (induction n arbitrary: h s ps)
  case 0
  then show ?case by (auto intro: sched_run.nil exI [of _ "[]"])
next
  case (Suc n)
  obtain h1 s1 where t: "time_slice h s = Inr (p, h1, s1)" "two_waiting h1 s1 l p r"
    using two_waiting_slice [OF Suc.prems(2)] by (auto elim!: returnsE)
  obtain ps' where "time_slices n h1 s1 = Inr (ps', h', s')"
    using Suc.prems(1) t(1) by (auto simp: rbind_Inr_iff)
  then obtain es where es: "sched_run (h1, s1) es (h', s')" "length (filter is_got es) = n"
    using Suc.IH t(2) by blast
  obtain s2 where g: "get_proc h s = Inr (p, s2)" "put_proc h s2 p = Inr (h1, s1)"
    using t(1) by (auto simp: time_slice_def rbind_Inr_iff)
  have "p \<noteq> NULL \<and> h p \<noteq> None"
    using Suc.prems(2) ready_block [of h s l p] by (fastforce simp: two_waiting_def)
  then have "sched_run (h, s) (Got p (level_of h p) # Put p # es) (h1', s1')"
    if "sched_run (h1, s1) es (h1', s1')" for h1' s1'
    using sched_step.got [OF g(1)] sched_step.put [OF _ _ g(2)] that by auto
  with es show ?case by (intro exI [of _ "Got p (level_of h p) # Put p # es"]) simp
qed

lemma demo_two_waiting: "two_waiting demo_heap demo_sched 3 1 2"
  using demo_inv by (auto simp: two_waiting_def demo_level demo_heap_def sample_pcb_def MAX_PRIO_def)

theorem no_level_starves_witness:
  "\<exists>es h' s'. sched_run (demo_heap, demo_sched) es (h', s') \<and> (\<exists>p. Got p 3 \<in> set es)"
proof -
  obtain ps h' s' where "time_slices 9870 demo_heap demo_sched = Inr (ps, h', s')"
    using two_waiting_slices [OF demo_two_waiting, of 9870] by (auto elim!: returnsE)
  then obtain es where es: "sched_run (demo_heap, demo_sched) es (h', s')"
      "length (filter is_got es) = 9870"
    using get_put_run demo_two_waiting by blast
  have "3 < MAX_PRIO" "level demo_sched 3 \<noteq> []" by (simp_all add: demo_level MAX_PRIO_def)
  then have "\<exists>p. Got p 3 \<in> set es"
    using no_level_starves [OF es(1) demo_inv, of 3] es(2) by (simp add: MAX_PRIO_def)
  with es(1) show ?thesis by blast
qed

text \<open>
  Within a level the service is not round-robin: when two processes of one level differ in
  their \<open>priority\<close> value, a CPU that gets, runs and puts back gives every one of any number of
  consecutive time slices to the process with the smaller value, and none to the other.
\<close>

lemma level_not_round_robin:
  assumes "two_waiting h s l p r"
  shows "returns (time_slices n h s) (\<lambda>(ps, h', s'). ps = replicate n p \<and> r \<notin> set ps)"
proof -
  have "p \<noteq> r" using assms by (simp add: two_waiting_def)
  with two_waiting_slices [OF assms, of n] show ?thesis by (auto elim!: returns_mono)
qed

end
