(* ===== verification/Os.thy ===== *)
theory Os
  imports Cpu Timer Config Sched_Fair
begin

text \<open>
  \<^verbatim>\<open>src/os.c\<close>: the processor and loader threads and \<open>main\<close>. A thread is a
  function that makes its next step, one locked operation or one instruction at a time; the steps
  of all threads and of the timer interleave in the relation \<open>os_step\<close>.
\<close>

section \<open>The processor thread\<close>

text \<open>
  Where a processor stands in \<open>cpu_routine\<close>: at the head of the loop, before the two kinds of
  \<open>get_proc\<close>, at the second test, before \<open>run\<close>, before \<open>next_slot\<close>, before \<open>detach_event\<close>, or at the
  end. \<open>proc\<close> is a local variable: after \<open>put_proc\<close> and \<open>free\<close> it still has the old value, but it is
  assigned before it is read again.
\<close>

datatype cpu_pc = Top | First_Get | Next_Get | Recheck | Exec | Next_Slot | Leave | Stopped

record cpu =
  time_left :: int
  proc :: ptr
  cpc :: cpu_pc

definition cpu_start :: cpu where
  "cpu_start = \<lparr>time_left = 0, proc = NULL, cpc = Top\<rparr>"

text \<open>
  One step of \<open>cpu_routine\<close>, given \<open>time_slot\<close> and \<open>done\<close>. Steps at \<open>Next_Slot\<close> and after it belong
  to the barrier. The assignment \<open>time_left = 0\<close> after the end of a process is made with the step
  that frees the process.
\<close>

definition cpu_routine :: "int \<Rightarrow> bool \<Rightarrow> kern \<Rightarrow> cpu \<Rightarrow> (kern \<times> cpu) res" where
  "cpu_routine slots dn K c = (case cpc c of
      Top \<Rightarrow>
        if proc c = NULL then Inr (K, c\<lparr>cpc := First_Get\<rparr>)
        else rbind (deref (procs K) (proc c)) (\<lambda>x.
          if unat (pc x) = length (code x) then
            rbind (finish_proc (sched K) (proc c)) (\<lambda>s.
              Inr (K\<lparr>sched := s, procs := (procs K)(proc c := None)\<rparr>, c\<lparr>time_left := 0, cpc := Next_Get\<rparr>))
          else if time_left c = 0 then
            rbind (put_proc (procs K) (sched K) (proc c)) (\<lambda>(h, s).
              Inr (K\<lparr>procs := h, sched := s\<rparr>, c\<lparr>cpc := Next_Get\<rparr>))
          else Inr (K, c\<lparr>cpc := Recheck\<rparr>))
    | First_Get \<Rightarrow>
        rbind (get_proc (procs K) (sched K)) (\<lambda>(p, s).
          Inr (K\<lparr>sched := s\<rparr>, c\<lparr>proc := p, cpc := (if p = NULL then Next_Slot else Recheck)\<rparr>))
    | Next_Get \<Rightarrow>
        rbind (get_proc (procs K) (sched K)) (\<lambda>(p, s). Inr (K\<lparr>sched := s\<rparr>, c\<lparr>proc := p, cpc := Recheck\<rparr>))
    | Recheck \<Rightarrow>
        if proc c = NULL \<and> dn then Inr (K, c\<lparr>cpc := Leave\<rparr>)
        else if proc c = NULL then Inr (K, c\<lparr>cpc := Next_Slot\<rparr>)
        else if time_left c = 0 then Inr (K, c\<lparr>time_left := slots, cpc := Exec\<rparr>)
        else Inr (K, c\<lparr>cpc := Exec\<rparr>)
    | Exec \<Rightarrow>
        rbind (run K (proc c)) (\<lambda>(_, K). Inr (K, c\<lparr>time_left := time_left c - 1, cpc := Next_Slot\<rparr>))
    | _ \<Rightarrow> Inr (K, c))"

section \<open>The loader thread\<close>

datatype ld_pc = Ld_Top | Ld_Wait | Ld_Wait_Slot | Ld_Slot | Ld_Leave | Ld_Stopped

record loader =
  next_process :: nat
  ld_proc :: ptr
  lpc :: ld_pc

definition loader_start :: loader where
  "loader_start = \<lparr>next_process = 0, ld_proc = NULL, lpc = Ld_Top\<rparr>"

text \<open>
  The state of the simulator: what the threads share and where each of them stands. Device \<open>i\<close> of
  the timer belongs to processor \<open>i\<close>, the last one to the loader.
\<close>

record os =
  kernel :: kern
  avail_pid :: u32
  all_loaded :: bool
  cpus :: "cpu list"
  ld :: loader
  bar :: barrier

text \<open>
  One step of \<open>ld_routine\<close> for the files \<open>fs\<close>. \<open>fresh\<close>, \<open>x0\<close> and \<open>j\<close> are what \<open>malloc\<close> gives: the
  address of the new block and what its memory holds. The block's copy of the kernel structure has
  no memory and no queues yet. \<open>None\<close> is a call of \<open>exit\<close> inside \<open>load\<close>.
\<close>

definition ld_routine :: "config \<Rightarrow> (string \<Rightarrow> string option) \<Rightarrow> ptr \<Rightarrow> pcb_t \<Rightarrow> (nat \<Rightarrow> inst_t) \<Rightarrow> os \<Rightarrow> os option res" where
  "ld_routine cf fs fresh x0 j s = (let l = ld s; i = next_process l; K = kernel s in case lpc l of
      Ld_Top \<Rightarrow>
        if int i < num_processes cf then
          rbind (arr_get (ld_processes cf) i) (\<lambda>a.
          rbind (load x0 j (avail_pid s) (fs (path a))) (\<lambda>r. case r of
            None \<Rightarrow> Inr None
          | Some (x, pd) \<Rightarrow> (case ld_prio a of
              None \<Rightarrow> Inl Uninit_Read
            | Some pr \<Rightarrow>
                (let x = x\<lparr>krnl_mm := None, krnl_queues := False, prio := ucast pr\<rparr>
                 in Inr (Some (s\<lparr>kernel := K\<lparr>procs := (procs K)(fresh \<mapsto> x)\<rparr>, avail_pid := pd,
                      ld := l\<lparr>ld_proc := fresh, lpc := Ld_Wait\<rparr>\<rparr>))))))
        else Inr (Some (s\<lparr>all_loaded := True, ld := l\<lparr>lpc := Ld_Leave\<rparr>\<rparr>))
    | Ld_Wait \<Rightarrow>
        rbind (arr_get (ld_processes cf) i) (\<lambda>a. case start_time a of
          None \<Rightarrow> Inl Uninit_Read
        | Some t \<Rightarrow>
            if current_time (tm (bar s)) < t then Inr (Some (s\<lparr>ld := l\<lparr>lpc := Ld_Wait_Slot\<rparr>\<rparr>))
            else rbind (deref (procs K) (ld_proc l)) (\<lambda>x.
              rbind (add_proc ((procs K)(ld_proc l \<mapsto> x\<lparr>krnl_mm := Some init_mm\<rparr>)) (sched K) (ld_proc l)) (\<lambda>(h, sc).
                Inr (Some (s\<lparr>kernel := K\<lparr>procs := h, sched := sc\<rparr>,
                  ld := l\<lparr>next_process := i + 1, lpc := Ld_Slot\<rparr>\<rparr>)))))
    | _ \<Rightarrow> Inr (Some s))"


section \<open>The main program\<close>

text \<open>
  What \<open>main\<close> sets up before it starts the threads. Of the swap devices only the first is reachable.
\<close>

definition boot :: "config \<Rightarrow> os" where
  "boot cf =
     \<lparr>kernel = \<lparr>procs = Map.empty, sched = init_scheduler static_sched,
        kram = init_memphy uninit_memphy (memramsz cf) True,
        kswp = init_memphy uninit_memphy (memswpsz cf ! 0) True\<rparr>,
      avail_pid = 1, all_loaded = False,
      cpus = replicate (nat (num_cpus cf)) cpu_start, ld = loader_start,
      bar = \<lparr>tm = start_timer (((\<lambda>t. snd (attach_event t)) ^^ (nat (num_cpus cf) + 1)) static_timer),
        tpc = Loop, dpc = \<lambda>_. Working\<rparr>\<rparr>"

text \<open>
  \<open>main\<close> up to the start of the threads, for the files \<open>fs\<close> and the arguments of the command line;
  \<open>None\<close> where it ends with status 1.
\<close>

definition main_start :: "(string \<Rightarrow> string option) \<Rightarrow> string list \<Rightarrow> (config \<times> os) option res" where
  "main_start fs argv =
     (if length argv \<noteq> 2 then Inr None
      else if 100 \<le> length (''input/'' @ argv ! 1) then Inl Out_Of_Bounds
      else rbind (read_config (fs (''input/'' @ argv ! 1))) (\<lambda>cf. Inr (map_option (\<lambda>cf. (cf, boot cf)) cf)))"

section \<open>The threads together\<close>

text \<open>Thread \<open>i\<close> stands before \<open>next_slot\<close>, and what it does when it has returned from it.\<close>

definition at_slot :: "os \<Rightarrow> nat \<Rightarrow> bool" where
  "at_slot s i \<longleftrightarrow> (if i < length (cpus s) then cpc (cpus s ! i) = Next_Slot
     else i = length (cpus s) \<and> lpc (ld s) \<in> {Ld_Wait_Slot, Ld_Slot})"

definition resumed :: "os \<Rightarrow> nat \<Rightarrow> os" where
  "resumed s i =
     (if i < length (cpus s) then s\<lparr>cpus := (cpus s)[i := (cpus s ! i)\<lparr>cpc := Top\<rparr>]\<rparr>
      else s\<lparr>ld := (ld s)\<lparr>lpc := (if lpc (ld s) = Ld_Wait_Slot then Ld_Wait else Ld_Top)\<rparr>\<rparr>)"

text \<open>The same for \<open>detach_event\<close>, after which a thread ends.\<close>

definition at_end :: "os \<Rightarrow> nat \<Rightarrow> bool" where
  "at_end s i \<longleftrightarrow> (if i < length (cpus s) then cpc (cpus s ! i) = Leave
     else i = length (cpus s) \<and> lpc (ld s) = Ld_Leave)"

definition stopped :: "os \<Rightarrow> nat \<Rightarrow> os" where
  "stopped s i =
     (if i < length (cpus s) then s\<lparr>cpus := (cpus s)[i := (cpus s ! i)\<lparr>cpc := Stopped\<rparr>]\<rparr>
      else s\<lparr>ld := (ld s)\<lparr>lpc := Ld_Stopped\<rparr>\<rparr>)"

text \<open>
  A step of the simulator. An instruction that is run is recorded with the block of its process. The
  barrier steps are those of \<^verbatim>\<open>src/timer.c\<close>; \<open>Stop\<close>, the call of \<open>stop_timer\<close>, comes after \<open>main\<close> has
  joined all threads.
\<close>

datatype os_event = Cpu_Step nat | Cpu_Run nat pcb_t | Loader_Step | Bar barrier_event

inductive os_step :: "config \<Rightarrow> (string \<Rightarrow> string option) \<Rightarrow> os \<Rightarrow> os_event \<Rightarrow> os \<Rightarrow> bool" for cf fs where
  cpu: "i < length (cpus s) \<Longrightarrow> cpc (cpus s ! i) \<in> {Top, First_Get, Next_Get, Recheck} \<Longrightarrow>
     cpu_routine (time_slot cf) (all_loaded s) (kernel s) (cpus s ! i) = Inr (K, c) \<Longrightarrow>
     os_step cf fs s (Cpu_Step i) (s\<lparr>kernel := K, cpus := (cpus s)[i := c]\<rparr>)"
| exec: "i < length (cpus s) \<Longrightarrow> cpc (cpus s ! i) = Exec \<Longrightarrow> procs (kernel s) (proc (cpus s ! i)) = Some x \<Longrightarrow>
     cpu_routine (time_slot cf) (all_loaded s) (kernel s) (cpus s ! i) = Inr (K, c) \<Longrightarrow>
     os_step cf fs s (Cpu_Run i x) (s\<lparr>kernel := K, cpus := (cpus s)[i := c]\<rparr>)"
| load: "lpc (ld s) \<in> {Ld_Top, Ld_Wait} \<Longrightarrow> fresh \<noteq> NULL \<Longrightarrow> procs (kernel s) fresh = None \<Longrightarrow>
     length (regs x0) = 10 \<Longrightarrow> ld_routine cf fs fresh x0 j s = Inr (Some s') \<Longrightarrow>
     os_step cf fs s Loader_Step s'"
| slot: "at_slot s i \<Longrightarrow> barrier_step (bar s) (Done i) b \<Longrightarrow> os_step cf fs s (Bar (Done i)) (s\<lparr>bar := b\<rparr>)"
| wake: "at_slot s i \<Longrightarrow> barrier_step (bar s) (Wake i) b \<Longrightarrow>
     os_step cf fs s (Bar (Wake i)) ((resumed s i)\<lparr>bar := b\<rparr>)"
| detach: "at_end s i \<Longrightarrow> barrier_step (bar s) (Detach i) b \<Longrightarrow>
     os_step cf fs s (Bar (Detach i)) ((stopped s i)\<lparr>bar := b\<rparr>)"
| timer: "barrier_step (bar s) Timer b \<Longrightarrow> os_step cf fs s (Bar Timer) (s\<lparr>bar := b\<rparr>)"
| halt: "\<forall>c \<in> set (cpus s). cpc c = Stopped \<Longrightarrow> lpc (ld s) = Ld_Stopped \<Longrightarrow>
     barrier_step (bar s) Stop b \<Longrightarrow> os_step cf fs s (Bar Stop) (s\<lparr>bar := b\<rparr>)"

inductive os_run :: "config \<Rightarrow> (string \<Rightarrow> string option) \<Rightarrow> os \<Rightarrow> os_event list \<Rightarrow> os \<Rightarrow> bool" for cf fs s where
  start: "os_run cf fs s [] s"
| step: "os_run cf fs s es s' \<Longrightarrow> os_step cf fs s' e s'' \<Longrightarrow> os_run cf fs s (es @ [e]) s''"

end
