(* ===== verification/Os_Props.thy ===== *)
theory Os_Props
  imports Os
begin

text \<open>
  Properties of the whole simulator of \<^verbatim>\<open>src/os.c\<close>: in every interleaving of its threads the
  scheduler and the memory keep their invariants and a process is in one place only; the time slice
  of a process is bounded; a processor that is idle when the last process has been loaded and finished never ends.
\<close>

section \<open>The cases of a step\<close>

text \<open>What a processor does at the head of its loop when it has a process, and at the second test.\<close>

lemma cpu_top_cases:
  assumes st: "cpu_routine slots dn K c = Inr (K', c')" and c: "cpc c = Top" "proc c \<noteq> NULL"
  obtains (ended) y s where "procs K (proc c) = Some y" "unat (pc y) = length (code y)" "finish_proc (sched K) (proc c) = Inr s"
        "K' = K\<lparr>sched := s, procs := (procs K)(proc c := None)\<rparr>" "c' = c\<lparr>time_left := 0, cpc := Next_Get\<rparr>"
    | (slice_over) y h s where "procs K (proc c) = Some y" "unat (pc y) \<noteq> length (code y)" "time_left c = 0"
        "put_proc (procs K) (sched K) (proc c) = Inr (h, s)" "K' = K\<lparr>procs := h, sched := s\<rparr>" "c' = c\<lparr>cpc := Next_Get\<rparr>"
    | (resume) y where "procs K (proc c) = Some y" "unat (pc y) \<noteq> length (code y)" "time_left c \<noteq> 0" "K' = K" "c' = c\<lparr>cpc := Recheck\<rparr>"
proof -
  obtain y where y: "procs K (proc c) = Some y" using assms by (auto simp: cpu_routine_def rbind_Inr_iff deref_Inr_iff)
  consider "unat (pc y) = length (code y)" | "unat (pc y) \<noteq> length (code y)" "time_left c = 0"
    | "unat (pc y) \<noteq> length (code y)" "time_left c \<noteq> 0" by blast
  then show ?thesis
  proof cases
    case 1
    then obtain s where "finish_proc (sched K) (proc c) = Inr s" "K' = K\<lparr>sched := s, procs := (procs K)(proc c := None)\<rparr>"
        "c' = c\<lparr>time_left := 0, cpc := Next_Get\<rparr>"
      using assms y by (auto simp: cpu_routine_def rbind_Inr_iff)
    then show ?thesis by (rule ended [OF y 1])
  next
    case 2
    then obtain h s where "put_proc (procs K) (sched K) (proc c) = Inr (h, s)" "K' = K\<lparr>procs := h, sched := s\<rparr>"
        "c' = c\<lparr>cpc := Next_Get\<rparr>"
      using assms y by (auto simp: cpu_routine_def rbind_Inr_iff)
    then show ?thesis by (rule slice_over [OF y 2])
  next
    case 3
    then show ?thesis using assms y by (intro resume [OF y 3]) (simp_all add: cpu_routine_def)
  qed
qed

lemma cpu_recheck_cases:
  assumes st: "cpu_routine slots dn K c = Inr (K', c')" and c: "cpc c = Recheck"
  obtains (nobody) "proc c = NULL" "K' = K" "c' = c\<lparr>cpc := (if dn then Leave else Next_Slot)\<rparr>"
    | (begin_slice) "proc c \<noteq> NULL" "time_left c = 0" "K' = K" "c' = c\<lparr>time_left := slots, cpc := Exec\<rparr>"
    | (continue) "proc c \<noteq> NULL" "time_left c \<noteq> 0" "K' = K" "c' = c\<lparr>cpc := Exec\<rparr>"
proof -
  have k: "K' = K" "c' = (if proc c = NULL then c\<lparr>cpc := (if dn then Leave else Next_Slot)\<rparr>
      else if time_left c = 0 then c\<lparr>time_left := slots, cpc := Exec\<rparr> else c\<lparr>cpc := Exec\<rparr>)"
    using assms by (simp_all add: cpu_routine_def split: if_splits)
  consider "proc c = NULL" | "proc c \<noteq> NULL" "time_left c = 0" | "proc c \<noteq> NULL" "time_left c \<noteq> 0" by blast
  then show ?thesis
  proof cases
    case 1
    then show ?thesis using k by (intro nobody) simp_all
  next
    case 2
    then show ?thesis using k by (intro begin_slice) simp_all
  next
    case 3
    then show ?thesis using k by (intro continue) simp_all
  qed
qed

text \<open>The two calls of \<open>get_proc\<close>.\<close>

lemma cpu_get:
  assumes "cpu_routine slots dn K c = Inr (K', c')" and "cpc c = First_Get \<or> cpc c = Next_Get"
  obtains p s where "get_proc (procs K) (sched K) = Inr (p, s)" "K' = K\<lparr>sched := s\<rparr>"
    "c' = c\<lparr>proc := p, cpc := (if cpc c = First_Get \<and> p = NULL then Next_Slot else Recheck)\<rparr>"
  using assms by (auto simp: cpu_routine_def rbind_Inr_iff)

text \<open>The steps of the loader.\<close>

lemma ld_top_cases:
  assumes st: "ld_routine cf fs fresh x0 j s = Inr (Some s')" and l: "lpc (ld s) = Ld_Top"
  obtains (create) a x pd pr where "int (next_process (ld s)) < num_processes cf"
        "arr_get (ld_processes cf) (next_process (ld s)) = Inr a" "load x0 j (avail_pid s) (fs (path a)) = Inr (Some (x, pd))"
        "ld_prio a = Some pr"
        "s' = s\<lparr>kernel := (kernel s)\<lparr>procs := (procs (kernel s))(fresh \<mapsto> x\<lparr>krnl_mm := None, krnl_queues := False, prio := ucast pr\<rparr>)\<rparr>,
           avail_pid := pd, ld := (ld s)\<lparr>ld_proc := fresh, lpc := Ld_Wait\<rparr>\<rparr>"
    | (all) "num_processes cf \<le> int (next_process (ld s))" "s' = s\<lparr>all_loaded := True, ld := (ld s)\<lparr>lpc := Ld_Leave\<rparr>\<rparr>"
proof (cases "int (next_process (ld s)) < num_processes cf")
  case True
  then obtain a r where a: "arr_get (ld_processes cf) (next_process (ld s)) = Inr a" "load x0 j (avail_pid s) (fs (path a)) = Inr r"
    using assms by (auto simp: ld_routine_def Let_def rbind_Inr_iff)
  with assms True obtain x pd pr where "r = Some (x, pd)" "ld_prio a = Some pr"
    by (auto simp: ld_routine_def Let_def split: option.splits)
  with a assms True show ?thesis by (intro create [of a x pd pr]) (auto simp: ld_routine_def Let_def)
next
  case False
  then show ?thesis using assms by (intro all) (simp_all add: ld_routine_def Let_def)
qed

lemma ld_wait_cases:
  assumes st: "ld_routine cf fs fresh x0 j s = Inr (Some s')" and l: "lpc (ld s) = Ld_Wait"
  obtains (early) a t where "arr_get (ld_processes cf) (next_process (ld s)) = Inr a" "start_time a = Some t"
        "current_time (tm (bar s)) < t" "s' = s\<lparr>ld := (ld s)\<lparr>lpc := Ld_Wait_Slot\<rparr>\<rparr>"
    | (add) a t x h sc where "arr_get (ld_processes cf) (next_process (ld s)) = Inr a" "start_time a = Some t"
        "\<not> current_time (tm (bar s)) < t" "ld_proc (ld s) \<noteq> NULL" "procs (kernel s) (ld_proc (ld s)) = Some x"
        "add_proc ((procs (kernel s))(ld_proc (ld s) \<mapsto> x\<lparr>krnl_mm := Some init_mm\<rparr>)) (sched (kernel s)) (ld_proc (ld s)) = Inr (h, sc)"
        "s' = s\<lparr>kernel := (kernel s)\<lparr>procs := h, sched := sc\<rparr>,
           ld := (ld s)\<lparr>next_process := next_process (ld s) + 1, lpc := Ld_Slot\<rparr>\<rparr>"
proof -
  obtain a t where a: "arr_get (ld_processes cf) (next_process (ld s)) = Inr a" "start_time a = Some t"
    using assms by (auto simp: ld_routine_def Let_def rbind_Inr_iff split: option.splits)
  show ?thesis
  proof (cases "current_time (tm (bar s)) < t")
    case True
    then have "s' = s\<lparr>ld := (ld s)\<lparr>lpc := Ld_Wait_Slot\<rparr>\<rparr>" using assms a by (simp add: ld_routine_def Let_def)
    then show ?thesis by (rule early [OF a True])
  next
    case False
    then obtain x h sc where "ld_proc (ld s) \<noteq> NULL" "procs (kernel s) (ld_proc (ld s)) = Some x"
      "add_proc ((procs (kernel s))(ld_proc (ld s) \<mapsto> x\<lparr>krnl_mm := Some init_mm\<rparr>)) (sched (kernel s)) (ld_proc (ld s)) = Inr (h, sc)"
      "s' = s\<lparr>kernel := (kernel s)\<lparr>procs := h, sched := sc\<rparr>, ld := (ld s)\<lparr>next_process := next_process (ld s) + 1, lpc := Ld_Slot\<rparr>\<rparr>"
      using assms a by (auto simp: ld_routine_def Let_def rbind_Inr_iff deref_Inr_iff)
    then show ?thesis by (rule add [OF a False])
  qed
qed

lemma ld_other: "ld_routine cf fs fresh x0 j s = Inr (Some s') \<Longrightarrow> lpc (ld s) \<notin> {Ld_Top, Ld_Wait} \<Longrightarrow> s' = s"
  by (cases "lpc (ld s)") (simp_all add: ld_routine_def Let_def)

lemma ld_routine_bar:
  assumes st: "ld_routine cf fs fresh x0 j s = Inr (Some s')"
  shows "bar s' = bar s \<and> cpus s' = cpus s"
proof -
  consider "lpc (ld s) = Ld_Top" | "lpc (ld s) = Ld_Wait" | "lpc (ld s) \<notin> {Ld_Top, Ld_Wait}" by blast
  then show ?thesis
  proof cases
    case 1
    with st show ?thesis by (rule ld_top_cases) simp_all
  next
    case 2
    with st show ?thesis by (rule ld_wait_cases) simp_all
  qed (use ld_other [OF st] in simp)
qed

section \<open>Who has a process\<close>

text \<open>
  The invariant of the kernel, given the processes \<open>C\<close> that processors hold and the processes \<open>L\<close> that
  the loader holds: none is held twice or also queued, and only held processes are listed as running.
\<close>

definition block_ok :: "pcb_t \<Rightarrow> bool" where
  "block_ok x \<longleftrightarrow> length (regs x) = 10 \<and> length (code x) < 2 ^ 32 \<and> unat (pc x) \<le> length (code x)"

definition kern_inv :: "kern \<Rightarrow> ptr multiset \<Rightarrow> ptr multiset \<Rightarrow> bool" where
  "kern_inv K C L \<longleftrightarrow> sched_inv (procs K) (sched K) \<and> sys_inv (kern_mem K)
     \<and> (\<forall>p. count (all_ready (sched K) + C + L) p \<le> 1)
     \<and> mset (q_list (running_list (sched K))) \<subseteq># C
     \<and> (\<forall>p \<in># all_ready (sched K) + C. p \<noteq> NULL \<and> (\<exists>x m. procs K p = Some x \<and> block_ok x \<and> krnl_mm x = Some m))
     \<and> (\<forall>p \<in># L. p \<noteq> NULL \<and> (\<exists>x. procs K p = Some x \<and> block_ok x \<and> krnl_mm x = None))"

lemma kern_invD:
  assumes "kern_inv K C L"
  shows "sched_inv (procs K) (sched K)" "sys_inv (kern_mem K)" "count (all_ready (sched K) + C + L) p \<le> 1"
    "mset (q_list (running_list (sched K))) \<subseteq># C"
  using assms by (simp_all add: kern_inv_def)

lemma kern_inv_held:
  assumes "kern_inv K C L" and "p \<in># all_ready (sched K) + C"
  obtains x m where "p \<noteq> NULL" "procs K p = Some x" "block_ok x" "krnl_mm x = Some m"
  using assms unfolding kern_inv_def by blast

lemma count_once:
  assumes "\<forall>q. count (A + add_mset p C + L) q \<le> 1"
  shows "p \<notin># A" "p \<notin># C" "p \<notin># L"
  using assms [THEN spec, of p] by (simp_all add: not_in_iff)

lemma get_total: "sched_inv h s \<Longrightarrow> \<exists>p s'. get_proc h s = Inr (p, s')"
  using get_none [of s h] get_some [of h s]
  by (cases "first_level s") (auto simp: sched_inv_def cursor_ok_def get_proc_def elim!: returnsE)

lemma get_kern:
  assumes inv: "kern_inv K C L"
  shows "returns (get_proc (procs K) (sched K)) (\<lambda>(p, s). kern_inv (K\<lparr>sched := s\<rparr>) (if p = NULL then C else add_mset p C) L)"
proof -
  note k = kern_invD [OF inv]
  have m: "kern_mem (K\<lparr>sched := s\<rparr>) = kern_mem K" for s by (simp add: kern_mem_def)
  obtain p s' where g: "get_proc (procs K) (sched K) = Inr (p, s')" using get_total [OF k(1)] by blast
  from k(1) g show ?thesis
  proof (cases rule: got_cases)
    case none
    then have "kern_inv (K\<lparr>sched := s'\<rparr>) C L"
      using inv none_inv [OF k(1)] by (simp add: kern_inv_def m all_ready_def)
    then show ?thesis using g none(1) by simp
  next
    case (some q)
    have sv: "sched_inv (procs K) s'" "all_ready (sched K) = add_mset p (all_ready s')"
      using served_inv [OF k(1) some(4)] by simp_all
    have r: "mset (q_list (running_list s')) \<subseteq># add_mset p C"
    proof -
      have "mset (q_list (running_list (sched K))) \<subseteq># add_mset p C"
        using k(4) by (rule subset_mset.order_trans) simp
      then show ?thesis using some(4) k(4) by (auto simp: served_def Let_def)
    qed
    have "kern_inv (K\<lparr>sched := s'\<rparr>) (add_mset p C) L"
      using inv sv r by (simp add: kern_inv_def m)
    then show ?thesis using g some(1) by simp
  qed
qed


lemma put_kern:
  assumes inv: "kern_inv K (add_mset p C) L"
  shows "returns (put_proc (procs K) (sched K) p) (\<lambda>(h, s). kern_inv (K\<lparr>procs := h, sched := s\<rparr>) C L)"
proof -
  note k = kern_invD [OF inv]
  have once: "\<forall>q. count (all_ready (sched K) + add_mset p C + L) q \<le> 1" using inv by (simp add: kern_inv_def)
  obtain x m where x: "p \<noteq> NULL" "procs K p = Some x" "block_ok x" "krnl_mm x = Some m"
    by (rule kern_inv_held [OF inv, of p]) simp
  have h: "procs K p \<noteq> None" using x(2) by simp
  obtain s' where s': "put_proc (procs K) (sched K) p = Inr ((procs K)(p \<mapsto> admit_block x), s')"
      "sched_inv ((procs K)(p \<mapsto> admit_block x)) s'"
      "q_list (running_list s') = remove1 p (q_list (running_list (sched K)))"
      "level s' = (level (sched K))(level_of (procs K) p := appended (level (sched K) (level_of (procs K) p)) p)"
    using put_returns [OF k(1) x(1) h] x(2) by (auto elim!: returnsE)
  let ?K = "K\<lparr>procs := (procs K)(p \<mapsto> admit_block x), sched := s'\<rparr>"
  have rdy: "all_ready s' \<subseteq># add_mset p (all_ready (sched K))"
    using all_ready_appended [OF s'(4) level_of_less] by (auto split: if_splits)
  have "kern_mem ?K = kern_mem K" using x by (auto simp: kern_mem_def fun_eq_iff)
  moreover have "count (all_ready s' + C + L) q \<le> 1" for q
    using once [THEN spec, of q] mset_subset_eq_count [OF rdy, of q] by (auto split: if_splits)
  moreover have "mset (q_list (running_list s')) \<subseteq># C"
    using k(4) by (simp add: s'(3) subset_eq_diff_conv)
  moreover have "p' \<noteq> NULL \<and> (\<exists>x m. procs ?K p' = Some x \<and> block_ok x \<and> krnl_mm x = Some m)"
    if p': "p' \<in># all_ready s' + C" for p'
  proof -
    have "p' \<in># all_ready (sched K) + add_mset p C" using p' mset_subset_eqD [OF rdy] by auto
    then obtain y n where "p' \<noteq> NULL" "procs K p' = Some y" "block_ok y" "krnl_mm y = Some n"
      by (rule kern_inv_held [OF inv])
    then show ?thesis using x by (cases "p' = p") (auto simp: block_ok_def)
  qed
  moreover have "p' \<noteq> NULL \<and> (\<exists>x. procs ?K p' = Some x \<and> block_ok x \<and> krnl_mm x = None)" if "p' \<in># L" for p'
    using inv that count_once(3) [OF once] by (auto simp: kern_inv_def)
  ultimately have "kern_inv ?K C L" using s'(2) k(2) by (simp add: kern_inv_def)
  then show ?thesis using s'(1) by simp
qed

lemma finish_kern:
  assumes inv: "kern_inv K (add_mset p C) L"
  shows "returns (finish_proc (sched K) p) (\<lambda>s. kern_inv (K\<lparr>sched := s, procs := (procs K)(p := None)\<rparr>) C L)"
proof -
  note k = kern_invD [OF inv]
  have once: "\<forall>q. count (all_ready (sched K) + add_mset p C + L) q \<le> 1" using inv by (simp add: kern_inv_def)
  note no = count_once [OF once]
  obtain x m where x: "p \<noteq> NULL" "procs K p = Some x" "block_ok x" "krnl_mm x = Some m"
    by (rule kern_inv_held [OF inv, of p]) simp
  obtain s' where s': "finish_proc (sched K) p = Inr s'" "sched_inv (procs K) s'"
      "q_list (running_list s') = remove1 p (q_list (running_list (sched K)))" "level s' = level (sched K)"
    using finish_returns [OF k(1) x(1)] by (auto elim!: returnsE)
  let ?K = "K\<lparr>sched := s', procs := (procs K)(p := None)\<rparr>"
  have rdy: "all_ready s' = all_ready (sched K)" using s'(4) by (simp add: all_ready_def)
  have run: "mset (q_list (running_list s')) \<subseteq># C"
    using k(4) by (simp add: s'(3) subset_eq_diff_conv)
  have "kern_mem ?K = (kern_mem K)\<lparr>mms := (mms (kern_mem K))(p := None)\<rparr>" by (auto simp: kern_mem_def fun_eq_iff)
  then have "sys_inv (kern_mem ?K)" using exit_step [OF k(2)] by simp
  moreover have "sched_inv (procs ?K) s'" using s'(2)
  proof (rule sched_inv_heap)
    fix p' y assume p': "p' \<in># all_ready s' \<or> p' \<in> set (q_list (running_list s'))" and y: "procs K p' = Some y"
    then have "p' \<noteq> p" using no rdy mset_subset_eqD [OF run] by auto
    then show "\<exists>z. procs ?K p' = Some z \<and> prio z = prio y" using y by simp
  qed
  moreover have "count (all_ready s' + C + L) q \<le> 1" for q
    using once [THEN spec, of q] rdy by (auto split: if_splits)
  moreover have "p' \<noteq> NULL \<and> (\<exists>x m. procs ?K p' = Some x \<and> block_ok x \<and> krnl_mm x = Some m)"
    if p': "p' \<in># all_ready s' + C" for p'
  proof -
    have "p' \<noteq> p" using p' no rdy by auto
    moreover obtain y n where "p' \<noteq> NULL" "procs K p' = Some y" "block_ok y" "krnl_mm y = Some n"
      by (rule kern_inv_held [OF inv, of p']) (use p' rdy in auto)
    ultimately show ?thesis by auto
  qed
  moreover have "p' \<noteq> NULL \<and> (\<exists>x. procs ?K p' = Some x \<and> block_ok x \<and> krnl_mm x = None)" if "p' \<in># L" for p'
    using inv that no(3) by (auto simp: kern_inv_def)
  ultimately have "kern_inv ?K C L" using run by (simp add: kern_inv_def)
  then show ?thesis using s'(1) by simp
qed


text \<open>An instruction of a held process.\<close>

lemma run_kern:
  assumes inv: "kern_inv K C L" and p: "p \<in># C" "procs K p = Some x"
    and ok: "unat (pc x) < length (code x) \<longrightarrow> inst_ok x (code x ! unat (pc x))"
  shows "returns (run K p) (\<lambda>(_, K'). kern_inv K' C L \<and> only_touched K p (x\<lparr>pc := (if unat (pc x) < length (code x) then pc x + 1 else pc x)\<rparr>) K')"
proof -
  note k = kern_invD [OF inv]
  obtain m where x: "p \<noteq> NULL" "block_ok x" "krnl_mm x = Some m"
    using kern_inv_held [OF inv, of p] p by auto
  define y where "y = x\<lparr>pc := (if unat (pc x) < length (code x) then pc x + 1 else pc x)\<rparr>"
  obtain r K' where r: "run K p = Inr (r, K')" "only_touched K p y K'"
    using run_touched [OF k(2) p(2) x(1,3)] ok x(2) by (auto simp: block_ok_def y_def elim!: returnsE)
  have pcx: "unat (pc x + 1) = unat (pc x) + 1" if "unat (pc x) < length (code x)"
    using that x(2) by (simp add: unat_word_ariths block_ok_def)
  have y: "block_ok y" "prio y = prio x" using x(2) pcx by (simp_all add: block_ok_def y_def)
  obtain rs n where "procs K' p = Some (y\<lparr>regs := rs, krnl_mm := Some n\<rparr>)" "length rs = length (regs y)"
    using r(2) by (auto simp: only_touched_def)
  then obtain z where z: "procs K' p = Some z" "block_ok z" "prio z = prio x" "krnl_mm z = Some n"
    using y by (simp add: block_ok_def)
  have other: "procs K' q = procs K q" if "q \<noteq> p" for q using r(2) that by (simp add: only_touched_def)
  have s: "sched K' = sched K" and m: "sys_inv (kern_mem K')" using r(2) by (simp_all add: only_touched_def)
  have "sched_inv (procs K') (sched K)" using k(1)
  proof (rule sched_inv_heap)
    fix q w assume w: "procs K q = Some w"
    show "\<exists>v. procs K' q = Some v \<and> prio v = prio w"
    proof (cases "q = p")
      case True
      then show ?thesis using z w p(2) by simp
    qed (use other w in simp)
  qed
  moreover have "p' \<noteq> NULL \<and> (\<exists>x m. procs K' p' = Some x \<and> block_ok x \<and> krnl_mm x = Some m)"
    if p': "p' \<in># all_ready (sched K) + C" for p'
  proof (cases "p' = p")
    case True
    then show ?thesis using z x(1) by simp
  next
    case False
    obtain w l where "p' \<noteq> NULL" "procs K p' = Some w" "block_ok w" "krnl_mm w = Some l"
      by (rule kern_inv_held [OF inv p'])
    then show ?thesis using other [OF False] by simp
  qed
  moreover have "p' \<noteq> NULL \<and> (\<exists>x. procs K' p' = Some x \<and> block_ok x \<and> krnl_mm x = None)" if p': "p' \<in># L" for p'
  proof -
    obtain w where w: "p' \<noteq> NULL" "procs K p' = Some w" "block_ok w" "krnl_mm w = None"
      using inv p' by (auto simp: kern_inv_def)
    then have "p' \<noteq> p" using p(2) x(3) by auto
    then show ?thesis using w other by simp
  qed
  ultimately have "kern_inv K' C L" using inv m s by (simp add: kern_inv_def)
  then show ?thesis using r by (simp add: y_def)
qed

text \<open>The loader's two actions.\<close>

lemma create_kern:
  assumes inv: "kern_inv K C {#}" and p: "p \<noteq> NULL" "procs K p = None" and x: "block_ok x" "krnl_mm x = None"
  shows "kern_inv (K\<lparr>procs := (procs K)(p \<mapsto> x)\<rparr>) C {#p#}"
proof -
  note k = kern_invD [OF inv]
  have no: "p \<notin># all_ready (sched K) + C"
  proof
    assume "p \<in># all_ready (sched K) + C"
    then obtain y where "procs K p = Some y" by (rule kern_inv_held [OF inv])
    then show False using p(2) by simp
  qed
  have "kern_mem (K\<lparr>procs := (procs K)(p \<mapsto> x)\<rparr>) = kern_mem K" using p(2) x(2) by (auto simp: kern_mem_def fun_eq_iff)
  moreover have "sched_inv ((procs K)(p \<mapsto> x)) (sched K)"
    by (rule sched_inv_heap [OF k(1)]) (use p(2) in auto)
  moreover have "count (all_ready (sched K) + C + {#p#}) q \<le> 1" for q
    using k(3) [of q] no by (auto simp: not_in_iff)
  moreover have "p' \<noteq> NULL \<and> (\<exists>y m. ((procs K)(p \<mapsto> x)) p' = Some y \<and> block_ok y \<and> krnl_mm y = Some m)"
    if p': "p' \<in># all_ready (sched K) + C" for p'
  proof -
    have "p' \<noteq> p" using p' no by auto
    moreover obtain y m where "p' \<noteq> NULL" "procs K p' = Some y" "block_ok y" "krnl_mm y = Some m"
      by (rule kern_inv_held [OF inv p'])
    ultimately show ?thesis by simp
  qed
  ultimately show ?thesis using k p(1) x by (simp add: kern_inv_def)
qed

lemma add_kern:
  assumes inv: "kern_inv K C {#p#}" and x: "procs K p = Some x"
  shows "returns (add_proc ((procs K)(p \<mapsto> x\<lparr>krnl_mm := Some init_mm\<rparr>)) (sched K) p)
    (\<lambda>(h, s). kern_inv (K\<lparr>procs := h, sched := s\<rparr>) C {#})"
proof -
  note k = kern_invD [OF inv]
  have p: "p \<noteq> NULL" "block_ok x" "krnl_mm x = None" using inv x by (auto simp: kern_inv_def)
  have no: "p \<notin># all_ready (sched K)" "p \<notin># C" using k(3) [of p] by (simp_all add: not_in_iff)
  define y where "y = x\<lparr>krnl_mm := Some init_mm\<rparr>"
  define h where "h = (procs K)(p \<mapsto> y)"
  have h: "sched_inv h (sched K)" by (rule sched_inv_heap [OF k(1)]) (use x in \<open>auto simp: h_def y_def\<close>)
  have hp: "h p = Some y" by (simp add: h_def)
  obtain s' where s': "add_proc h (sched K) p = Inr (h(p \<mapsto> admit_block y), s')"
      "sched_inv (h(p \<mapsto> admit_block y)) s'" "running_list s' = running_list (sched K)"
      "level s' = (level (sched K))(level_of h p := appended (level (sched K) (level_of h p)) p)"
    using add_returns [OF h p(1)] hp by (auto elim!: returnsE)
  let ?K = "K\<lparr>procs := h(p \<mapsto> admit_block y), sched := s'\<rparr>"
  have rdy: "all_ready s' \<subseteq># add_mset p (all_ready (sched K))"
    using all_ready_appended [OF s'(4) level_of_less] by (auto split: if_splits)
  have "kern_mem ?K = (kern_mem K)\<lparr>mms := (mms (kern_mem K))(p \<mapsto> init_mm)\<rparr>"
    by (auto simp: kern_mem_def fun_eq_iff h_def y_def)
  then have "sys_inv (kern_mem ?K)" using new_step [OF k(2)] by simp
  moreover have "count (all_ready s' + C) q \<le> 1" for q
    using k(3) [of q] mset_subset_eq_count [OF rdy, of q] by (auto split: if_splits)
  moreover have "p' \<noteq> NULL \<and> (\<exists>x m. procs ?K p' = Some x \<and> block_ok x \<and> krnl_mm x = Some m)"
    if p': "p' \<in># all_ready s' + C" for p'
  proof (cases "p' = p")
    case True
    then show ?thesis using p(1,2) by (auto simp: block_ok_def y_def)
  next
    case False
    then have "p' \<in># all_ready (sched K) + C" using p' mset_subset_eqD [OF rdy] by auto
    then obtain z n where "p' \<noteq> NULL" "procs K p' = Some z" "block_ok z" "krnl_mm z = Some n"
      by (rule kern_inv_held [OF inv])
    then show ?thesis using False by (simp add: h_def)
  qed
  ultimately have "kern_inv ?K C {#}" using s'(2,3) k(4) by (simp add: kern_inv_def)
  then show ?thesis using s'(1) unfolding h_def y_def by simp
qed


section \<open>The invariant of the simulator\<close>

text \<open>The process a thread holds. At \<open>Next_Get\<close> the processor has given its process away.\<close>

definition holds :: "cpu \<Rightarrow> ptr multiset" where
  "holds c = (if proc c \<noteq> NULL \<and> cpc c \<noteq> Next_Get then {# proc c #} else {#})"

definition cpus_hold :: "cpu list \<Rightarrow> ptr multiset" where
  "cpus_hold cs = sum_list (map holds cs)"

definition ld_holds :: "loader \<Rightarrow> ptr multiset" where
  "ld_holds l = (if lpc l \<in> {Ld_Wait, Ld_Wait_Slot} then {# ld_proc l #} else {#})"

definition cpu_ok :: "cpu \<Rightarrow> bool" where
  "cpu_ok c \<longleftrightarrow> (cpc c = Exec \<longrightarrow> proc c \<noteq> NULL) \<and> (cpc c \<in> {First_Get, Leave, Stopped} \<longrightarrow> proc c = NULL)"

text \<open>A time slice is left over only while its process is held.\<close>

definition slice_ok :: "int \<Rightarrow> cpu \<Rightarrow> bool" where
  "slice_ok slots c \<longleftrightarrow> 0 \<le> time_left c \<and> time_left c \<le> slots \<and> (cpc c = Exec \<longrightarrow> 0 < time_left c)
     \<and> (holds c = {#} \<longrightarrow> time_left c = 0)"

definition os_inv :: "config \<Rightarrow> os \<Rightarrow> bool" where
  "os_inv cf s \<longleftrightarrow> kern_inv (kernel s) (cpus_hold (cpus s)) (ld_holds (ld s))
     \<and> (\<forall>c \<in> set (cpus s). cpu_ok c \<and> (0 < time_slot cf \<longrightarrow> slice_ok (time_slot cf) c))"

lemma cpus_hold_split:
  assumes "i < length cs"
  obtains R where "cpus_hold cs = holds (cs ! i) + R" "\<And>c. cpus_hold (cs[i := c]) = holds c + R"
proof
  let ?R = "cpus_hold (take i cs) + cpus_hold (drop (Suc i) cs)"
  show "cpus_hold cs = holds (cs ! i) + ?R"
    by (subst id_take_nth_drop [OF assms]) (simp add: cpus_hold_def)
  show "cpus_hold (cs[i := c]) = holds c + ?R" for c
    using assms by (simp add: upd_conv_take_nth_drop cpus_hold_def)
qed

lemma os_inv_cpu:
  assumes inv: "os_inv cf s" and i: "i < length (cpus s)"
    and st: "\<And>R. kern_inv (kernel s) (holds (cpus s ! i) + R) (ld_holds (ld s)) \<Longrightarrow> kern_inv K (holds c + R) (ld_holds (ld s))"
    and c: "cpu_ok c" "0 < time_slot cf \<Longrightarrow> slice_ok (time_slot cf) c"
  shows "os_inv cf (s\<lparr>kernel := K, cpus := (cpus s)[i := c]\<rparr>)"
proof -
  obtain R where R: "cpus_hold (cpus s) = holds (cpus s ! i) + R" "\<And>c. cpus_hold ((cpus s)[i := c]) = holds c + R"
    using cpus_hold_split [OF i] by blast
  have "kern_inv K (cpus_hold ((cpus s)[i := c])) (ld_holds (ld s))"
    using inv st [of R] by (simp add: os_inv_def R)
  moreover have "cpu_ok d \<and> (0 < time_slot cf \<longrightarrow> slice_ok (time_slot cf) d)" if "d \<in> set ((cpus s)[i := c])" for d
    using that set_update_subset_insert [of "cpus s" i c] inv c by (auto simp: os_inv_def)
  ultimately show ?thesis by (simp add: os_inv_def)
qed

text \<open>One step of a processor has no fault, and neither the processor nor the kernel loses its invariant.\<close>

lemma cpu_routine_inv:
  assumes inv: "kern_inv K (holds c + R) L" and c: "cpu_ok c"
    and ok: "cpc c = Exec \<Longrightarrow> procs K (proc c) = Some x \<Longrightarrow> unat (pc x) < length (code x) \<longrightarrow> inst_ok x (code x ! unat (pc x))"
      "procs K (proc c) = Some x \<or> cpc c \<noteq> Exec"
  shows "returns (cpu_routine slots dn K c) (\<lambda>(K', c'). kern_inv K' (holds c' + R) L \<and> cpu_ok c'
    \<and> (0 < slots \<longrightarrow> slice_ok slots c \<longrightarrow> slice_ok slots c'))"
proof (cases "cpc c")
  case Top
  show ?thesis
  proof (cases "proc c = NULL")
    case True
    then show ?thesis using inv c Top by (simp add: cpu_routine_def holds_def cpu_ok_def slice_ok_def)
  next
    case False
    then have h: "holds c = {# proc c #}" using Top by (simp add: holds_def)
    have inv': "kern_inv K (add_mset (proc c) R) L" using inv h by simp
    obtain y m where y: "procs K (proc c) = Some y" by (rule kern_inv_held [OF inv', of "proc c"]) auto
    consider "unat (pc y) = length (code y)" | "unat (pc y) \<noteq> length (code y)" "time_left c = 0"
      | "unat (pc y) \<noteq> length (code y)" "time_left c \<noteq> 0" by blast
    then show ?thesis
    proof cases
      case 1
      then show ?thesis using finish_kern [OF inv'] False y Top
        by (auto simp: cpu_routine_def holds_def cpu_ok_def slice_ok_def elim!: returns_mono)
    next
      case 2
      then show ?thesis using put_kern [OF inv'] False y Top
        by (auto simp: cpu_routine_def holds_def cpu_ok_def slice_ok_def elim!: returns_mono)
    next
      case 3
      then show ?thesis using inv False y Top
        by (simp add: cpu_routine_def holds_def cpu_ok_def slice_ok_def)
    qed
  qed
next
  case First_Get
  then have "kern_inv K R L" using inv c by (simp add: holds_def cpu_ok_def)
  from get_kern [OF this] show ?thesis using First_Get c
    by (auto simp: cpu_routine_def holds_def cpu_ok_def slice_ok_def elim!: returns_mono)
next
  case Next_Get
  then have "kern_inv K R L" using inv by (simp add: holds_def)
  from get_kern [OF this] show ?thesis using Next_Get
    by (auto simp: cpu_routine_def holds_def cpu_ok_def slice_ok_def elim!: returns_mono)
next
  case Recheck
  then show ?thesis using inv c by (auto simp: cpu_routine_def holds_def cpu_ok_def slice_ok_def)
next
  case Exec
  then have p: "proc c \<noteq> NULL" and x: "procs K (proc c) = Some x" using c ok(2) by (simp_all add: cpu_ok_def)
  have "proc c \<in># holds c + R" using p Exec by (simp add: holds_def)
  from run_kern [OF inv this x ok(1) [OF Exec x]] show ?thesis using Exec p
    by (auto simp: cpu_routine_def holds_def cpu_ok_def slice_ok_def elim!: returnsE)
qed (use inv c in \<open>simp_all add: cpu_routine_def\<close>)


lemma load_loop_length: "load_loop j n i ob b f = Inr (Some t) \<Longrightarrow> length t = n"
proof (induction n arbitrary: i ob b f t)
  case (Suc n)
  obtain w g where w: "scan_word 10 f = Inr (w, g)" using Suc.prems by (auto simp: rbind_Inr_iff)
  then obtain opt where opt: "(if w = None then ob else w) = Some opt"
    using Suc.prems by (auto simp: Let_def split: option.splits)
  then obtain op where op: "get_opcode opt = Some op"
    using Suc.prems w by (auto simp: Let_def split: option.splits)
  then obtain ins b' g' r where "load_loop j n (i + 1) (Some opt) b' g' = Inr r" "map_option (Cons ins) r = Some t"
    using Suc.prems w opt by (auto simp: Let_def rbind_Inr_iff)
  then show ?case using Suc.IH by auto
qed simp

lemma load_block:
  assumes "load x0 j pd f = Inr (Some (x, pd'))" and "length (regs x0) = 10"
  shows "block_ok x"
proof -
  obtain s and ws :: "u32 list" and u where ws: "scan_nums to_unsigned 2 s = Inr (ws, u)" "f = Some s"
    using assms(1) by (auto simp: load_def Let_def rbind_Inr_iff split: option.splits)
  then obtain pr sz where sz: "ws = [pr, sz]"
    using assms(1) by (auto simp: load_def Let_def split: list.splits)
  then obtain t where t: "load_loop j (unat sz) 0 None None u = Inr (Some t)"
      "x = x0\<lparr>pid := pd, bp := 1024, pc := 0, priority := pr, code := t\<rparr>"
    using assms(1) ws by (auto simp: load_def Let_def rbind_Inr_iff)
  moreover have "unat sz < 2 ^ 32" using unsigned_less [of sz] by simp
  ultimately show ?thesis using assms(2) load_loop_length [OF t(1)] by (simp add: block_ok_def)
qed

lemma ld_routine_inv:
  assumes inv: "kern_inv (kernel s) C (ld_holds (ld s))" and fresh: "fresh \<noteq> NULL" "procs (kernel s) fresh = None"
    and x0: "length (regs x0) = 10" and st: "ld_routine cf fs fresh x0 j s = Inr (Some s')"
  shows "kern_inv (kernel s') C (ld_holds (ld s')) \<and> cpus s' = cpus s"
proof -
  note b = ld_routine_bar [OF st]
  consider "lpc (ld s) = Ld_Top" | "lpc (ld s) = Ld_Wait" | "lpc (ld s) \<notin> {Ld_Top, Ld_Wait}" by blast
  then show ?thesis
  proof cases
    case 1
    with st show ?thesis
    proof (cases rule: ld_top_cases)
      case (create a x pd pr)
      have "block_ok (x\<lparr>krnl_mm := None, krnl_queues := False, prio := ucast pr\<rparr>)"
        using load_block [OF create(3) x0] by (simp add: block_ok_def)
      moreover have "kern_inv (kernel s) C {#}" using inv 1 by (simp add: ld_holds_def)
      ultimately show ?thesis using create_kern [OF _ fresh] by (simp add: create(5) ld_holds_def)
    qed (use inv 1 in \<open>simp add: ld_holds_def\<close>)
  next
    case 2
    with st show ?thesis
    proof (cases rule: ld_wait_cases)
      case (add a t x h sc)
      have "kern_inv (kernel s) C {# ld_proc (ld s) #}" using inv 2 by (simp add: ld_holds_def)
      from add_kern [OF this add(5)] add(6) have "kern_inv ((kernel s)\<lparr>procs := h, sched := sc\<rparr>) C {#}" by simp
      then show ?thesis by (simp add: add(7) ld_holds_def)
    qed (use inv 2 in \<open>simp add: ld_holds_def\<close>)
  qed (use ld_other [OF st] inv in simp)
qed

text \<open>The instructions of a run for which the promise is made: those of \<open>inst_ok\<close>, with its three limits.\<close>

fun event_ok :: "os_event \<Rightarrow> bool" where
  "event_ok (Cpu_Run i x) = (unat (pc x) < length (code x) \<longrightarrow> inst_ok x (code x ! unat (pc x)))"
| "event_ok _ = True"

lemma os_inv_bar [simp]: "os_inv cf (s\<lparr>bar := b\<rparr>) = os_inv cf s"
  by (simp add: os_inv_def)

lemma os_inv_resumed: "os_inv cf s \<Longrightarrow> at_slot s i \<Longrightarrow> os_inv cf (resumed s i)"
proof (cases "i < length (cpus s)")
  case True
  assume inv: "os_inv cf s" and "at_slot s i"
  then have pc: "cpc (cpus s ! i) = Next_Slot" using True by (simp add: at_slot_def)
  have ok: "cpu_ok (cpus s ! i)" "0 < time_slot cf \<longrightarrow> slice_ok (time_slot cf) (cpus s ! i)"
    using inv True by (simp_all add: os_inv_def)
  let ?c = "(cpus s ! i)\<lparr>cpc := Top\<rparr>"
  have h: "holds ?c = holds (cpus s ! i)" using pc by (simp add: holds_def)
  have "os_inv cf (s\<lparr>kernel := kernel s, cpus := (cpus s)[i := ?c]\<rparr>)"
    by (rule os_inv_cpu [OF inv True]) (use ok h pc in \<open>simp_all add: cpu_ok_def slice_ok_def\<close>)
  then show ?thesis using True by (simp add: resumed_def)
qed (auto simp: os_inv_def resumed_def at_slot_def ld_holds_def)

lemma os_inv_stopped: "os_inv cf s \<Longrightarrow> at_end s i \<Longrightarrow> os_inv cf (stopped s i)"
proof (cases "i < length (cpus s)")
  case True
  assume inv: "os_inv cf s" and "at_end s i"
  then have pc: "cpc (cpus s ! i) = Leave" using True by (simp add: at_end_def)
  have ok: "cpu_ok (cpus s ! i)" "0 < time_slot cf \<longrightarrow> slice_ok (time_slot cf) (cpus s ! i)"
    using inv True by (simp_all add: os_inv_def)
  let ?c = "(cpus s ! i)\<lparr>cpc := Stopped\<rparr>"
  have h: "holds ?c = holds (cpus s ! i)" using pc by (simp add: holds_def)
  have "os_inv cf (s\<lparr>kernel := kernel s, cpus := (cpus s)[i := ?c]\<rparr>)"
    by (rule os_inv_cpu [OF inv True]) (use ok h pc in \<open>simp_all add: cpu_ok_def slice_ok_def\<close>)
  then show ?thesis using True by (simp add: stopped_def)
qed (auto simp: os_inv_def stopped_def at_end_def ld_holds_def)

lemma os_step_cpu_inv:
  assumes inv: "os_inv cf s" and i: "i < length (cpus s)"
    and st: "cpu_routine (time_slot cf) dn (kernel s) (cpus s ! i) = Inr (K, c)"
    and ok: "cpc (cpus s ! i) = Exec \<Longrightarrow> procs (kernel s) (proc (cpus s ! i)) = Some x \<and> event_ok (Cpu_Run i x)"
  shows "os_inv cf (s\<lparr>kernel := K, cpus := (cpus s)[i := c]\<rparr>)"
proof -
  have c0: "cpu_ok (cpus s ! i)" "0 < time_slot cf \<longrightarrow> slice_ok (time_slot cf) (cpus s ! i)"
    using inv i by (simp_all add: os_inv_def)
  have r: "kern_inv K (holds c + R) (ld_holds (ld s)) \<and> cpu_ok c
      \<and> (0 < time_slot cf \<longrightarrow> slice_ok (time_slot cf) (cpus s ! i) \<longrightarrow> slice_ok (time_slot cf) c)"
    if "kern_inv (kernel s) (holds (cpus s ! i) + R) (ld_holds (ld s))" for R
    using cpu_routine_inv [OF that c0(1), of x "time_slot cf" dn] ok st by (cases "cpc (cpus s ! i) = Exec") auto
  obtain R where "cpus_hold (cpus s) = holds (cpus s ! i) + R" using cpus_hold_split [OF i] by blast
  then have "kern_inv (kernel s) (holds (cpus s ! i) + R) (ld_holds (ld s))" using inv by (simp add: os_inv_def)
  from r [OF this] have "cpu_ok c" "0 < time_slot cf \<Longrightarrow> slice_ok (time_slot cf) c" using c0(2) by simp_all
  then show ?thesis using r by (intro os_inv_cpu [OF inv i]) simp_all
qed

lemma os_step_inv:
  assumes st: "os_step cf fs s e s'" and inv: "os_inv cf s" and ok: "event_ok e"
  shows "os_inv cf s'"
  using st
proof cases
  case (cpu i K c)
  then show ?thesis using os_step_cpu_inv [OF inv cpu(3,5)] by auto
next
  case (exec i x K c)
  then show ?thesis using os_step_cpu_inv [OF inv exec(3,6), of x] ok by simp
next
  case (load fresh x0 j)
  have "kern_inv (kernel s) (cpus_hold (cpus s)) (ld_holds (ld s))" using inv by (simp add: os_inv_def)
  from ld_routine_inv [OF this load(3-6)] inv show ?thesis by (simp add: os_inv_def)
qed (use inv os_inv_resumed os_inv_stopped in simp_all)


section \<open>Runs of the simulator\<close>

text \<open>The sizes of the devices for which the promises are made: what page table entries can address.\<close>

definition sizes_ok :: "config \<Rightarrow> bool" where
  "sizes_ok cf \<longleftrightarrow> 512 \<le> unat (memramsz cf) \<and> unat (memramsz cf) \<le> 2097152
     \<and> 512 \<le> unat (memswpsz cf ! 0) \<and> unat (memswpsz cf ! 0) \<le> 536870912"

lemma boot_inv:
  assumes "sizes_ok cf"
  shows "os_inv cf (boot cf)"
proof -
  let ?K = "kernel (boot cf)"
  have dev: "mem_wf (kram ?K)" "mem_wf (kswp ?K)" "nframes (kram ?K) \<le> 8192" "nframes (kswp ?K) \<le> 2097152"
    using init_memphy_ok [of "memramsz cf" uninit_memphy True] init_memphy_ok [of "memswpsz cf ! 0" uninit_memphy True] assms
      div_le_mono [of "unat (memramsz cf)" 2097152 256] div_le_mono [of "unat (memswpsz cf ! 0)" 536870912 256]
    by (simp_all add: boot_def sizes_ok_def nframes_def)
  then have "sys_inv (kern_mem ?K)" by (simp add: sys_inv_def kern_mem_def boot_def)
  moreover have q: "level (sched ?K) l = []" if "l < MAX_PRIO" for l
    using that by (simp add: level_def boot_def init_scheduler_def static_sched_def q_list_def)
  then have "all_ready (sched ?K) = {#}" by (simp add: all_ready_empty)
  moreover have "q_list (running_list (sched ?K)) = []" by (simp add: boot_def init_scheduler_def q_list_def)
  moreover have "sched_inv (procs ?K) (sched ?K)" using sched_inv_init by (simp add: boot_def)
  ultimately have "kern_inv ?K {#} {#}" by (simp add: kern_inv_def)
  moreover have "sum_list (replicate n {#}) = {#}" for n by (induction n) simp_all
  then have "cpus_hold (cpus (boot cf)) = {#}" by (simp add: boot_def cpus_hold_def cpu_start_def holds_def)
  moreover have "ld_holds (ld (boot cf)) = {#}" by (simp add: boot_def loader_start_def ld_holds_def)
  moreover have "cpu_ok cpu_start" "0 < time_slot cf \<Longrightarrow> slice_ok (time_slot cf) cpu_start"
    by (simp_all add: cpu_ok_def slice_ok_def cpu_start_def)
  then have "cpu_ok c \<and> (0 < time_slot cf \<longrightarrow> slice_ok (time_slot cf) c)" if "c \<in> set (cpus (boot cf))" for c
    using that by (simp add: boot_def)
  ultimately show ?thesis by (simp add: os_inv_def)
qed

lemma os_run_inv: "os_run cf fs s es s' \<Longrightarrow> os_inv cf s \<Longrightarrow> \<forall>e \<in> set es. event_ok e \<Longrightarrow> os_inv cf s'"
  by (induction rule: os_run.induct) (auto intro: os_step_inv)

text \<open>Two processors, or a processor and a queue, never have the same process.\<close>

lemma held_once:
  assumes "kern_inv K (cpus_hold cs) L" and "i < length cs" and "p \<in># holds (cs ! i)"
  shows "p \<notin># all_ready (sched K)" and "p \<notin># L" and "j < length cs \<Longrightarrow> p \<in># holds (cs ! j) \<Longrightarrow> j = i"
proof -
  obtain R where R: "cpus_hold cs = holds (cs ! i) + R" "\<And>c. cpus_hold (cs[i := c]) = holds c + R"
    using cpus_hold_split [OF assms(2)] by blast
  have n: "count (all_ready (sched K)) p + count (holds (cs ! i)) p + count R p + count L p \<le> 1"
    using kern_invD(3) [OF assms(1), of p] by (simp add: R(1))
  have one: "1 \<le> count (holds (cs ! i)) p" using assms(3) count_greater_eq_one_iff [of "holds (cs ! i)" p] by blast
  have zero: "count (all_ready (sched K)) p = 0" "count R p = 0" "count L p = 0" using n one by linarith+
  then show "p \<notin># all_ready (sched K)" "p \<notin># L" by (simp_all add: not_in_iff)
  show "j = i" if j: "j < length cs" "p \<in># holds (cs ! j)"
  proof (rule ccontr)
    assume "j \<noteq> i"
    let ?e = "\<lparr>time_left = 0, proc = NULL, cpc = Top\<rparr>"
    have "cpus_hold (cs[i := ?e]) = R" using R(2) [of ?e] by (simp add: holds_def)
    moreover obtain S where "cpus_hold (cs[i := ?e]) = holds (cs[i := ?e] ! j) + S"
      by (rule cpus_hold_split [of j "cs[i := ?e]"]) (use j(1) in auto)
    ultimately have "p \<in># R" using j(2) \<open>j \<noteq> i\<close> by auto
    then show False using zero(2) by (simp add: not_in_iff [symmetric])
  qed
qed

text \<open>A run: one processor, and a process with one instruction, which the loader reads and adds.\<close>

definition demo_cf :: config where
  "demo_cf = \<lparr>time_slot = 2, num_cpus = 1, num_processes = 1, memramsz = 1048576, memswpsz = [1048576, 0, 0, 0],
     ld_processes = [\<lparr>path = ''input/proc/c'', start_time = Some 0, ld_prio = Some 3\<rparr>]\<rparr>"

definition demo_fs :: "string \<Rightarrow> string option" where
  "demo_fs = [''input/proc/c'' \<mapsto> ''1 1\<newline>calc\<newline>'']"

lemma demo_sizes: "sizes_ok demo_cf"
  by (simp add: sizes_ok_def demo_cf_def)

lemma demo_load: "load (sample_pcb 0 0 0) j 1 (Some ''1 1\<newline>calc\<newline>'') =
    Inr (Some ((sample_pcb 1 1 0)\<lparr>code := [(j 0)\<lparr>opcode := CALC\<rparr>]\<rparr>, 2))"
  by (simp add: load_def scan_num_def scan_sign_def skip_space_def is_space_def is_digit_def num_val_def
      to_unsigned_def numeral_2_eq_2 scan_word_def get_opcode_def c_str_def opt_defs read_args_def sample_pcb_def Let_def)

lemma demo_run_ram:
  assumes "sizes_ok (demo_cf\<lparr>memramsz := r\<rparr>)"
  obtains s where "os_run (demo_cf\<lparr>memramsz := r\<rparr>) demo_fs (boot (demo_cf\<lparr>memramsz := r\<rparr>)) [Loader_Step, Loader_Step, Cpu_Step 0] s"
    "length (cpus s) = 1" "cpc (cpus s ! 0) = First_Get"
proof -
  let ?cf = "demo_cf\<lparr>memramsz := r\<rparr>"
  let ?b = "boot ?cf" and ?j = "\<lambda>_. \<lparr>opcode = CALC, arg_0 = 0, arg_1 = 0, arg_2 = 0, arg_3 = 0\<rparr>"
  obtain s1 where s1: "ld_routine ?cf demo_fs 1 (sample_pcb 0 0 0) ?j ?b = Inr (Some s1)" "lpc (ld s1) = Ld_Wait"
      "next_process (ld s1) = 0" "bar s1 = bar ?b" "cpus s1 = cpus ?b"
    by (simp add: ld_routine_def boot_def demo_cf_def loader_start_def demo_fs_def demo_load Let_def)
  have 1: "os_step ?cf demo_fs ?b Loader_Step s1"
    by (rule os_step.load [OF _ _ _ _ s1(1)]) (simp_all add: boot_def loader_start_def sample_pcb_def)
  then have inv: "os_inv ?cf s1" using os_step_inv boot_inv [OF assms] by simp
  then have k: "kern_inv (kernel s1) (cpus_hold (cpus s1)) {# ld_proc (ld s1) #}"
    using s1(2) by (simp add: os_inv_def ld_holds_def)
  then obtain x where x: "ld_proc (ld s1) \<noteq> NULL" "procs (kernel s1) (ld_proc (ld s1)) = Some x" by (auto simp: kern_inv_def)
  obtain s2 where s2: "ld_routine ?cf demo_fs 2 (sample_pcb 0 0 0) ?j s1 = Inr (Some s2)" "cpus s2 = cpus s1"
    using add_kern [OF k x(2)] x s1(2-4)
    by (auto simp: ld_routine_def demo_cf_def Let_def boot_def current_time_def elim!: returnsE)
  have free: "procs (kernel s1) 2 = None" using s1(1)
    by (auto simp: ld_routine_def boot_def demo_cf_def loader_start_def demo_fs_def demo_load Let_def)
  have 2: "os_step ?cf demo_fs s1 Loader_Step s2"
    by (rule os_step.load [OF _ _ free _ s2(1)]) (simp_all add: s1(2) sample_pcb_def)
  have c: "cpus s2 = [cpu_start]" using s2(2) s1(5) by (simp add: boot_def demo_cf_def)
  have 3: "os_step ?cf demo_fs s2 (Cpu_Step 0)
      (s2\<lparr>kernel := kernel s2, cpus := (cpus s2)[0 := cpu_start\<lparr>cpc := First_Get\<rparr>]\<rparr>)"
    by (rule os_step.cpu) (simp_all add: c cpu_start_def cpu_routine_def)
  from os_run.step [OF os_run.step [OF os_run.step [OF os_run.start 1] 2] 3]
  have r: "os_run ?cf demo_fs ?b [Loader_Step, Loader_Step, Cpu_Step 0]
      (s2\<lparr>kernel := kernel s2, cpus := (cpus s2)[0 := cpu_start\<lparr>cpc := First_Get\<rparr>]\<rparr>)" by simp
  show ?thesis by (rule that [OF r]) (simp_all add: c)
qed

lemma demo_run:
  obtains s where "os_run demo_cf demo_fs (boot demo_cf) [Loader_Step, Loader_Step, Cpu_Step 0] s"
    "length (cpus s) = 1" "cpc (cpus s ! 0) = First_Get"
proof -
  have "demo_cf\<lparr>memramsz := 1048576\<rparr> = demo_cf" by (simp add: demo_cf_def)
  then show ?thesis using demo_run_ram [of 1048576] demo_sizes that by auto
qed

text \<open>A processor before an instruction has a block.\<close>

lemma exec_block:
  assumes inv: "os_inv cf s" and c: "c \<in> set (cpus s)" and e: "cpc c = Exec"
  shows "\<exists>x. procs (kernel s) (proc c) = Some x"
proof -
  have k: "kern_inv (kernel s) (cpus_hold (cpus s)) (ld_holds (ld s))" using inv by (simp add: os_inv_def)
  obtain i where i: "i < length (cpus s)" "c = cpus s ! i" using c by (auto simp: in_set_conv_nth)
  obtain R where R: "cpus_hold (cpus s) = holds c + R" using cpus_hold_split [OF i(1)] i(2) by blast
  have "cpu_ok c" using inv c by (simp add: os_inv_def)
  then have "proc c \<in># all_ready (sched (kernel s)) + cpus_hold (cpus s)" using e by (simp add: R holds_def cpu_ok_def)
  then obtain x where "procs (kernel s) (proc c) = Some x" by (rule kern_inv_held [OF k])
  then show ?thesis by blast
qed

text \<open>The next step of a processor has no fault.\<close>

lemma cpu_no_fault:
  assumes inv: "os_inv cf s" and c: "c \<in> set (cpus s)"
    and ok: "\<forall>x. cpc c = Exec \<longrightarrow> procs (kernel s) (proc c) = Some x \<longrightarrow> event_ok (Cpu_Run 0 x)"
  shows "returns (cpu_routine (time_slot cf) (all_loaded s) (kernel s) c) (\<lambda>_. True)"
proof -
  let ?K = "kernel s"
  have k: "kern_inv ?K (cpus_hold (cpus s)) (ld_holds (ld s))" using inv by (simp add: os_inv_def)
  obtain i where i: "i < length (cpus s)" "c = cpus s ! i" using c by (auto simp: in_set_conv_nth)
  obtain R where R: "cpus_hold (cpus s) = holds c + R" using cpus_hold_split [OF i(1)] i(2) by blast
  have co: "cpu_ok c" using inv c by (simp add: os_inv_def)
  have "\<exists>x. procs ?K (proc c) = Some x \<or> cpc c \<noteq> Exec"
    using exec_block [OF inv c] by blast
  then obtain x where x: "procs ?K (proc c) = Some x \<or> cpc c \<noteq> Exec" by blast
  have k': "kern_inv ?K (holds c + R) (ld_holds (ld s))" using k R by simp
  show ?thesis
    using cpu_routine_inv [OF k' co _ x, of "time_slot cf" "all_loaded s"] ok by (auto elim!: returnsE)
qed

section \<open>Properties\<close>

text \<open>
  C17. In every interleaving of the threads, from the start of the simulator with memory sizes that
  page table entries can address: the scheduler and the memory of all processes keep their
  invariants; no process is at two processors or both at a processor and in a ready queue, none waits
  twice, and only held ones are listed as running; a process that is held or waits has not been
  freed, and its program counter has not passed the end of its code. No processor's next step has a fault.
  All this holds as long as the instructions that are run keep to the limits of \<open>inst_ok\<close>: no
  memory-mapping system call (which clears page table entries behind the back of paging), no kernel
  allocation into one of the registers 10 to 29 (which writes past the array of registers,
  \<open>kmem_malloc_correct\<close>), and no allocation that takes the area of its process to \<open>2 ^ 22\<close> bytes.
\<close>

theorem os_safe:
  assumes "sizes_ok cf" and "os_run cf fs (boot cf) es s" and "\<forall>e \<in> set es. event_ok e"
  shows "sched_inv (procs (kernel s)) (sched (kernel s)) \<and> sys_inv (kern_mem (kernel s))
    \<and> (\<forall>p. count (all_ready (sched (kernel s))) p \<le> 1)
    \<and> (\<forall>i < length (cpus s). \<forall>p \<in># holds (cpus s ! i). p \<notin># all_ready (sched (kernel s))
        \<and> (\<forall>j < length (cpus s). p \<in># holds (cpus s ! j) \<longrightarrow> j = i))
    \<and> (\<forall>p \<in> set (q_list (running_list (sched (kernel s)))). \<exists>c \<in> set (cpus s). p \<in># holds c)
    \<and> (\<forall>p. p \<in># all_ready (sched (kernel s)) \<or> (\<exists>c \<in> set (cpus s). p \<in># holds c) \<longrightarrow>
        (\<exists>x. procs (kernel s) p = Some x \<and> unat (pc x) \<le> length (code x)))
    \<and> (\<forall>c \<in> set (cpus s). (\<forall>x. cpc c = Exec \<longrightarrow> procs (kernel s) (proc c) = Some x \<longrightarrow> event_ok (Cpu_Run 0 x))
        \<longrightarrow> returns (cpu_routine (time_slot cf) (all_loaded s) (kernel s) c) (\<lambda>_. True))"
proof -
  let ?K = "kernel s"
  have inv: "os_inv cf s" using os_run_inv [OF assms(2) boot_inv [OF assms(1)] assms(3)] .
  then have k: "kern_inv ?K (cpus_hold (cpus s)) (ld_holds (ld s))" by (simp add: os_inv_def)
  have held: "p \<in># cpus_hold (cpus s) \<longleftrightarrow> (\<exists>c \<in> set (cpus s). p \<in># holds c)" for p
    by (simp add: cpus_hold_def)
  have "count (all_ready (sched ?K)) p \<le> 1" for p using kern_invD(3) [OF k, of p] by simp
  moreover have "\<exists>c \<in> set (cpus s). p \<in># holds c" if "p \<in> set (q_list (running_list (sched ?K)))" for p
    using held mset_subset_eqD [OF kern_invD(4) [OF k], of p] that by simp
  moreover have "\<exists>x. procs ?K p = Some x \<and> unat (pc x) \<le> length (code x)"
    if "p \<in># all_ready (sched ?K) \<or> (\<exists>c \<in> set (cpus s). p \<in># holds c)" for p
  proof -
    have "p \<in># all_ready (sched ?K) + cpus_hold (cpus s)" using that held by auto
    then obtain x where "procs ?K p = Some x" "block_ok x" by (rule kern_inv_held [OF k])
    then show ?thesis by (simp add: block_ok_def)
  qed
  ultimately show ?thesis using kern_invD [OF k] held_once [OF k] cpu_no_fault [OF inv] by blast
qed


theorem os_safe_witness:
  "\<exists>s. os_run demo_cf demo_fs (boot demo_cf) [Loader_Step, Loader_Step, Cpu_Step 0] s
    \<and> returns (cpu_routine 2 (all_loaded s) (kernel s) (cpus s ! 0)) (\<lambda>_. True)"
proof -
  obtain s where s: "os_run demo_cf demo_fs (boot demo_cf) [Loader_Step, Loader_Step, Cpu_Step 0] s"
      "length (cpus s) = 1" "cpc (cpus s ! 0) = First_Get" by (rule demo_run)
  have c: "cpus s ! 0 \<in> set (cpus s)" using s(2) by simp
  have ok: "\<forall>e \<in> set [Loader_Step, Loader_Step, Cpu_Step 0]. event_ok e" by simp
  have "time_slot demo_cf = 2" by (simp add: demo_cf_def)
  then have "returns (cpu_routine 2 (all_loaded s) (kernel s) (cpus s ! 0)) (\<lambda>_. True)"
    using os_safe [OF demo_sizes s(1) ok] c s(3) by simp
  then show ?thesis using s(1) by blast
qed

text \<open>
  C19. The shape of the state. In every interleaving, what the pointers of the scheduler and of the
  processors lead to has the shape that the code takes for granted when it indexes arrays and follows
  links: a block that was not freed, with ten registers, code whose size fits its field, a page table
  of \<open>PAGING_MAX_PGN\<close> entries, thirty symbols and one area; every entry of the page table names a
  frame of the device it lies on, and every listed page is inside the table; the scheduler has
  \<open>MAX_PRIO\<close> levels, and its cursor and the sizes of its queues are inside their arrays. The
  instructions that are run keep to the limits of \<open>inst_ok\<close>.
\<close>

theorem os_well_typed:
  assumes "sizes_ok cf" and "os_run cf fs (boot cf) es s" and "\<forall>e \<in> set es. event_ok e"
  shows "(\<forall>p. p \<in># all_ready (sched (kernel s)) \<or> (\<exists>c \<in> set (cpus s). p \<in># holds c) \<longrightarrow>
      (\<exists>x m v. p \<noteq> NULL \<and> procs (kernel s) p = Some x \<and> krnl_mm x = Some m
        \<and> length (regs x) = 10 \<and> length (code x) < 2 ^ 32 \<and> length (pgd m) = PAGING_MAX_PGN
        \<and> length (symrgtbl m) = PAGING_MAX_SYMTBL_SZ \<and> mmap m = [v]
        \<and> (\<forall>i < PAGING_MAX_PGN. \<forall>f. pte_decode (pgd m ! i) = Present f \<longrightarrow> f < nframes (kram (kernel s)))
        \<and> (\<forall>i < PAGING_MAX_PGN. \<forall>f. pte_decode (pgd m ! i) = Swapped f \<longrightarrow> f < nframes (kswp (kernel s)))
        \<and> (\<forall>pg \<in> set (fifo_pgn m). unat pg < PAGING_MAX_PGN)))
    \<and> length (mlq_ready_queue (sched (kernel s))) = MAX_PRIO \<and> curr_prio (sched (kernel s)) < MAX_PRIO
    \<and> (\<forall>q \<in> insert (running_list (sched (kernel s))) (set (mlq_ready_queue (sched (kernel s)))).
        length (qproc q) = MAX_QUEUE_SIZE \<and> qsize q \<le> MAX_QUEUE_SIZE)
    \<and> (\<forall>f \<in> set (free_fp_list (kram (kernel s))). unat f < nframes (kram (kernel s)))"
proof -
  let ?K = "kernel s"
  have k: "kern_inv ?K (cpus_hold (cpus s)) (ld_holds (ld s))"
    using os_run_inv [OF assms(2) boot_inv [OF assms(1)] assms(3)] by (simp add: os_inv_def)
  have sy: "sys_inv (kern_mem ?K)" and sc: "sched_inv (procs ?K) (sched ?K)" using kern_invD [OF k] by blast+
  have "\<exists>x m v. p \<noteq> NULL \<and> procs ?K p = Some x \<and> krnl_mm x = Some m
        \<and> length (regs x) = 10 \<and> length (code x) < 2 ^ 32 \<and> length (pgd m) = PAGING_MAX_PGN
        \<and> length (symrgtbl m) = PAGING_MAX_SYMTBL_SZ \<and> mmap m = [v]
        \<and> (\<forall>i < PAGING_MAX_PGN. \<forall>f. pte_decode (pgd m ! i) = Present f \<longrightarrow> f < nframes (kram ?K))
        \<and> (\<forall>i < PAGING_MAX_PGN. \<forall>f. pte_decode (pgd m ! i) = Swapped f \<longrightarrow> f < nframes (kswp ?K))
        \<and> (\<forall>pg \<in> set (fifo_pgn m). unat pg < PAGING_MAX_PGN)"
    if "p \<in># all_ready (sched ?K) \<or> (\<exists>c \<in> set (cpus s). p \<in># holds c)" for p
  proof -
    have "p \<in># all_ready (sched ?K) + cpus_hold (cpus s)" using that by (auto simp: cpus_hold_def)
    then obtain x m where x: "p \<noteq> NULL" "procs ?K p = Some x" "block_ok x" "krnl_mm x = Some m"
      by (rule kern_inv_held [OF k])
    then obtain v where v: "vm_inv m v (krnl_of ?K x)"
      using sys_invD [OF sy, of p m] by (auto simp: kern_mem_view)
    then have pg: "pg_inv m (krnl_of ?K x)" and ar: "area_ok m v" by (simp_all add: vm_inv_def)
    have view: "pview m i = pte_decode (pgd m ! i)" if "i < PAGING_MAX_PGN" for i
      using that pg_invD(2) [OF pg] by (simp add: pview_def PAGING_MAX_PGN_eq)
    have "unat y < PAGING_MAX_PGN" if "y \<in> set (fifo_pgn m)" for y
    proof -
      have "\<exists>f. pview m (unat y) = Present f" using pg_invD(9) [OF pg] that by (simp add: fifo_ok_def)
      then show ?thesis using pg_invD(2) [OF pg] by (auto simp: pview_def PAGING_MAX_PGN_eq split: if_splits)
    qed
    moreover have "f < nframes (kram ?K)" if "i < PAGING_MAX_PGN" "pte_decode (pgd m ! i) = Present f" for i f
      using slots_ok_bound [OF pg_invD(7) [OF pg], of i f] view [OF that(1)] that(2) by (simp add: krnl_of_def)
    moreover have "f < nframes (kswp ?K)" if "i < PAGING_MAX_PGN" "pte_decode (pgd m ! i) = Swapped f" for i f
      using slots_ok_bound [OF pg_invD(8) [OF pg], of i f] view [OF that(1)] that(2) by (simp add: krnl_of_def)
    ultimately show ?thesis
      using x pg_invD(2) [OF pg] area_okD(1,5) [OF ar]
      by (auto simp: block_ok_def PAGING_MAX_PGN_eq PAGING_MAX_SYMTBL_SZ_def krnl_of_def)
  qed
  moreover have "mem_wf (kram ?K)" using sy by (simp add: sys_inv_def kern_mem_def)
  ultimately show ?thesis
    using sc unfolding sched_inv_def queues_ok_def cursor_ok_def q_inv_def mem_wf_def by blast
qed

theorem os_well_typed_witness:
  "\<exists>s. os_run demo_cf demo_fs (boot demo_cf) [Loader_Step, Loader_Step, Cpu_Step 0] s
    \<and> length (mlq_ready_queue (sched (kernel s))) = 140 \<and> curr_prio (sched (kernel s)) < 140"
proof -
  obtain s where s: "os_run demo_cf demo_fs (boot demo_cf) [Loader_Step, Loader_Step, Cpu_Step 0] s" by (rule demo_run)
  have ok: "\<forall>e \<in> set [Loader_Step, Loader_Step, Cpu_Step 0]. event_ok e" by simp
  show ?thesis using os_well_typed [OF demo_sizes s ok] s unfolding MAX_PRIO_def by blast
qed

subsection \<open>The work of a processor in a slot\<close>

text \<open>A processor that runs on its own until it stands before the barrier, for at most \<open>n\<close> steps.\<close>

fun cpu_slot :: "nat \<Rightarrow> int \<Rightarrow> bool \<Rightarrow> kern \<Rightarrow> cpu \<Rightarrow> (kern \<times> cpu) res" where
  "cpu_slot 0 slots dn K c = Inr (K, c)"
| "cpu_slot (Suc n) slots dn K c =
     (if cpc c \<in> {Next_Slot, Leave, Stopped} then Inr (K, c)
      else rbind (cpu_routine slots dn K c) (\<lambda>(K, c). cpu_slot n slots dn K c))"

fun steps_left :: "cpu_pc \<Rightarrow> nat" where
  "steps_left Top = 4"
| "steps_left First_Get = 3"
| "steps_left Next_Get = 3"
| "steps_left Recheck = 2"
| "steps_left Exec = 1"
| "steps_left _ = 0"

lemma cpu_routine_measure:
  assumes "cpu_routine slots dn K c = Inr (K', c')" and "cpc c \<notin> {Next_Slot, Leave, Stopped}"
  shows "steps_left (cpc c') < steps_left (cpc c) \<and> cpc c' \<noteq> Stopped"
  using assms by (cases "cpc c") (auto simp: cpu_routine_def rbind_Inr_iff split: if_splits)

text \<open>The next instruction of every process is one for which the promise is made.\<close>

definition next_ok :: "kern \<Rightarrow> bool" where
  "next_ok K \<longleftrightarrow> (\<forall>p x. procs K p = Some x \<longrightarrow> unat (pc x) < length (code x) \<longrightarrow> inst_ok x (code x ! unat (pc x)))"

lemma inst_ok_admit: "inst_ok (admit_block x) = inst_ok x"
  by (simp add: inst_ok_def room_for_def fun_eq_iff Let_def cong: ins_opcode_t.case_cong)

lemma cpu_routine_next_ok:
  assumes inv: "kern_inv K (holds c + R) L" and ok: "next_ok K" and c: "cpc c \<noteq> Exec"
    and st: "cpu_routine slots dn K c = Inr (K', c')"
  shows "next_ok K'"
proof (cases "cpc c = Top \<and> proc c \<noteq> NULL")
  case False
  then have "procs K' = procs K" using st c by (cases "cpc c") (auto simp: cpu_routine_def rbind_Inr_iff split: if_splits)
  then show ?thesis using ok by (simp add: next_ok_def)
next
  case True
  then have inv': "kern_inv K (add_mset (proc c) R) L" using inv by (simp add: holds_def)
  obtain y m where y: "proc c \<noteq> NULL" "procs K (proc c) = Some y" by (rule kern_inv_held [OF inv', of "proc c"]) auto
  obtain h s where "put_proc (procs K) (sched K) (proc c) = Inr (h, s)" "h = (procs K)(proc c \<mapsto> admit_block y)"
    using put_returns [OF kern_invD(1) [OF inv'] y(1)] y(2) by (auto elim!: returnsE)
  then have "procs K' = procs K \<or> procs K' = (procs K)(proc c \<mapsto> admit_block y) \<or> procs K' = (procs K)(proc c := None)"
    using st True y by (auto simp: cpu_routine_def rbind_Inr_iff split: if_splits)
  then show ?thesis using ok y(2) by (auto simp: next_ok_def inst_ok_admit split: if_splits)
qed

lemma cpu_slot_ends:
  "steps_left (cpc c) \<le> n \<Longrightarrow> kern_inv K (holds c + R) L \<Longrightarrow> cpu_ok c \<Longrightarrow> next_ok K \<Longrightarrow> cpc c \<noteq> Stopped \<Longrightarrow>
     returns (cpu_slot n slots dn K c) (\<lambda>(K', c'). kern_inv K' (holds c' + R) L \<and> cpc c' \<in> {Next_Slot, Leave})"
proof (induction n arbitrary: K c)
  case 0
  then show ?case by (cases "cpc c") auto
next
  case (Suc n)
  show ?case
  proof (cases "cpc c \<in> {Next_Slot, Leave, Stopped}")
    case False
    have "\<exists>x. procs K (proc c) = Some x \<or> cpc c \<noteq> Exec"
    proof (cases "cpc c = Exec")
      case True
      then have "proc c \<in># all_ready (sched K) + (holds c + R)" using Suc.prems(3) by (simp add: holds_def cpu_ok_def)
      then obtain x where "procs K (proc c) = Some x" by (rule kern_inv_held [OF Suc.prems(2)])
      then show ?thesis by blast
    qed simp
    then obtain x where x: "procs K (proc c) = Some x \<or> cpc c \<noteq> Exec" by blast
    have ok: "unat (pc x) < length (code x) \<longrightarrow> inst_ok x (code x ! unat (pc x))" if "procs K (proc c) = Some x"
      using Suc.prems(4) that by (simp add: next_ok_def)
    obtain K' c' where r: "cpu_routine slots dn K c = Inr (K', c')" "kern_inv K' (holds c' + R) L" "cpu_ok c'"
      using cpu_routine_inv [OF Suc.prems(2,3) _ x, of slots dn] ok by (auto elim!: returnsE)
    note m = cpu_routine_measure [OF r(1) False]
    show ?thesis
    proof (cases "cpc c = Exec")
      case True
      then have "cpc c' = Next_Slot" using r(1) by (auto simp: cpu_routine_def rbind_Inr_iff)
      then show ?thesis using False r by (cases n) auto
    next
      case False': False
      have "returns (cpu_slot n slots dn K' c') (\<lambda>(K', c'). kern_inv K' (holds c' + R) L \<and> cpc c' \<in> {Next_Slot, Leave})"
        by (rule Suc.IH) (use m r Suc.prems(1) cpu_routine_next_ok [OF Suc.prems(2,4) False' r(1)] in auto)
      then show ?thesis using False r(1) by simp
    qed
  qed (use Suc.prems in auto)
qed


text \<open>
  C23. The work of a slot ends. A processor that has not ended, left to itself, is before the barrier or
  before its end after at most four steps, whatever it does on the way: give back or free its
  process, get another one, run one instruction. None of its steps has a fault, and the kernel
  keeps its invariant. The next instruction of every process keeps to the limits of \<open>inst_ok\<close>.
\<close>

theorem slot_work_ends:
  assumes "kern_inv K (holds c + R) L" and "cpu_ok c" and "next_ok K" and "cpc c \<noteq> Stopped"
  shows "returns (cpu_slot 4 slots dn K c) (\<lambda>(K', c'). cpc c' \<in> {Next_Slot, Leave} \<and> kern_inv K' (holds c' + R) L)"
proof -
  have four: "steps_left (cpc c) \<le> 4" by (cases "cpc c") simp_all
  show ?thesis by (rule returns_mono [OF cpu_slot_ends [OF four assms]]) auto
qed

theorem slot_work_ends_witness:
  "returns (cpu_slot 4 2 False (kernel (boot demo_cf)) cpu_start) (\<lambda>(K', c'). cpc c' \<in> {Next_Slot, Leave})"
proof -
  have "os_inv demo_cf (boot demo_cf)" by (rule boot_inv [OF demo_sizes])
  moreover have "cpus (boot demo_cf) = [cpu_start]" "ld_holds (ld (boot demo_cf)) = {#}"
    by (simp_all add: boot_def demo_cf_def ld_holds_def loader_start_def)
  ultimately have "kern_inv (kernel (boot demo_cf)) (holds cpu_start + {#}) {#}" "cpu_ok cpu_start"
    by (simp_all add: os_inv_def cpus_hold_def)
  moreover have "next_ok (kernel (boot demo_cf))" by (simp add: next_ok_def boot_def)
  ultimately show ?thesis
    using slot_work_ends [of "kernel (boot demo_cf)" cpu_start "{#}" "{#}" 2 False] by (auto simp: cpu_start_def elim!: returnsE)
qed

subsection \<open>Slots and the barrier\<close>

text \<open>In a run from the start the threads are at the barrier of their number.\<close>

definition num_devs :: "config \<Rightarrow> nat" where
  "num_devs cf = nat (num_cpus cf) + 1"

definition wakes :: "os_event list \<Rightarrow> nat \<Rightarrow> nat" where
  "wakes es i = length (filter (\<lambda>e. e = Bar (Wake i)) es)"

lemma os_step_cpus: "os_step cf fs s e s' \<Longrightarrow> length (cpus s') = length (cpus s)"
proof (induction rule: os_step.induct)
  case (load s fresh x0 j s')
  then show ?case using ld_routine_bar by metis
qed (auto simp: resumed_def stopped_def)

lemma resumed_sel [simp]: "bar (resumed s i) = bar s" "kernel (resumed s i) = kernel s"
    "length (cpus (resumed s i)) = length (cpus s)"
  by (simp_all add: resumed_def)

lemma stopped_sel [simp]: "bar (stopped s i) = bar s" "kernel (stopped s i) = kernel s"
    "length (cpus (stopped s i)) = length (cpus s)"
  by (simp_all add: stopped_def)

lemma wakes_append: "wakes (es @ [e]) = (case e of Bar (Wake i) \<Rightarrow> (wakes es)(i := wakes es i + 1) | _ \<Rightarrow> wakes es)"
  by (auto simp: wakes_def fun_eq_iff split: os_event.split barrier_event.split)

lemma os_step_bar: "os_step cf fs s e s' \<Longrightarrow> (case e of Bar b \<Rightarrow> barrier_step (bar s) b (bar s') | _ \<Rightarrow> bar s' = bar s)"
proof (induction rule: os_step.induct)
  case (load s fresh x0 j s')
  then show ?case using ld_routine_bar by simp
qed simp_all

lemma os_run_bar:
  assumes "os_run cf fs (boot cf) es s"
  shows "\<exists>t. barrier_run (num_devs cf) (bar s) t (wakes es) \<and> length (cpus s) = nat (num_cpus cf)"
  using assms
proof (induction rule: os_run.induct)
  case start
  have "wakes [] = (\<lambda>_. 0)" by (simp add: wakes_def fun_eq_iff)
  moreover have "barrier_run (num_devs cf) (bar (boot cf)) 0 (\<lambda>_. 0)"
    by (rule barrier_run.init) (simp_all add: boot_def num_devs_def)
  ultimately show ?case by (auto simp: boot_def)
next
  case (step es s e s')
  then obtain t where t: "barrier_run (num_devs cf) (bar s) t (wakes es)" "length (cpus s) = nat (num_cpus cf)" by blast
  have len: "length (cpus s') = nat (num_cpus cf)" using os_step_cpus [OF step.hyps(2)] t(2) by simp
  have "\<exists>t. barrier_run (num_devs cf) (bar s') t (wakes (es @ [e]))"
  proof (cases "\<exists>b. e = Bar b")
    case True
    then obtain b where b: "e = Bar b" by blast
    have "barrier_step (bar s) b (bar s')" using os_step_bar [OF step.hyps(2)] by (simp add: b)
    from barrier_run.move [OF t(1) this] show ?thesis
      by (auto simp: wakes_append b split: barrier_event.splits)
  next
    case False
    then have "bar s' = bar s" using os_step_bar [OF step.hyps(2)] by (cases e) simp_all
    moreover have "wakes (es @ [e]) = wakes es" using False by (cases e) (simp_all add: wakes_append)
    ultimately show ?thesis using t(1) by auto
  qed
  then show ?case using len by blast
qed

subsection \<open>Idle processors\<close>

text \<open>Processor \<open>i\<close> waits for work; nothing is left to do and nothing will be loaded.\<close>

definition nothing_to_do :: "os \<Rightarrow> nat \<Rightarrow> bool" where
  "nothing_to_do s i \<longleftrightarrow> i < length (cpus s) \<and> proc (cpus s ! i) = NULL \<and> cpc (cpus s ! i) \<in> {Top, First_Get, Next_Slot}
     \<and> all_ready (sched (kernel s)) = {#} \<and> cpus_hold (cpus s) = {#} \<and> lpc (ld s) \<in> {Ld_Leave, Ld_Stopped}"

lemma get_nothing:
  assumes "sched_inv h s" and "all_ready s = {#}"
  obtains s' where "get_proc h s = Inr (NULL, s')" "all_ready s' = {#}"
proof -
  have i: "queues_ok s" "curr_prio s < MAX_PRIO" using assms(1) by (simp_all add: sched_inv_def cursor_ok_def)
  have "first_level s = None" using assms(2) first_level_None [OF i(2)] by (simp add: all_ready_empty)
  from get_none [OF i this] assms(2) show ?thesis
    by (intro that [of "(next_level ^^ MAX_PRIO) s"]) (simp_all add: get_proc_def all_ready_def)
qed

lemma idle_cpu_step:
  assumes inv: "os_inv cf s" and idle: "nothing_to_do s i" and j: "j < length (cpus s)"
    and pc: "cpc (cpus s ! j) \<in> {Top, First_Get, Next_Get, Recheck, Exec}"
    and st: "cpu_routine slots dn (kernel s) (cpus s ! j) = Inr (K, c)"
  shows "all_ready (sched K) = {#} \<and> holds c = {#}
    \<and> (j = i \<longrightarrow> proc c = NULL \<and> cpc c \<in> {Top, First_Get, Next_Slot})"
proof -
  obtain R where "cpus_hold (cpus s) = holds (cpus s ! j) + R" using cpus_hold_split [OF j] by blast
  then have h: "proc (cpus s ! j) = NULL \<or> cpc (cpus s ! j) = Next_Get"
    using idle by (auto simp: nothing_to_do_def holds_def split: if_splits)
  have c: "cpu_ok (cpus s ! j)" using inv j by (simp add: os_inv_def)
  have "sched_inv (procs (kernel s)) (sched (kernel s))" using inv by (simp add: os_inv_def kern_inv_def)
  then obtain sc where g: "get_proc (procs (kernel s)) (sched (kernel s)) = Inr (NULL, sc)" "all_ready sc = {#}"
    using idle by (auto simp: nothing_to_do_def elim: get_nothing)
  have e: "all_ready (sched (kernel s)) = {#}" using idle by (simp add: nothing_to_do_def)
  have own: "j = i \<Longrightarrow> cpc (cpus s ! j) \<in> {Top, First_Get, Next_Slot}" using idle by (simp add: nothing_to_do_def)
  show ?thesis using pc h c st g e own
    by (cases "cpc (cpus s ! j)") (auto simp: cpu_routine_def holds_def cpu_ok_def split: if_splits)
qed

lemma idle_set:
  assumes idle: "nothing_to_do s i" and j: "j < length (cpus s)" and K: "all_ready (sched K) = {#}" and c: "holds c = {#}"
    and own: "j = i \<longrightarrow> proc c = NULL \<and> cpc c \<in> {Top, First_Get, Next_Slot}"
  shows "nothing_to_do (s\<lparr>kernel := K, cpus := (cpus s)[j := c]\<rparr>) i"
proof -
  obtain R where R: "cpus_hold (cpus s) = holds (cpus s ! j) + R" "\<And>c. cpus_hold ((cpus s)[j := c]) = holds c + R"
    using cpus_hold_split [OF j] by blast
  have "cpus_hold ((cpus s)[j := c]) = {#}" using R(1) idle R(2) [of c] c by (simp add: nothing_to_do_def)
  then show ?thesis using idle K own j by (cases "i = j") (simp_all add: nothing_to_do_def)
qed

lemma idle_step:
  assumes st: "os_step cf fs s e s'" and inv: "os_inv cf s" and idle: "nothing_to_do s i"
  shows "nothing_to_do s' i"
  using st
proof cases
  case (cpu j K c)
  from cpu(4) have "cpc (cpus s ! j) \<in> {Top, First_Get, Next_Get, Recheck, Exec}" by blast
  from idle_cpu_step [OF inv idle cpu(3) this cpu(5)] show ?thesis
    unfolding cpu(2) by (intro idle_set [OF idle cpu(3)]) simp_all
next
  case (exec j x K c)
  from exec(4) have "cpc (cpus s ! j) \<in> {Top, First_Get, Next_Get, Recheck, Exec}" by simp
  from idle_cpu_step [OF inv idle exec(3) this exec(6)] show ?thesis
    unfolding exec(2) by (intro idle_set [OF idle exec(3)]) simp_all
next
  case (load fresh x0 j)
  from load(2) idle show ?thesis by (auto simp: nothing_to_do_def)
next
  case (wake j b)
  show ?thesis
  proof (cases "j < length (cpus s)")
    case True
    let ?c = "(cpus s ! j)\<lparr>cpc := Top\<rparr>"
    obtain R where "cpus_hold (cpus s) = holds (cpus s ! j) + R" using cpus_hold_split [OF True] by blast
    then have "holds ?c = {#}" using idle wake(3) True by (auto simp: nothing_to_do_def at_slot_def holds_def split: if_splits)
    then have "nothing_to_do (s\<lparr>kernel := kernel s, cpus := (cpus s)[j := ?c]\<rparr>) i"
      using idle by (intro idle_set [OF idle True]) (auto simp: nothing_to_do_def)
    then show ?thesis using True unfolding wake(2) by (simp add: nothing_to_do_def resumed_def)
  next
    case False
    then show ?thesis using idle wake(2,3) by (auto simp: nothing_to_do_def at_slot_def)
  qed
next
  case (detach j b)
  show ?thesis
  proof (cases "j < length (cpus s)")
    case True
    let ?c = "(cpus s ! j)\<lparr>cpc := Stopped\<rparr>"
    have j: "j \<noteq> i" using idle detach(3) True by (auto simp: nothing_to_do_def at_end_def)
    obtain R where "cpus_hold (cpus s) = holds (cpus s ! j) + R" using cpus_hold_split [OF True] by blast
    then have "holds ?c = {#}" using idle detach(3) True by (auto simp: nothing_to_do_def at_end_def holds_def split: if_splits)
    then have "nothing_to_do (s\<lparr>kernel := kernel s, cpus := (cpus s)[j := ?c]\<rparr>) i"
      using idle j by (intro idle_set [OF idle True]) (auto simp: nothing_to_do_def)
    then show ?thesis using True unfolding detach(2) by (simp add: nothing_to_do_def stopped_def)
  next
    case False
    then show ?thesis using idle detach(2) by (auto simp: nothing_to_do_def stopped_def)
  qed
next
  case (halt b)
  have "cpus s ! i \<in> set (cpus s)" using idle by (simp add: nothing_to_do_def)
  then have "cpc (cpus s ! i) = Stopped" using halt(3) by blast
  then show ?thesis using idle by (simp add: nothing_to_do_def)
qed (use idle in \<open>simp_all add: nothing_to_do_def\<close>)

text \<open>A thread that has detached has stopped.\<close>

lemma barrier_step_gone: "barrier_step b e b' \<Longrightarrow> dpc b' i = Gone \<Longrightarrow> dpc b i = Gone \<or> e = Detach i"
  by (induction rule: barrier_step.induct) (auto split: if_splits)

lemma gone_stopped:
  assumes "os_run cf fs (boot cf) es s" and "i < length (cpus s)" and "dpc (bar s) i = Gone"
  shows "cpc (cpus s ! i) = Stopped"
  using assms
proof (induction rule: os_run.induct)
  case start
  then show ?case by (simp add: boot_def)
next
  case (step es s e s')
  have i: "i < length (cpus s)" using step.prems(1) os_step_cpus [OF step.hyps(2)] by simp
  note IH = step.IH [OF i]
  show ?case using step.hyps(2)
  proof cases
    case (cpu j K c)
    then show ?thesis using IH step.prems i by (cases "i = j") auto
  next
    case (exec j x K c)
    then show ?thesis using IH step.prems i by (cases "i = j") auto
  next
    case (load fresh x0 j)
    then show ?thesis using IH step.prems ld_routine_bar [OF load(6)] by simp
  next
    case (slot j b)
    then show ?thesis using IH step.prems barrier_step_gone [OF slot(4)] by auto
  next
    case (wake j b)
    then show ?thesis using IH step.prems i barrier_step_gone [OF wake(4), of i] by (auto simp: resumed_def at_slot_def nth_list_update)
  next
    case (detach j b)
    then show ?thesis using IH step.prems i barrier_step_gone [OF detach(4), of i] by (auto simp: stopped_def nth_list_update)
  next
    case (timer b)
    then show ?thesis using IH step.prems barrier_step_gone [OF timer(3)] by auto
  next
    case (halt b)
    then show ?thesis using IH step.prems barrier_step_gone [OF halt(5)] by auto
  qed
qed

lemma os_run_append: "os_run cf fs s' es' s'' \<Longrightarrow> os_run cf fs s es s' \<Longrightarrow> os_run cf fs s (es @ es') s''"
proof (induction rule: os_run.induct)
  case (step es' s1 e s2)
  from os_run.step [OF step.IH [OF step.prems] step.hyps(2)] show ?case by simp
qed simp

text \<open>
  C21. A processor that finds no process in the first \<open>get_proc\<close> goes on to the next slot without a look
  at \<open>done\<close>. So if a processor is idle when all processes are loaded and have finished, then in every
  continuation of the run it stays so: it never ends, the timer thread never ends either, and
  \<open>main\<close> never comes to the end of \<open>stop_timer\<close>.
\<close>

theorem idle_never_ends:
  assumes "sizes_ok cf" and "os_run cf fs (boot cf) es s" and "\<forall>e \<in> set es. event_ok e"
    and "nothing_to_do s i" and "os_run cf fs s es' s'" and "\<forall>e \<in> set es'. event_ok e"
  shows "nothing_to_do s' i \<and> cpc (cpus s' ! i) \<noteq> Stopped \<and> tpc (bar s') \<noteq> Ended
    \<and> stop_timer (tm (bar s'), tpc (bar s')) = None"
proof -
  have inv: "os_inv cf s" using os_run_inv [OF assms(2) boot_inv [OF assms(1)] assms(3)] .
  have idle: "nothing_to_do s' i" using assms(5,4,6) inv
  proof (induction rule: os_run.induct)
    case (step es s1 e s2)
    then have "os_inv cf s1" "nothing_to_do s1 i" using os_run_inv [OF step.hyps(1)] by auto
    then show ?case using idle_step [OF step.hyps(2)] by blast
  qed simp
  then have i: "i < length (cpus s')" and pc: "cpc (cpus s' ! i) \<noteq> Stopped" by (auto simp: nothing_to_do_def)
  have run: "os_run cf fs (boot cf) (es @ es') s'" by (rule os_run_append [OF assms(5,2)])
  obtain t where t: "barrier_run (num_devs cf) (bar s') t (wakes (es @ es'))" "length (cpus s') = nat (num_cpus cf)"
    using os_run_bar [OF run] by blast
  have "tpc (bar s') \<noteq> Ended"
  proof
    assume "tpc (bar s') = Ended"
    then have "dpc (bar s') i = Gone"
      using barrier_invD(3) [OF barrier_run_inv [OF t(1)]] i t(2) by (simp add: loop_ok_def num_devs_def)
    then show False using gone_stopped [OF run i] pc by simp
  qed
  then show ?thesis using idle pc by (simp add: stop_timer_def)
qed


theorem idle_never_ends_witness:
  "\<exists>s. os_run (demo_cf\<lparr>num_processes := 0\<rparr>) demo_fs (boot (demo_cf\<lparr>num_processes := 0\<rparr>)) [Loader_Step] s
    \<and> nothing_to_do s 0 \<and> all_loaded s \<and> tpc (bar s) \<noteq> Ended"
proof -
  let ?cf = "demo_cf\<lparr>num_processes := 0\<rparr>" and ?j = "\<lambda>_. \<lparr>opcode = CALC, arg_0 = 0, arg_1 = 0, arg_2 = 0, arg_3 = 0\<rparr>"
  let ?s = "(boot ?cf)\<lparr>all_loaded := True, ld := loader_start\<lparr>lpc := Ld_Leave\<rparr>\<rparr>"
  have sz: "sizes_ok ?cf" using demo_sizes by (simp add: sizes_ok_def)
  have l: "ld_routine ?cf demo_fs 1 (sample_pcb 0 0 0) ?j (boot ?cf) = Inr (Some ?s)"
    by (simp add: ld_routine_def boot_def loader_start_def)
  have "os_step ?cf demo_fs (boot ?cf) Loader_Step ?s"
    by (rule os_step.load [OF _ _ _ _ l]) (simp_all add: boot_def loader_start_def sample_pcb_def)
  from os_run.step [OF os_run.start this] have r: "os_run ?cf demo_fs (boot ?cf) [Loader_Step] ?s" by simp
  have "os_inv ?cf (boot ?cf)" by (rule boot_inv [OF sz])
  have "level (sched (kernel (boot ?cf))) l = []" if "l < MAX_PRIO" for l
    using that by (simp add: level_def boot_def init_scheduler_def static_sched_def q_list_def)
  then have "all_ready (sched (kernel (boot ?cf))) = {#}" by (simp add: all_ready_empty)
  moreover have "cpus (boot ?cf) = [cpu_start]" by (simp add: boot_def demo_cf_def)
  ultimately have idle: "nothing_to_do ?s 0" by (simp add: nothing_to_do_def cpus_hold_def holds_def cpu_start_def)
  have ok: "\<forall>e \<in> set [Loader_Step]. event_ok e" "\<forall>e \<in> set []. event_ok e" by simp_all
  show ?thesis using idle_never_ends [OF sz r ok(1) idle os_run.start ok(2)] r idle by auto
qed

end
