(* ===== verification/Frame_List.thy ===== *)
theory Frame_List
  imports Memphy
begin

text \<open>
  The list of free frames of \<^verbatim>\<open>src/mm-memphy.c\<close> at the level of its nodes: a heap of
  \<open>framephy_struct\<close>s that point to each other. The theory shows that the operations on nodes
  implement the list operations of \<open>Memphy\<close>, and what becomes of them when two threads ask for a
  frame at the same time: with \<open>mmvm_lock\<close> held the requests are served one after the other, but
  the read path of \<^verbatim>\<open>src/libmem.c\<close> does not take the lock.
\<close>

section \<open>Nodes\<close>

text \<open>
  A pointer that was never written is \<open>None\<close>. The field \<open>owner\<close> is neither written nor read.
\<close>

record framephy_struct =
  nd_fpn :: addr
  nd_next :: "ptr option"

record frame_list =
  fp_head :: "ptr option"
  nodes :: "ptr \<rightharpoonup> framephy_struct"

text \<open>
  \<open>MEMPHY_get_freefp\<close>, one step per statement. The arguments are the values of the locals \<open>fp\<close> and
  \<open>*retfpn\<close>. A second \<open>free\<close> of a node is a use of a dangling pointer.
\<close>

datatype get_pc = Load_Head | Test ptr | Take_Fpn ptr | Unlink ptr addr | Free_Node ptr addr
  | Got "addr option"

fun get_step :: "frame_list \<Rightarrow> get_pc \<Rightarrow> (frame_list \<times> get_pc) res" where
  "get_step P Load_Head = (case fp_head P of None \<Rightarrow> Inl Uninit_Read | Some fp \<Rightarrow> Inr (P, Test fp))"
| "get_step P (Test fp) = Inr (P, if fp = NULL then Got None else Take_Fpn fp)"
| "get_step P (Take_Fpn fp) = (case nodes P fp of
      None \<Rightarrow> Inl Dangling | Some n \<Rightarrow> Inr (P, Unlink fp (nd_fpn n)))"
| "get_step P (Unlink fp f) = (case nodes P fp of
      None \<Rightarrow> Inl Dangling | Some n \<Rightarrow> Inr (P\<lparr>fp_head := nd_next n\<rparr>, Free_Node fp f))"
| "get_step P (Free_Node fp f) = (case nodes P fp of
      None \<Rightarrow> Inl Dangling | Some n \<Rightarrow> Inr (P\<lparr>nodes := (nodes P)(fp := None)\<rparr>, Got (Some f)))"
| "get_step P (Got r) = Inr (P, Got r)"

primrec get_rank :: "get_pc \<Rightarrow> nat" where
  "get_rank Load_Head = 5"
| "get_rank (Test fp) = 4"
| "get_rank (Take_Fpn fp) = 3"
| "get_rank (Unlink fp f) = 2"
| "get_rank (Free_Node fp f) = 1"
| "get_rank (Got r) = 0"

lemma get_step_rank: "get_step P c = Inr (P', c') \<Longrightarrow> \<forall>r. c \<noteq> Got r \<Longrightarrow> get_rank c' < get_rank c"
  by (cases c) (auto split: option.splits)

text \<open>The statements one after the other, from \<open>c\<close> on.\<close>

function get_from :: "frame_list \<Rightarrow> get_pc \<Rightarrow> (addr option \<times> frame_list) res" where
  "get_from P c = (case c of Got r \<Rightarrow> Inr (r, P)
     | _ \<Rightarrow> rbind (get_step P c) (\<lambda>(P, c). get_from P c))"
  by pat_completeness auto
termination
  by (relation "measure (\<lambda>(P, c). get_rank c)") (auto split: option.splits if_splits)

declare get_from.simps [simp del]

definition node_get :: "frame_list \<Rightarrow> (addr option \<times> frame_list) res" where
  "node_get P = get_from P Load_Head"

text \<open>\<open>MEMPHY_put_freefp\<close>; \<open>a\<close> is the node that \<open>malloc\<close> returns.\<close>

definition node_put :: "frame_list \<Rightarrow> ptr \<Rightarrow> addr \<Rightarrow> frame_list" where
  "node_put P a f =
     (let fp = fp_head P in
      P\<lparr>nodes := (nodes P)(a \<mapsto> \<lparr>nd_fpn = f, nd_next = fp\<rparr>), fp_head := Some a\<rparr>)"

text \<open>
  \<open>MEMPHY_format\<close>; the nodes \<open>malloc\<close> returns are given, one for each frame. In the loop the new
  node is complete, but the link of the first one is written only when there is a second.
\<close>

fun format_loop :: "(ptr \<rightharpoonup> framephy_struct) \<Rightarrow> ptr \<Rightarrow> nat \<Rightarrow> ptr list \<Rightarrow> (ptr \<rightharpoonup> framephy_struct) res" where
  "format_loop N fst' iter [] = Inr N"
| "format_loop N fst' iter (a # as) =
     (let N = N(a \<mapsto> \<lparr>nd_fpn = word_of_nat iter, nd_next = Some NULL\<rparr>) in
      case N fst' of None \<Rightarrow> Inl Dangling
      | Some x \<Rightarrow> format_loop (N(fst' \<mapsto> x\<lparr>nd_next := Some a\<rparr>)) a (iter + 1) as)"

definition node_format :: "frame_list \<Rightarrow> ptr list \<Rightarrow> (int \<times> frame_list) res" where
  "node_format P as = (case as of
      [] \<Rightarrow> Inr (-1, P)
    | a # as \<Rightarrow>
        rbind (format_loop ((nodes P)(a \<mapsto> \<lparr>nd_fpn = 0, nd_next = None\<rparr>)) a 1 as) (\<lambda>N.
          Inr (0, P\<lparr>fp_head := Some a, nodes := N\<rparr>)))"

section \<open>The list the nodes stand for\<close>

text \<open>
  From the pointer \<open>h\<close> the nodes \<open>ps\<close> are linked, and hold the frames \<open>fs\<close>. The last link is
  \<open>NULL\<close>, or was never written if not \<open>t\<close>.
\<close>

fun chain :: "(ptr \<rightharpoonup> framephy_struct) \<Rightarrow> ptr option \<Rightarrow> ptr list \<Rightarrow> addr list \<Rightarrow> bool \<Rightarrow> bool" where
  "chain N h (p # ps) (f # fs) t \<longleftrightarrow> h = Some p \<and> p \<noteq> NULL \<and> p \<notin> set ps
     \<and> (\<exists>n. N p = Some n \<and> nd_fpn n = f \<and> chain N (nd_next n) ps fs t)"
| "chain N h [] [] t \<longleftrightarrow> h = (if t then Some NULL else None)"
| "chain N h _ _ t \<longleftrightarrow> False"

definition list_of :: "frame_list \<Rightarrow> memphy_struct \<Rightarrow> bool" where
  "list_of P d \<longleftrightarrow> (\<exists>ps. chain (nodes P) (fp_head P) ps (free_fp_list d) (fp_term d))"

lemma list_ofI: "chain (nodes P) (fp_head P) ps (free_fp_list d) (fp_term d) \<Longrightarrow> list_of P d"
  unfolding list_of_def by blast

lemma chain_length: "chain N h ps fs t \<Longrightarrow> length ps = length fs"
  by (induction N h ps fs t rule: chain.induct) auto

lemma chain_outside: "p \<notin> set ps \<Longrightarrow> chain (N(p := x)) h ps fs t = chain N h ps fs t"
  by (induction N h ps fs t rule: chain.induct) auto

lemma chain_nodes: "chain N h ps fs t \<Longrightarrow> p \<in> set ps \<Longrightarrow> p \<noteq> NULL \<and> N p \<noteq> None"
  by (induction N h ps fs t rule: chain.induct) auto

lemma chain_empty: "chain N h ps [] t \<longleftrightarrow> ps = [] \<and> h = (if t then Some NULL else None)"
  by (cases ps) auto

lemma chain_cons:
  "chain N h ps (f # fs) t \<longleftrightarrow> (\<exists>p ps' n. ps = p # ps' \<and> h = Some p \<and> p \<noteq> NULL \<and> p \<notin> set ps'
     \<and> N p = Some n \<and> nd_fpn n = f \<and> chain N (nd_next n) ps' fs t)"
  by (cases ps) auto

lemma node_get_chain:
  assumes "chain (nodes P) (fp_head P) ps fs t"
  shows "case fs of
      [] \<Rightarrow> node_get P = (if t then Inr (None, P) else Inl Uninit_Read)
    | f # fs' \<Rightarrow> \<exists>P'. node_get P = Inr (Some f, P') \<and> chain (nodes P') (fp_head P') (tl ps) fs' t"
proof (cases fs)
  case Nil
  then show ?thesis using assms by (simp add: chain_empty node_get_def get_from.simps)
next
  case (Cons f fs')
  then obtain p ps' n where p: "ps = p # ps'" "fp_head P = Some p" "p \<noteq> NULL" "p \<notin> set ps'"
      "nodes P p = Some n" "nd_fpn n = f" "chain (nodes P) (nd_next n) ps' fs' t"
    using assms by (auto simp: chain_cons)
  then show ?thesis using Cons by (simp add: node_get_def get_from.simps chain_outside)
qed

lemma node_put_chain:
  assumes "chain (nodes P) (fp_head P) ps fs t" and "a \<noteq> NULL" and "nodes P a = None"
  shows "chain (nodes (node_put P a f)) (fp_head (node_put P a f)) (a # ps) (f # fs) t"
proof -
  have "a \<notin> set ps" using chain_nodes [OF assms(1), of a] assms(3) by auto
  then show ?thesis using assms by (simp add: node_put_def chain_outside)
qed

text \<open>The loop of \<open>MEMPHY_format\<close> hangs the remaining nodes behind the last one.\<close>

lemma format_loop_chain:
  assumes "distinct (a # as)" and "NULL \<notin> set as" and "N a = Some x"
    and "as = [] \<longrightarrow> nd_next x = (if t then Some NULL else None)" and "as \<noteq> [] \<longrightarrow> t"
  shows "\<exists>N' y. format_loop N a i as = Inr N' \<and> N' a = Some y \<and> nd_fpn y = nd_fpn x
     \<and> chain N' (nd_next y) as (map word_of_nat [i..<i + length as]) t \<and> (\<forall>p. p \<notin> set (a # as) \<longrightarrow> N' p = N p)"
  using assms
proof (induction as arbitrary: N a x i)
  case (Cons b as)
  define z where "z = \<lparr>nd_fpn = word_of_nat i :: addr, nd_next = Some NULL\<rparr>"
  define M where "M = N(b \<mapsto> z, a \<mapsto> x\<lparr>nd_next := Some b\<rparr>)"
  have "a \<noteq> b" and t: t and step: "format_loop N a i (b # as) = format_loop M b (i + 1) as"
    and M: "M a = Some (x\<lparr>nd_next := Some b\<rparr>)" "M b = Some z" "\<And>p. p \<noteq> a \<Longrightarrow> p \<noteq> b \<Longrightarrow> M p = N p"
    using Cons.prems by (auto simp: Let_def M_def z_def)
  have "\<exists>N' y. format_loop M b (i + 1) as = Inr N' \<and> N' b = Some y \<and> nd_fpn y = nd_fpn z
     \<and> chain N' (nd_next y) as (map word_of_nat [i + 1..<i + 1 + length as]) t
     \<and> (\<forall>p. p \<notin> set (b # as) \<longrightarrow> N' p = M p)"
    by (rule Cons.IH) (use Cons.prems t M in \<open>simp_all add: z_def\<close>)
  then obtain N' y where N': "format_loop M b (i + 1) as = Inr N'" "N' b = Some y" "nd_fpn y = nd_fpn z"
      "chain N' (nd_next y) as (map word_of_nat [i + 1..<i + 1 + length as]) t"
      "\<forall>p. p \<notin> set (b # as) \<longrightarrow> N' p = M p"
    by blast
  have "[i..<i + length (b # as)] = i # [i + 1..<i + 1 + length as]"
    by (simp add: upt_rec)
  then have "chain N' (Some b) (b # as) (map word_of_nat [i..<i + length (b # as)]) t"
    using N'(2,3,4) Cons.prems(1,2) by (simp add: z_def del: upt_Suc)
  moreover have "N' a = Some (x\<lparr>nd_next := Some b\<rparr>)" using N'(5) M(1) Cons.prems(1) by simp
  moreover have "\<forall>p. p \<notin> set (a # b # as) \<longrightarrow> N' p = N p" using N'(5) M(3) by simp
  ultimately show ?case using step N'(1) by simp
qed simp

section \<open>Threads\<close>

text \<open>
  Threads that ask for frames. A thread of \<open>locked\<close> does so under \<open>mmvm_lock\<close>, as \<open>__write\<close>,
  \<open>__alloc\<close> and \<open>__free\<close> do; \<open>__read\<close> takes no lock. The statements of different threads interleave;
  each is taken to be atomic, which favours the code.
\<close>

record request_sys =
  flist :: frame_list
  holder :: "nat option"
  pcs :: "nat \<Rightarrow> get_pc option"

inductive request_step :: "(nat \<Rightarrow> bool) \<Rightarrow> request_sys \<Rightarrow> (nat \<times> addr option) list \<Rightarrow> request_sys \<Rightarrow> bool"
    for locked where
  lock: "pcs s i = None \<Longrightarrow> locked i \<Longrightarrow> holder s = None \<Longrightarrow>
     request_step locked s [] (s\<lparr>holder := Some i, pcs := (pcs s)(i \<mapsto> Load_Head)\<rparr>)"
| no_lock: "pcs s i = None \<Longrightarrow> \<not> locked i \<Longrightarrow>
     request_step locked s [] (s\<lparr>pcs := (pcs s)(i \<mapsto> Load_Head)\<rparr>)"
| work: "pcs s i = Some c \<Longrightarrow> \<forall>r. c \<noteq> Got r \<Longrightarrow> get_step (flist s) c = Inr (P, c') \<Longrightarrow>
     request_step locked s [] (s\<lparr>flist := P, pcs := (pcs s)(i \<mapsto> c')\<rparr>)"
| return: "pcs s i = Some (Got r) \<Longrightarrow>
     request_step locked s [(i, r)] (s\<lparr>holder := (if locked i then None else holder s), pcs := (pcs s)(i := None)\<rparr>)"

text \<open>A run, with the frames in the order in which they are returned.\<close>

inductive request_run :: "(nat \<Rightarrow> bool) \<Rightarrow> request_sys \<Rightarrow> (nat \<times> addr option) list \<Rightarrow> request_sys \<Rightarrow> bool"
    for locked where
  refl: "request_run locked s [] s"
| step: "request_run locked s gs s' \<Longrightarrow> request_step locked s' g s'' \<Longrightarrow> request_run locked s (gs @ g) s''"

definition quiet :: "frame_list \<Rightarrow> request_sys" where
  "quiet P = \<lparr>flist = P, holder = None, pcs = (\<lambda>_. None)\<rparr>"

definition frames_got :: "(nat \<times> addr option) list \<Rightarrow> addr list" where
  "frames_got gs = concat (map (\<lambda>(i, r). case r of None \<Rightarrow> [] | Some f \<Rightarrow> [f]) gs)"


section \<open>With the lock\<close>

text \<open>
  What a thread inside the critical section knows: \<open>fs\<close> is the list as long as its own frame, if
  it has one already, is not in it any more.
\<close>

fun at_ok :: "frame_list \<Rightarrow> addr list \<Rightarrow> get_pc \<Rightarrow> bool" where
  "at_ok P fs Load_Head = (\<exists>ps. chain (nodes P) (fp_head P) ps fs True)"
| "at_ok P fs (Test p) = (\<exists>ps. chain (nodes P) (fp_head P) ps fs True \<and> fp_head P = Some p)"
| "at_ok P fs (Take_Fpn p) = (\<exists>ps. chain (nodes P) (fp_head P) (p # ps) fs True)"
| "at_ok P fs (Unlink p f) = (\<exists>ps fs'. fs = f # fs' \<and> chain (nodes P) (fp_head P) (p # ps) fs True)"
| "at_ok P fs (Free_Node p f) = (\<exists>ps fs'. fs = f # fs' \<and> nodes P p \<noteq> None \<and> p \<notin> set ps
     \<and> chain (nodes P) (fp_head P) ps fs' True)"
| "at_ok P fs (Got None) = (fs = [] \<and> chain (nodes P) (fp_head P) [] [] True)"
| "at_ok P fs (Got (Some f)) = (\<exists>ps fs'. fs = f # fs' \<and> chain (nodes P) (fp_head P) ps fs' True)"

lemma at_ok_step:
  assumes "at_ok P fs c"
  shows "returns (get_step P c) (\<lambda>(P', c'). at_ok P' fs c')"
proof (cases c)
  case Load_Head
  then obtain ps where "chain (nodes P) (fp_head P) ps fs True" using assms by auto
  then show ?thesis using Load_Head by (cases fs) (auto simp: chain_empty chain_cons)
next
  case (Test p)
  then obtain ps where "chain (nodes P) (fp_head P) ps fs True" "fp_head P = Some p" using assms by auto
  then show ?thesis using Test by (cases fs) (auto simp: chain_empty chain_cons)
next
  case (Take_Fpn p)
  then obtain ps where "chain (nodes P) (fp_head P) (p # ps) fs True" using assms by auto
  then show ?thesis using Take_Fpn by (cases fs) auto
next
  case (Free_Node p f)
  then obtain ps fs' where f: "fs = f # fs'" "nodes P p \<noteq> None" "p \<notin> set ps"
      "chain (nodes P) (fp_head P) ps fs' True" using assms by auto
  then have "chain ((nodes P)(p := None)) (fp_head P) ps fs' True" by (simp add: chain_outside)
  then show ?thesis using Free_Node f by auto
qed (use assms in \<open>auto simp: chain_empty chain_cons split: option.splits\<close>)

definition locked_inv :: "addr list \<Rightarrow> request_sys \<Rightarrow> (nat \<times> addr option) list \<Rightarrow> bool" where
  "locked_inv fs s gs \<longleftrightarrow> (\<exists>rest. fs = frames_got gs @ rest
     \<and> (\<forall>j r. (j, r) \<in> set gs \<longrightarrow> r = None \<longrightarrow> rest = [])
     \<and> (case holder s of
          None \<Rightarrow> (\<forall>j. pcs s j = None) \<and> (\<exists>ps. chain (nodes (flist s)) (fp_head (flist s)) ps rest True)
        | Some i \<Rightarrow> (\<forall>j. j \<noteq> i \<longrightarrow> pcs s j = None) \<and> (\<exists>c. pcs s i = Some c \<and> at_ok (flist s) rest c)))"

lemma frames_got_append [simp]:
  "frames_got [] = []" "frames_got (gs @ hs) = frames_got gs @ frames_got hs"
  "frames_got [(i, r)] = (case r of None \<Rightarrow> [] | Some f \<Rightarrow> [f])"
  by (simp_all add: frames_got_def)

lemma locked_inv_at:
  assumes "locked_inv fs s gs" and "pcs s i = Some c"
  obtains rest where "fs = frames_got gs @ rest" "\<forall>j r. (j, r) \<in> set gs \<longrightarrow> r = None \<longrightarrow> rest = []"
    "holder s = Some i" "\<forall>j. j \<noteq> i \<longrightarrow> pcs s j = None" "at_ok (flist s) rest c"
proof (cases "holder s")
  case None
  then show ?thesis using assms unfolding locked_inv_def by auto
next
  case (Some k)
  then have "k = i" using assms unfolding locked_inv_def by auto
  then show ?thesis using assms Some that unfolding locked_inv_def by auto
qed

lemma locked_step:
  assumes "request_step (\<lambda>_. True) s g s'" and "locked_inv fs s gs"
  shows "locked_inv fs s' (gs @ g)"
  using assms
proof (cases rule: request_step.cases)
  case (lock i)
  then show ?thesis using assms(2) unfolding locked_inv_def by auto
next
  case (no_lock i)
  then show ?thesis by simp
next
  case (work i c P c')
  obtain rest where r: "fs = frames_got gs @ rest" "\<forall>j r. (j, r) \<in> set gs \<longrightarrow> r = None \<longrightarrow> rest = []"
      "holder s = Some i" "\<forall>j. j \<noteq> i \<longrightarrow> pcs s j = None" "at_ok (flist s) rest c"
    using locked_inv_at [OF assms(2) work(3)] .
  have "at_ok P rest c'" using at_ok_step [OF r(5)] work(5) by simp
  then show ?thesis using r work by (auto simp: locked_inv_def)
next
  case (return i r)
  obtain rest where q: "fs = frames_got gs @ rest" "\<forall>j r. (j, r) \<in> set gs \<longrightarrow> r = None \<longrightarrow> rest = []"
      "holder s = Some i" "\<forall>j. j \<noteq> i \<longrightarrow> pcs s j = None" "at_ok (flist s) rest (Got r)"
    using locked_inv_at [OF assms(2) return(3)] .
  show ?thesis
  proof (cases r)
    case None
    then show ?thesis using q return by (auto simp: locked_inv_def intro!: exI [of _ "[]"])
  next
    case (Some f)
    then obtain ps rest' where "rest = f # rest'" "chain (nodes (flist s)) (fp_head (flist s)) ps rest' True"
      using q(5) by auto
    then show ?thesis using q Some return by (auto simp: locked_inv_def intro!: exI [of _ rest'])
  qed
qed

lemma locked_run:
  assumes "request_run (\<lambda>_. True) s gs s'" and "locked_inv fs s []"
  shows "locked_inv fs s' gs"
  using assms by (induction rule: request_run.induct) (auto intro: locked_step)

lemma locked_inv_quiet:
  "chain (nodes P) (fp_head P) ps fs True \<Longrightarrow> locked_inv fs (quiet P) []"
  by (auto simp: locked_inv_def quiet_def)

section \<open>Schedules\<close>

text \<open>The step that thread \<open>i\<close> makes when it is its turn, and a schedule of turns.\<close>

definition turn :: "(nat \<Rightarrow> bool) \<Rightarrow> request_sys \<Rightarrow> nat \<Rightarrow> ((nat \<times> addr option) list \<times> request_sys) option" where
  "turn locked s i = (case pcs s i of
      None \<Rightarrow>
        if \<not> locked i then Some ([], s\<lparr>pcs := (pcs s)(i \<mapsto> Load_Head)\<rparr>)
        else if holder s = None then Some ([], s\<lparr>holder := Some i, pcs := (pcs s)(i \<mapsto> Load_Head)\<rparr>)
        else None
    | Some (Got r) \<Rightarrow>
        Some ([(i, r)], s\<lparr>holder := (if locked i then None else holder s), pcs := (pcs s)(i := None)\<rparr>)
    | Some c \<Rightarrow> (case get_step (flist s) c of
          Inl e \<Rightarrow> None
        | Inr (P, c') \<Rightarrow> Some ([], s\<lparr>flist := P, pcs := (pcs s)(i \<mapsto> c')\<rparr>)))"

fun turns :: "(nat \<Rightarrow> bool) \<Rightarrow> (nat \<times> addr option) list \<Rightarrow> request_sys \<Rightarrow> nat list
    \<Rightarrow> ((nat \<times> addr option) list \<times> request_sys) option" where
  "turns locked gs s [] = Some (gs, s)"
| "turns locked gs s (i # is) = (case turn locked s i of
      None \<Rightarrow> None | Some (g, s') \<Rightarrow> turns locked (gs @ g) s' is)"

lemma return_cases:
  assumes "pcs s i = Some (Got r)"
  shows "locked i \<Longrightarrow> request_step locked s [(i, r)] (s\<lparr>holder := None, pcs := (pcs s)(i := None)\<rparr>)"
    and "\<not> locked i \<Longrightarrow> request_step locked s [(i, r)] (s\<lparr>pcs := (pcs s)(i := None)\<rparr>)"
  using request_step.return [of s i r locked, OF assms] by simp_all

lemma turn_step: "turn locked s i = Some (g, s') \<Longrightarrow> request_step locked s g s'"
  unfolding turn_def
  by (auto split: option.splits if_splits get_pc.splits sum.splits
      simp del: get_step.simps intro: request_step.intros return_cases)

lemma turns_run:
  "request_run locked s0 gs s \<Longrightarrow> turns locked gs s is = Some (hs, s') \<Longrightarrow> request_run locked s0 hs s'"
  by (induction "is" arbitrary: gs s)
    (auto split: option.splits dest: turn_step intro: request_run.step)

section \<open>Properties\<close>

text \<open>
  C33. The nodes implement the lists: requesting a frame, giving one back and formatting a device do
  to the nodes what they do to the list of frame numbers that stands for them in all other
  theorems, with the same results and the same faults; \<open>malloc\<close> may return any fresh nodes.
\<close>

theorem frame_nodes_refine:
  assumes "list_of P d"
  shows "(case MEMPHY_get_freefp d of
       Inl e \<Rightarrow> node_get P = Inl e
     | Inr (r, d') \<Rightarrow> returns (node_get P) (\<lambda>(r', P'). r' = r \<and> list_of P' d'))
   \<and> (\<forall>a f. a \<noteq> NULL \<longrightarrow> nodes P a = None \<longrightarrow> list_of (node_put P a f) (MEMPHY_put_freefp d f))
   \<and> (\<forall>as sz. distinct as \<longrightarrow> NULL \<notin> set as \<longrightarrow> length as = nat (maxsz d div sz) \<longrightarrow>
        returns (node_format P as) (\<lambda>(r, P'). r = fst (MEMPHY_format d sz) \<and> list_of P' (snd (MEMPHY_format d sz))))"
proof (intro conjI allI impI)
  obtain ps where c: "chain (nodes P) (fp_head P) ps (free_fp_list d) (fp_term d)"
    using assms by (auto simp: list_of_def)
  show "case MEMPHY_get_freefp d of Inl e \<Rightarrow> node_get P = Inl e
     | Inr (r, d') \<Rightarrow> returns (node_get P) (\<lambda>(r', P'). r' = r \<and> list_of P' d')"
    using node_get_chain [OF c] assms
    by (cases "free_fp_list d") (auto simp: MEMPHY_get_freefp_def list_of_def)
  show "list_of (node_put P a f) (MEMPHY_put_freefp d f)" if "a \<noteq> NULL" "nodes P a = None" for a f
    by (rule list_ofI [of _ "a # ps"]) (use node_put_chain [OF c that, of f] in \<open>simp add: MEMPHY_put_freefp_def del: chain.simps\<close>)
  fix as sz
  assume as: "distinct as" "NULL \<notin> set as" "length as = nat (maxsz d div sz)"
  show "returns (node_format P as) (\<lambda>(r, P'). r = fst (MEMPHY_format d sz) \<and> list_of P' (snd (MEMPHY_format d sz)))"
  proof (cases as)
    case Nil
    then show ?thesis using as(3) assms by (simp add: node_format_def MEMPHY_format_def)
  next
    case (Cons a bs)
    define x where "x = \<lparr>nd_fpn = 0 :: addr, nd_next = None\<rparr>"
    have "\<exists>N' y. format_loop ((nodes P)(a \<mapsto> x)) a 1 bs = Inr N' \<and> N' a = Some y \<and> nd_fpn y = nd_fpn x
       \<and> chain N' (nd_next y) bs (map word_of_nat [1..<1 + length bs]) (bs \<noteq> [])
       \<and> (\<forall>p. p \<notin> set (a # bs) \<longrightarrow> N' p = ((nodes P)(a \<mapsto> x)) p)"
      by (rule format_loop_chain) (use as Cons in \<open>simp_all add: x_def\<close>)
    then obtain N' y where N': "format_loop ((nodes P)(a \<mapsto> x)) a 1 bs = Inr N'" "N' a = Some y" "nd_fpn y = 0"
        "chain N' (nd_next y) bs (map word_of_nat [1..<1 + length bs]) (bs \<noteq> [])"
      unfolding x_def by auto
    have n: "nat (maxsz d div sz) = 1 + length bs" and "0 < maxsz d div sz" using as(3) Cons by auto
    moreover have "[0..<1 + length bs] = 0 # [1..<1 + length bs]" by (simp add: upt_rec)
    ultimately have "MEMPHY_format d sz = (0, d\<lparr>free_fp_list := 0 # map word_of_nat [1..<1 + length bs], fp_term := (bs \<noteq> [])\<rparr>)"
      by (simp add: MEMPHY_format_def del: upt_Suc) (cases bs; simp)
    moreover have "chain N' (Some a) (a # bs) (0 # map word_of_nat [1..<1 + length bs]) (bs \<noteq> [])"
      using N' as(1,2) Cons by simp
    moreover have "node_format P as = Inr (0, P\<lparr>fp_head := Some a, nodes := N'\<rparr>)"
      using N'(1) Cons by (simp add: x_def node_format_def)
    ultimately show ?thesis
      by (simp del: chain.simps upt_Suc) (rule list_ofI [of _ "a # bs"], simp del: chain.simps upt_Suc)
  qed
qed

text \<open>A device with one free frame, in node 7.\<close>

definition one_node :: frame_list where
  "one_node = \<lparr>fp_head = Some 7, nodes = [7 \<mapsto> \<lparr>nd_fpn = 4, nd_next = Some NULL\<rparr>]\<rparr>"

lemma one_node_chain: "chain (nodes one_node) (fp_head one_node) [7] [4] True"
  unfolding one_node_def by simp

theorem frame_nodes_refine_witness:
  "returns (node_get one_node) (\<lambda>(r, P). r = Some 4)"
proof -
  have "list_of one_node (uninit_memphy\<lparr>free_fp_list := [4], fp_term := True\<rparr>)"
    by (rule list_ofI [of _ "[7]"]) (use one_node_chain in \<open>simp del: chain.simps\<close>)
  from frame_nodes_refine [OF this] show ?thesis
    by (auto simp: MEMPHY_get_freefp_def elim!: returns_mono)
qed

text \<open>
  C7. When every thread takes \<open>mmvm_lock\<close>, the requests for frames are served one after the other,
  whatever the interleaving of their statements: the frames returned, in the order of the returns,
  are the first ones of the list, so no frame is given to two threads; a thread is sent away without
  a frame only when all were given; and no statement has a fault.
\<close>

theorem locked_requests_in_order:
  assumes "chain (nodes P) (fp_head P) ps fs True" and "request_run (\<lambda>_. True) (quiet P) gs s"
  shows "\<exists>rest. fs = frames_got gs @ rest \<and> (\<forall>i r. (i, r) \<in> set gs \<longrightarrow> r = None \<longrightarrow> rest = [])
     \<and> (\<forall>i c. pcs s i = Some c \<longrightarrow> returns (get_step (flist s) c) (\<lambda>_. True))"
proof -
  have inv: "locked_inv fs s gs" by (rule locked_run [OF assms(2) locked_inv_quiet [OF assms(1)]])
  then obtain rest where r: "fs = frames_got gs @ rest" "\<forall>i r. (i, r) \<in> set gs \<longrightarrow> r = None \<longrightarrow> rest = []"
    unfolding locked_inv_def by blast
  moreover have "returns (get_step (flist s) c) (\<lambda>_. True)" if "pcs s i = Some c" for i c
    using locked_inv_at [OF inv that] at_ok_step by (metis (no_types, lifting) returns_mono)
  ultimately show ?thesis by blast
qed

theorem locked_requests_in_order_witness:
  "\<exists>s. request_run (\<lambda>_. True) (quiet one_node) [(1, Some 4), (2, None)] s
     \<and> frames_got [(1 :: nat, Some 4), (2, None)] = [4 :: addr]"
proof -
  have "\<exists>s. turns (\<lambda>_. True) [] (quiet one_node) ([1, 1, 1, 1, 1, 1, 1] @ [2, 2, 2, 2]) = Some ([(1, Some 4), (2, None)], s)"
    by (simp add: turn_def quiet_def one_node_def)
  then obtain s where run: "request_run (\<lambda>_. True) (quiet one_node) [(1, Some 4), (2, None)] s"
    using turns_run [OF request_run.refl] by blast
  have "\<exists>rest. [4] = frames_got [(1 :: nat, Some 4), (2, None)] @ rest"
    using locked_requests_in_order [OF one_node_chain run] by blast
  with run show ?thesis by (auto simp: frames_got_def)
qed

text \<open>
  C8. Without the lock in \<open>__read\<close> the list of free frames can be corrupted. Whenever a frame is free,
  a read that has to bring in its page can interleave with a request of any other thread, lock or
  not, so that both take the same frame \<open>f\<close>: the other thread's request has returned it, and the
  reader's next statement frees the node a second time.
\<close>

theorem unlocked_read_double_free:
  assumes "chain (nodes P) (fp_head P) (p # ps) (f # fs) True" and "\<not> locked i" and "i \<noteq> j"
  shows "\<exists>s. request_run locked (quiet P) [(j, Some f)] s \<and> pcs s i = Some (Free_Node p f)
     \<and> get_step (flist s) (Free_Node p f) = Inl Dangling"
proof -
  obtain n where n: "fp_head P = Some p" "p \<noteq> NULL" "nodes P p = Some n" "nd_fpn n = f"
    using assms(1) by auto
  have "\<exists>s. turns locked [] (quiet P) ([i, i, i, i, j, j, j, j] @ [i, j, j, j]) = Some ([(j, Some f)], s)
     \<and> pcs s i = Some (Free_Node p f) \<and> nodes (flist s) p = None"
    using n assms(2,3) by (simp add: turn_def quiet_def)
  then obtain s where "turns locked [] (quiet P) ([i, i, i, i, j, j, j, j] @ [i, j, j, j]) = Some ([(j, Some f)], s)"
      "pcs s i = Some (Free_Node p f)" "nodes (flist s) p = None" by blast
  moreover have "request_run locked (quiet P) [(j, Some f)] s"
    using turns_run [OF request_run.refl calculation(1)] .
  ultimately show ?thesis by (intro exI [of _ s]) simp
qed

theorem unlocked_read_double_free_witness:
  "\<exists>s. request_run (\<lambda>i. i \<noteq> 1) (quiet one_node) [(2, Some 4)] s
     \<and> get_step (flist s) (Free_Node 7 4) = Inl Dangling"
  using unlocked_read_double_free [OF one_node_chain, of "\<lambda>i. i \<noteq> 1" 1 2] by auto

end
