(* ===== verification/Dump.thy ===== *)
theory Dump
  imports Memphy Scan
begin

text \<open>
  What the program prints: \<open>MEMPHY_dump\<close> of \<^verbatim>\<open>src/mm-memphy.c\<close>, which shows the content of a
  device, and the list printers of \<^verbatim>\<open>src/mm64.c\<close>. The output of a function is the string that its
  calls of \<open>printf\<close> write. The theory shows that a dump loses nothing of the content.
\<close>

section \<open>Formats\<close>

definition hex_digit :: "nat \<Rightarrow> nat \<Rightarrow> char" where
  "hex_digit ten d = char_of (if d < 10 then 48 + d else ten + (d - 10))"

fun hex :: "nat \<Rightarrow> nat \<Rightarrow> string" where
  "hex ten n = (if n < 16 then [hex_digit ten n] else hex ten (n div 16) @ [hex_digit ten (n mod 16)])"

declare hex.simps [simp del]

text \<open>At least \<open>w\<close> characters, filled up on the left. \<open>%0wX\<close>, \<open>%0wx\<close>, \<open>%d\<close> and \<open>%lu\<close>.\<close>

definition pad :: "char \<Rightarrow> nat \<Rightarrow> string \<Rightarrow> string" where
  "pad c w s = replicate (w - length s) c @ s"

definition fmt_X :: "nat \<Rightarrow> nat \<Rightarrow> string" where "fmt_X w n = pad (CHR ''0'') w (hex 65 n)"
definition fmt_x :: "nat \<Rightarrow> nat \<Rightarrow> string" where "fmt_x w n = pad (CHR ''0'') w (hex 97 n)"
definition fmt_d :: "int \<Rightarrow> string" where
  "fmt_d n = (if n < 0 then CHR ''-'' # dec (nat (- n)) else dec (nat n))"
definition fmt_lu :: "addr \<Rightarrow> string" where "fmt_lu w = dec (unat w)"

definition nl :: string where "nl = [CHR ''\<newline>'']"

text \<open>The output of a loop: that of its rounds, one after the other.\<close>

fun rconcat :: "('a \<Rightarrow> string res) \<Rightarrow> 'a list \<Rightarrow> string res" where
  "rconcat f [] = Inr []"
| "rconcat f (x # xs) = rbind (f x) (\<lambda>s. rbind (rconcat f xs) (\<lambda>t. Inr (s @ t)))"

lemma rconcat_Inr:
  "(\<And>x. x \<in> set xs \<Longrightarrow> f x = Inr (g x)) \<Longrightarrow> rconcat f xs = Inr (concat (map g xs))"
  by (induction xs) simp_all

section \<open>The dump of a device\<close>

text \<open>
  \<open>all_zero\<close>; it reads up to the first byte that is not zero. Addresses are not negative and stay
  below \<open>maxsz\<close>, an \<open>int\<close>, except for the last increment, which would overflow for a device within
  16 bytes of the largest \<open>int\<close>.
\<close>

fun zero_row :: "memphy_struct \<Rightarrow> nat \<Rightarrow> nat list \<Rightarrow> bool res" where
  "zero_row mp a [] = Inr True"
| "zero_row mp a (col # cols) =
     (if int (a + col) < maxsz mp then
        rbind (arr_get (storage mp) (a + col)) (\<lambda>v. if v \<noteq> 0 then Inr False else zero_row mp a cols)
      else Inr True)"

definition BYTES_PER_ROW :: nat where "BYTES_PER_ROW = 16"

text \<open>The three parts of a row: the address, the bytes in hexadecimal, and as characters.\<close>

definition hex_col :: "memphy_struct \<Rightarrow> nat \<Rightarrow> nat \<Rightarrow> string res" where
  "hex_col mp a col =
     rbind (if int (a + col) < maxsz mp
            then rbind (arr_get (storage mp) (a + col)) (\<lambda>v. Inr (fmt_X 2 (unat v) @ '' ''))
            else Inr ''   '') (\<lambda>s. Inr (s @ (if col = 7 then '' '' else [])))"

definition ascii_col :: "memphy_struct \<Rightarrow> nat \<Rightarrow> nat \<Rightarrow> string res" where
  "ascii_col mp a col =
     (if int (a + col) < maxsz mp
      then rbind (arr_get (storage mp) (a + col)) (\<lambda>c.
             Inr [if 32 \<le> unat c \<and> unat c < 127 then char_of (unat c) else CHR ''.''])
      else Inr [])"

definition dump_row :: "memphy_struct \<Rightarrow> nat \<Rightarrow> string res" where
  "dump_row mp a =
     rbind (rconcat (hex_col mp a) [0..<BYTES_PER_ROW]) (\<lambda>h.
     rbind (rconcat (ascii_col mp a) [0..<BYTES_PER_ROW]) (\<lambda>t.
       Inr ('' 0x'' @ fmt_X 4 a @ '' | '' @ h @ ''| '' @ t @ nl)))"

function dump_loop :: "memphy_struct \<Rightarrow> nat \<Rightarrow> string res" where
  "dump_loop mp a =
     (if int a < maxsz mp then
        rbind (zero_row mp a [0..<BYTES_PER_ROW]) (\<lambda>z.
        rbind (if z then Inr [] else dump_row mp a) (\<lambda>s.
        rbind (dump_loop mp (a + BYTES_PER_ROW)) (\<lambda>t. Inr (s @ t))))
      else Inr [])"
  by pat_completeness auto
termination by (relation "measure (\<lambda>(mp, a). nat (maxsz mp - int a))") (auto simp: BYTES_PER_ROW_def)

declare dump_loop.simps [simp del]

text \<open>The status and the output; \<open>None\<close> is a \<open>NULL\<close> device.\<close>

definition MEMPHY_dump :: "memphy_struct option \<Rightarrow> (int \<times> string) res" where
  "MEMPHY_dump d = (case d of
      None \<Rightarrow> Inr (-1, ''[MEMPHY_dump] NULL physical memory'' @ nl)
    | Some mp \<Rightarrow>
        rbind (dump_loop mp 0) (\<lambda>rows. Inr (0,
          nl @ ''====== MEMPHY DUMP (size='' @ fmt_d (maxsz mp) @ '' bytes) ======'' @ nl
          @ ''  ADDR  | 00 01 02 03 04 05 06 07  08 09 0A 0B 0C 0D 0E 0F | ASCII'' @ nl
          @ ''--------+--------------------------------------------------+-----------------'' @ nl
          @ rows @ ''====== END MEMPHY DUMP ======'' @ nl @ nl)))"

section \<open>The list printers\<close>

definition print_list_fp :: "addr list \<Rightarrow> int \<times> string" where
  "print_list_fp ifp =
     (if ifp = [] then (-1, ''print_list_fp: '' @ ''NULL list'' @ nl)
      else (0, ''print_list_fp: '' @ nl @ concat (map (\<lambda>f. ''fp['' @ fmt_lu f @ '']'' @ nl) ifp) @ nl))"

definition print_list_rg :: "vm_rg_struct list \<Rightarrow> int \<times> string" where
  "print_list_rg irg =
     (if irg = [] then (-1, ''print_list_rg: '' @ ''NULL list'' @ nl)
      else (0, ''print_list_rg: '' @ nl
        @ concat (map (\<lambda>r. ''rg['' @ fmt_lu (rg_start r) @ ''->'' @ fmt_lu (rg_end r) @ '']'' @ nl) irg) @ nl))"

definition print_list_vma :: "vm_area_struct list \<Rightarrow> int \<times> string" where
  "print_list_vma ivma =
     (if ivma = [] then (-1, ''print_list_vma: '' @ ''NULL list'' @ nl)
      else (0, ''print_list_vma: '' @ nl
        @ concat (map (\<lambda>v. ''va['' @ fmt_lu (vm_start v) @ ''->'' @ fmt_lu (vm_end v) @ '']'' @ nl) ivma) @ nl))"

definition print_list_pgn :: "addr list \<Rightarrow> int \<times> string" where
  "print_list_pgn ip =
     (if ip = [] then (-1, ''print_list_pgn: '' @ ''NULL list'' @ nl)
      else (0, ''print_list_pgn: '' @ concat (map (\<lambda>p. ''va['' @ fmt_lu p @ '']-'' @ nl) ip) @ nl))"

text \<open>
  \<open>print_pgtbl\<close>, given the addresses of the four directories of the process, or none when \<open>caller\<close>,
  \<open>krnl\<close> or \<open>mm\<close> is \<open>NULL\<close>. The range is not used. \<open>%16p\<close> is right-aligned, and a null pointer
  prints as \<open>(nil)\<close>.
\<close>

definition fmt_p :: "addr \<Rightarrow> string" where
  "fmt_p p = pad (CHR '' '') 16 (if p = 0 then ''(nil)'' else ''0x'' @ hex 97 (unat p))"

definition print_pgtbl :: "(addr \<times> addr \<times> addr \<times> addr) option \<Rightarrow> int \<times> string" where
  "print_pgtbl dirs = (case dirs of
      None \<Rightarrow> (-1, [])
    | Some (d1, d2, d3, d4) \<Rightarrow> (0, ''print_pgtbl:'' @ nl @ '' PDG='' @ fmt_p d1 @ '' P4g='' @ fmt_p d2
        @ '' PUD='' @ fmt_p d3 @ '' PMD='' @ fmt_p d4 @ nl))"

section \<open>Reading numerals back\<close>

definition hex_val :: "string \<Rightarrow> nat" where
  "hex_val ds = foldl (\<lambda>n c. 16 * n + (let k = of_char c in if k < 58 then k - 48 else k - 55)) 0 ds"

lemma hex_digit_val [simp]: "d < 16 \<Longrightarrow> hex_val [hex_digit 65 d] = d"
  by (auto simp: hex_val_def hex_digit_def Let_def)

lemma hex_val_snoc: "hex_val (ds @ [c]) = 16 * hex_val ds + hex_val [c]"
  by (simp add: hex_val_def)

lemma hex_val_hex [simp]: "hex_val (hex 65 n) = n"
proof (induction "65 :: nat" n rule: hex.induct)
  case (1 n)
  then show ?case by (subst hex.simps) (auto simp: hex_val_snoc)
qed

lemma hex_val_zeros: "hex_val (replicate k (CHR ''0'') @ ds) = hex_val ds"
  by (induction k) (simp_all add: hex_val_def)

lemma fmt_X_val [simp]: "hex_val (fmt_X w n) = n"
  by (simp add: fmt_X_def pad_def hex_val_zeros)

lemma hex_digit_char: "ten \<in> {65, 97} \<Longrightarrow> d < 16 \<Longrightarrow> hex_digit ten d \<noteq> CHR '' ''"
proof -
  assume "ten \<in> {65, 97}" and "d < 16"
  then have "of_char (hex_digit ten d) \<noteq> (of_char (CHR '' '') :: nat)" by (auto simp: hex_digit_def)
  then show ?thesis by metis
qed

lemma hex_no_space: "CHR '' '' \<notin> set (hex 65 n)"
proof (induction "65 :: nat" n rule: hex.induct)
  case (1 n)
  then show ?case using hex_digit_char [of 65 n] hex_digit_char [of 65 "n mod 16"]
    by (subst hex.simps) auto
qed

lemma fmt_X_no_space: "CHR '' '' \<notin> set (fmt_X w n)"
  using hex_no_space [of n] by (simp add: fmt_X_def pad_def)

lemma hex_length: "0 < k \<Longrightarrow> n < 16 ^ k \<Longrightarrow> length (hex ten n) \<le> k"
proof (induction k arbitrary: n)
  case (Suc k)
  show ?case
  proof (cases "n < 16")
    case False
    then have "0 < k" using Suc.prems by (cases k) auto
    moreover have "n div 16 < 16 ^ k" using Suc.prems by (simp add: div_less_iff_less_mult mult.commute)
    ultimately show ?thesis using False Suc.IH by (subst hex.simps) simp
  qed (simp add: hex.simps)
qed simp

lemma fmt_X_byte [simp]: "length (fmt_X 2 (unat (v :: byte))) = 2"
proof -
  have "length (hex 65 (unat v)) \<le> 2" using unsigned_less [of v] by (intro hex_length) simp_all
  then show ?thesis by (simp add: fmt_X_def pad_def)
qed

section \<open>Rows\<close>

definition dump_ok :: "memphy_struct \<Rightarrow> bool" where
  "dump_ok mp \<longleftrightarrow> maxsz mp = int (length (storage mp))"

definition row_zero :: "memphy_struct \<Rightarrow> nat \<Rightarrow> bool" where
  "row_zero mp a \<longleftrightarrow> (\<forall>col < 16. a + col < length (storage mp) \<longrightarrow> storage mp ! (a + col) = 0)"

lemma zero_row_eq:
  assumes "dump_ok mp" and "i + k = 16" and "a + i \<le> length (storage mp)"
  shows "zero_row mp a [i..<i + k] =
     Inr (\<forall>col. i \<le> col \<longrightarrow> col < 16 \<longrightarrow> a + col < length (storage mp) \<longrightarrow> storage mp ! (a + col) = 0)"
  using assms(2,3)
proof (induction k arbitrary: i)
  case 0
  then show ?case by auto
next
  case (Suc k)
  show ?case
  proof (cases "a + i < length (storage mp)")
    case False
    then have "a + col < length (storage mp) \<Longrightarrow> col < i" for col by linarith
    then show ?thesis using False assms(1) by (subst upt_rec) (auto simp: dump_ok_def)
  next
    case True
    have ih: "zero_row mp a [Suc i..<Suc i + k] =
      Inr (\<forall>col. Suc i \<le> col \<longrightarrow> col < 16 \<longrightarrow> a + col < length (storage mp) \<longrightarrow> storage mp ! (a + col) = 0)"
      using Suc True by (intro Suc.IH) simp_all
    have "(\<forall>col. i \<le> col \<longrightarrow> col < 16 \<longrightarrow> a + col < length (storage mp) \<longrightarrow> storage mp ! (a + col) = 0)
      \<longleftrightarrow> storage mp ! (a + i) = 0 \<and> (\<forall>col. Suc i \<le> col \<longrightarrow> col < 16 \<longrightarrow> a + col < length (storage mp) \<longrightarrow> storage mp ! (a + col) = 0)"
      using True Suc.prems(1) by (metis Suc_leD Suc_leI add_Suc_right le_neq_implies_less le_add1 less_Suc_eq_le order_refl)
    moreover have "[i..<i + Suc k] = i # [Suc i..<Suc i + k]" by (simp add: upt_rec)
    ultimately show ?thesis using True assms(1) ih by (simp add: dump_ok_def del: upt_Suc)
  qed
qed

lemma zero_row_all:
  assumes "dump_ok mp" and "a < length (storage mp)"
  shows "zero_row mp a [0..<BYTES_PER_ROW] = Inr (row_zero mp a)"
  using zero_row_eq [OF assms(1), of 0 16 a] assms(2) by (simp add: BYTES_PER_ROW_def row_zero_def)

text \<open>The columns of a row when no byte is missing.\<close>

definition hex_text :: "memphy_struct \<Rightarrow> nat \<Rightarrow> nat \<Rightarrow> string" where
  "hex_text mp a col = (if a + col < length (storage mp) then fmt_X 2 (unat (storage mp ! (a + col))) @ '' '' else ''   '')
     @ (if col = 7 then '' '' else [])"

definition ascii_text :: "memphy_struct \<Rightarrow> nat \<Rightarrow> nat \<Rightarrow> string" where
  "ascii_text mp a col = (if a + col < length (storage mp)
     then [let c = storage mp ! (a + col) in if 32 \<le> unat c \<and> unat c < 127 then char_of (unat c) else CHR ''.''] else [])"

definition row_text :: "memphy_struct \<Rightarrow> nat \<Rightarrow> string" where
  "row_text mp a = '' 0x'' @ fmt_X 4 a @ '' | '' @ concat (map (hex_text mp a) [0..<16]) @ ''| ''
     @ concat (map (ascii_text mp a) [0..<16]) @ nl"

lemma dump_row_eq: "dump_ok mp \<Longrightarrow> dump_row mp a = Inr (row_text mp a)"
proof -
  assume ok: "dump_ok mp"
  have "rconcat (hex_col mp a) [0..<16] = Inr (concat (map (hex_text mp a) [0..<16]))"
    by (rule rconcat_Inr) (use ok in \<open>auto simp: hex_col_def hex_text_def dump_ok_def\<close>)
  moreover have "rconcat (ascii_col mp a) [0..<16] = Inr (concat (map (ascii_text mp a) [0..<16]))"
    by (rule rconcat_Inr) (use ok in \<open>auto simp: ascii_col_def ascii_text_def dump_ok_def Let_def\<close>)
  ultimately show ?thesis by (simp add: dump_row_def row_text_def BYTES_PER_ROW_def)
qed

function rows_text :: "memphy_struct \<Rightarrow> nat \<Rightarrow> string" where
  "rows_text mp a = (if a < length (storage mp)
     then (if row_zero mp a then [] else row_text mp a) @ rows_text mp (a + 16) else [])"
  by pat_completeness auto
termination by (relation "measure (\<lambda>(mp, a). length (storage mp) - a)") auto

declare rows_text.simps [simp del]

lemma dump_loop_eq: "dump_ok mp \<Longrightarrow> dump_loop mp a = Inr (rows_text mp a)"
proof (induction mp a rule: rows_text.induct)
  case (1 mp a)
  show ?case
  proof (cases "a < length (storage mp)")
    case True
    then have "dump_loop mp (a + BYTES_PER_ROW) = Inr (rows_text mp (a + 16))"
      using 1 by (simp add: BYTES_PER_ROW_def)
    moreover have "int a < maxsz mp" using True "1.prems" by (simp add: dump_ok_def)
    ultimately show ?thesis using True zero_row_all [OF "1.prems" True] dump_row_eq [OF "1.prems"]
      by (simp add: dump_loop.simps [of mp a] rows_text.simps [of mp a])
  next
    case False
    then show ?thesis using "1.prems" by (simp add: dump_loop.simps [of mp a] rows_text.simps [of mp a] dump_ok_def)
  qed
qed

section \<open>What a dump tells\<close>

lemma hex_text_length: "length (hex_text mp a col) = (if col = 7 then 4 else 3)"
  by (simp add: hex_text_def)

lemma concat_fixed:
  assumes "concat (map f xs) @ s = concat (map g xs) @ t" and "\<And>x. x \<in> set xs \<Longrightarrow> length (f x) = length (g x)"
  shows "(\<forall>x \<in> set xs. f x = g x) \<and> s = t"
  using assms by (induction xs) auto

lemma row_text_inj:
  assumes "row_text d a @ s = row_text e b @ t" and "length (storage d) = length (storage e)"
  shows "a = b" and "\<forall>col < 16. a + col < length (storage d) \<longrightarrow> storage d ! (a + col) = storage e ! (a + col)" and "s = t"
proof -
  have span: "takeWhile (\<lambda>c. c \<noteq> CHR '' '') (fmt_X 4 x @ '' | '' @ u) = fmt_X 4 x" for x u
    using fmt_X_no_space [of 4 x] by (subst takeWhile_append2) auto
  have "fmt_X 4 a @ '' | '' @ concat (map (hex_text d a) [0..<16]) @ ''| '' @ concat (map (ascii_text d a) [0..<16]) @ nl @ s
      = fmt_X 4 b @ '' | '' @ concat (map (hex_text e b) [0..<16]) @ ''| '' @ concat (map (ascii_text e b) [0..<16]) @ nl @ t"
    using assms(1) by (simp add: row_text_def del: upt_rec_numeral)
  note eq = this
  have "fmt_X 4 a = fmt_X 4 b" using arg_cong [OF eq, of "takeWhile (\<lambda>c. c \<noteq> CHR '' '')"] unfolding span .
  then show ab: "a = b" using fmt_X_val by metis
  have "concat (map (hex_text d a) [0..<16]) @ ''| '' @ concat (map (ascii_text d a) [0..<16]) @ nl @ s
      = concat (map (hex_text e a) [0..<16]) @ ''| '' @ concat (map (ascii_text e a) [0..<16]) @ nl @ t"
    using eq ab by (simp del: upt_rec_numeral)
  from concat_fixed [OF this] have h: "\<forall>col \<in> set [0..<16]. hex_text d a col = hex_text e a col"
      and r: "concat (map (ascii_text d a) [0..<16]) @ nl @ s = concat (map (ascii_text e a) [0..<16]) @ nl @ t"
    by (simp_all add: hex_text_length del: upt_rec_numeral)
  show "s = t" using concat_fixed [OF r] assms(2) by (simp add: ascii_text_def del: upt_rec_numeral)
  show "\<forall>col < 16. a + col < length (storage d) \<longrightarrow> storage d ! (a + col) = storage e ! (a + col)"
  proof (intro allI impI)
    fix col assume c: "col < 16" "a + col < length (storage d)"
    then have "fmt_X 2 (unat (storage d ! (a + col))) = fmt_X 2 (unat (storage e ! (a + col)))"
      using bspec [OF h, of col] assms(2) by (simp add: hex_text_def)
    then show "storage d ! (a + col) = storage e ! (a + col)" using fmt_X_val by (metis word_unat_eq_iff)
  qed
qed

text \<open>A row, and what follows the rows, never begin a later row.\<close>

lemma rows_text_later:
  assumes "row_text d a @ s = rows_text e b @ CHR ''='' # t" and "a < b" and "length (storage d) = length (storage e)"
  shows False
  using assms
proof (induction e b rule: rows_text.induct)
  case (1 e b)
  show ?case
  proof (cases "b < length (storage e)")
    case True
    show ?thesis
    proof (cases "row_zero e b")
      case True
      then show ?thesis using 1 \<open>b < length (storage e)\<close> by (simp add: rows_text.simps [of e b])
    next
      case False
      then have "row_text d a @ s = row_text e b @ rows_text e (b + 16) @ CHR ''='' # t"
        using "1.prems"(1) True by (simp add: rows_text.simps [of e b])
      from row_text_inj(1) [OF this "1.prems"(3)] "1.prems"(2) show ?thesis by simp
    qed
  next
    case False
    then show ?thesis using "1.prems"(1) by (simp add: rows_text.simps [of e b] row_text_def)
  qed
qed

lemma rows_text_inj:
  assumes "rows_text d a @ CHR ''='' # s = rows_text e a @ CHR ''='' # t" and "length (storage d) = length (storage e)"
  shows "\<forall>i. a \<le> i \<longrightarrow> i < length (storage d) \<longrightarrow> storage d ! i = storage e ! i"
  using assms
proof (induction d a arbitrary: s rule: rows_text.induct)
  case (1 d a)
  show ?case
  proof (cases "a < length (storage d)")
    case False
    then show ?thesis by auto
  next
    case True
    let ?rest = "\<forall>i. a + 16 \<le> i \<longrightarrow> i < length (storage d) \<longrightarrow> storage d ! i = storage e ! i"
    have d: "rows_text d a = (if row_zero d a then [] else row_text d a) @ rows_text d (a + 16)"
      and e: "rows_text e a = (if row_zero e a then [] else row_text e a) @ rows_text e (a + 16)"
      using True "1.prems"(2) by (simp_all add: rows_text.simps [of _ a])
    have row: "\<forall>col < 16. a + col < length (storage d) \<longrightarrow> storage d ! (a + col) = storage e ! (a + col)"
      and rest: "rows_text d (a + 16) @ CHR ''='' # s = rows_text e (a + 16) @ CHR ''='' # t"
    proof -
      consider "row_zero d a" "row_zero e a" | "\<not> row_zero d a" "\<not> row_zero e a"
        | "row_zero d a" "\<not> row_zero e a" | "\<not> row_zero d a" "row_zero e a" by blast
      then have "(\<forall>col < 16. a + col < length (storage d) \<longrightarrow> storage d ! (a + col) = storage e ! (a + col))
        \<and> rows_text d (a + 16) @ CHR ''='' # s = rows_text e (a + 16) @ CHR ''='' # t"
      proof cases
        case 1
        then show ?thesis using \<open>rows_text d a @ _ = _\<close> d e \<open>length (storage d) = _\<close> by (simp add: row_zero_def)
      next
        case 2
        then have eq: "row_text d a @ rows_text d (a + 16) @ CHR ''='' # s = row_text e a @ rows_text e (a + 16) @ CHR ''='' # t"
          using \<open>rows_text d a @ _ = _\<close> d e by simp
        show ?thesis using row_text_inj(2,3) [OF eq \<open>length (storage d) = _\<close>] by blast
      next
        case 3
        then have "row_text e a @ rows_text e (a + 16) @ CHR ''='' # t = rows_text d (a + 16) @ CHR ''='' # s"
          using \<open>rows_text d a @ _ = _\<close> d e by simp
        from rows_text_later [OF this] \<open>length (storage d) = _\<close> show ?thesis by simp
      next
        case 4
        then have "row_text d a @ rows_text d (a + 16) @ CHR ''='' # s = rows_text e (a + 16) @ CHR ''='' # t"
          using \<open>rows_text d a @ _ = _\<close> d e by simp
        from rows_text_later [OF this] \<open>length (storage d) = _\<close> show ?thesis by simp
      qed
      then show "\<forall>col < 16. a + col < length (storage d) \<longrightarrow> storage d ! (a + col) = storage e ! (a + col)"
        and "rows_text d (a + 16) @ CHR ''='' # s = rows_text e (a + 16) @ CHR ''='' # t" by blast+
    qed
    have ?rest using "1.IH" [OF True rest "1.prems"(2)] .
    moreover have "storage d ! i = storage e ! i" if "a \<le> i" "i < a + 16" "i < length (storage d)" for i
      using row [THEN spec, of "i - a"] that by simp
    ultimately show ?thesis by (meson not_le)
  qed
qed

lemma rows_text_cong: "storage d = storage e \<Longrightarrow> rows_text d a = rows_text e a"
proof (induction d a rule: rows_text.induct)
  case (1 d a)
  have "hex_text d a = hex_text e a" "ascii_text d a = ascii_text e a"
    using "1.prems" by (simp_all add: hex_text_def ascii_text_def fun_eq_iff)
  then have "row_text d a = row_text e a" by (simp add: row_text_def)
  moreover have "row_zero d a = row_zero e a" using "1.prems" by (simp add: row_zero_def)
  ultimately show ?case using 1 by (simp add: rows_text.simps [of d a] rows_text.simps [of e a])
qed

text \<open>
  C36. A dump has no fault and loses nothing, although it skips the rows of zeros: two devices of the
  same size whose dumps are the same have the same content.
\<close>

theorem dump_lossless:
  assumes "maxsz d = int (length (storage d))" and "maxsz e = int (length (storage e))" and "maxsz d = maxsz e"
  shows "returns (MEMPHY_dump (Some d)) (\<lambda>(r, out). r = 0 \<and>
     (returns (MEMPHY_dump (Some e)) (\<lambda>(r', out'). out = out') \<longleftrightarrow> storage d = storage e))"
proof -
  have d: "dump_loop d 0 = Inr (rows_text d 0)" and e: "dump_loop e 0 = Inr (rows_text e 0)"
    using assms by (simp_all add: dump_loop_eq dump_ok_def)
  have len: "length (storage d) = length (storage e)" using assms by simp
  have "storage d = storage e" if eq: "rows_text d 0 @ ''====== END MEMPHY DUMP ======'' @ nl @ nl
      = rows_text e 0 @ ''====== END MEMPHY DUMP ======'' @ nl @ nl"
    using rows_text_inj [of d 0 _ e, OF _ len] eq len by (intro nth_equalityI) auto
  moreover have "rows_text d 0 = rows_text e 0" if "storage d = storage e"
    using that by (rule rows_text_cong)
  ultimately show ?thesis using assms(3) by (auto simp: MEMPHY_dump_def d e)
qed

definition bytes_dev :: "byte list \<Rightarrow> memphy_struct" where
  "bytes_dev bs = uninit_memphy\<lparr>storage := bs, maxsz := int (length bs)\<rparr>"

theorem dump_lossless_witness:
  "returns (MEMPHY_dump (Some (bytes_dev [0, 5]))) (\<lambda>(r, out). r = 0 \<and>
     \<not> returns (MEMPHY_dump (Some (bytes_dev [0, 6]))) (\<lambda>(r', out'). out = out'))"
  using dump_lossless [of "bytes_dev [0, 5]" "bytes_dev [0, 6]"]
  by (rule returns_mono) (auto simp: bytes_dev_def)

end
