(* ===== verification/Print_Debug.thy ===== *)
theory Print_Debug
  imports Dump Pagetable
begin

text \<open>
  \<^verbatim>\<open>src/print_debug.c\<close>, the printers of the state of the kernel and of a process, and the page
  directories of the kernel that \<open>ld_routine\<close> of \<^verbatim>\<open>src/os.c\<close> builds and these printers read.
  The theory shows what a walk of the kernel's directories finds, and that the same walk cannot work
  on the flat page table of a process.
\<close>

section \<open>Directories\<close>

text \<open>The page directories in memory, by address; a pointer is the value of a directory entry.\<close>

type_synonym dirs = "addr \<rightharpoonup> addr list"

definition dir_get :: "dirs \<Rightarrow> addr \<Rightarrow> nat \<Rightarrow> addr res" where
  "dir_get D p i = (if p = 0 then Inl Null_Deref
     else case D p of None \<Rightarrow> Inl Dangling | Some t \<Rightarrow> arr_get t i)"

definition dir_set :: "dirs \<Rightarrow> addr \<Rightarrow> nat \<Rightarrow> addr \<Rightarrow> dirs res" where
  "dir_set D p i v = (if p = 0 then Inl Null_Deref
     else case D p of None \<Rightarrow> Inl Dangling | Some t \<Rightarrow> rbind (arr_set t i v) (\<lambda>t. Inr (D(p \<mapsto> t))))"

record krnl_dirs =
  krnl_pgd :: addr
  krnl_p4d :: addr
  krnl_pud :: addr
  krnl_pmd :: addr
  krnl_pt :: addr

text \<open>
  The first part of \<open>ld_routine\<close>. The addresses in \<open>os\<close> are those \<open>malloc\<close> returns, and \<open>junk\<close> is
  what it leaves in the memory at an address.
\<close>

function krnl_loop :: "krnl_dirs \<Rightarrow> nat \<Rightarrow> dirs \<Rightarrow> dirs res" where
  "krnl_loop os i D =
     (if i < PAGING64_MAX_PGN then
        rbind (dir_set D (krnl_pgd os) i (krnl_p4d os)) (\<lambda>D.
        rbind (dir_set D (krnl_p4d os) i (krnl_pud os)) (\<lambda>D.
        rbind (dir_set D (krnl_pud os) i (krnl_pmd os)) (\<lambda>D.
        rbind (dir_set D (krnl_pmd os) i (krnl_pt os)) (\<lambda>D.
        rbind (dir_set D (krnl_pt os) i 0) (\<lambda>D. krnl_loop os (i + 1) D)))))
      else Inr D)"
  by pat_completeness auto
termination by (relation "measure (\<lambda>(os, i, D). PAGING64_MAX_PGN - i)") auto

declare krnl_loop.simps [simp del]

definition init_krnl_dirs :: "krnl_dirs \<Rightarrow> (addr \<Rightarrow> addr list) \<Rightarrow> dirs \<Rightarrow> dirs res" where
  "init_krnl_dirs os junk D =
     krnl_loop os 0 (D(krnl_pgd os \<mapsto> junk (krnl_pgd os), krnl_p4d os \<mapsto> junk (krnl_p4d os),
       krnl_pud os \<mapsto> junk (krnl_pud os), krnl_pmd os \<mapsto> junk (krnl_pmd os), krnl_pt os \<mapsto> junk (krnl_pt os)))"

text \<open>
  The walk of both printers, from the first directory, given by the function that reads it. The page
  number of the kernel's is an \<open>int\<close>.
\<close>

definition dir_walk :: "dirs \<Rightarrow> (nat \<Rightarrow> addr res) \<Rightarrow> addr \<Rightarrow> u32 res" where
  "dir_walk D first pgn = (case get_pd_from_pagenum pgn of (pgd_i, p4d_i, pud_i, pmd_i, pt_i) \<Rightarrow>
     rbind (first (unat pgd_i)) (\<lambda>p4d.
     rbind (dir_get D p4d (unat p4d_i)) (\<lambda>pud.
     rbind (dir_get D pud (unat pud_i)) (\<lambda>pmd.
     rbind (dir_get D pmd (unat pmd_i)) (\<lambda>pt.
     rbind (dir_get D pt (unat pt_i)) (\<lambda>e. Inr (ucast e)))))))"

definition pte_get_entry_kernel_print :: "dirs \<Rightarrow> krnl_dirs \<Rightarrow> int \<Rightarrow> u32 res" where
  "pte_get_entry_kernel_print D os pgn = dir_walk D (dir_get D (krnl_pgd os)) (word_of_int pgn)"

definition pte_get_entry_print :: "dirs \<Rightarrow> mm_struct \<Rightarrow> addr \<Rightarrow> u32 res" where
  "pte_get_entry_print D m pgn = dir_walk D (arr_get (pgd m)) pgn"

section \<open>Devices\<close>

text \<open>A list of frames; the last of its links, or its head, may never have been written.\<close>

definition print_frame_list :: "string \<Rightarrow> addr list \<times> bool \<Rightarrow> string res" where
  "print_frame_list name = (\<lambda>(fs, ended).
     if \<not> ended then Inl Uninit_Read
     else if fs = [] then Inr (name @ '': '' @ ''(empty)'' @ nl)
     else Inr (name @ '': '' @ concat (map (\<lambda>f. CHR ''['' # fmt_lu f @ ''] '') fs) @ nl))"

text \<open>The \<open>int\<close> stored in four bytes, the first one lowest.\<close>

definition int_at :: "byte list \<Rightarrow> nat \<Rightarrow> u32 res" where
  "int_at bs a =
     rbind (arr_get bs a) (\<lambda>b0. rbind (arr_get bs (a + 1)) (\<lambda>b1.
     rbind (arr_get bs (a + 2)) (\<lambda>b2. rbind (arr_get bs (a + 3)) (\<lambda>b3.
       Inr (ucast b0 OR push_bit 8 (ucast b1) OR push_bit 16 (ucast b2) OR push_bit 24 (ucast b3))))))"

definition print_storage_int :: "memphy_struct option \<Rightarrow> string res" where
  "print_storage_int mo = (case mo of None \<Rightarrow> Inr (''storage is NULL'' @ nl)
    | Some m \<Rightarrow>
        (let page_size = unat PAGING64_PAGESZ; ints_per_page = page_size div 4;
             total_pages = nat (maxsz m div int page_size) in
         rbind (rconcat (\<lambda>pg.
             rbind (rconcat (\<lambda>i. rbind (int_at (storage m) ((pg * ints_per_page + i) * 4)) (\<lambda>v.
                      Inr (fmt_x 8 (unat v) @ '' ''))) [0..<16]) (\<lambda>s.
               Inr (''[PAGE '' @ dec pg @ ''] : '' @ s @ nl))) [0..<total_pages]) (\<lambda>s.
           Inr (''STORAGE'' @ nl @ s))))"

text \<open>
  \<open>used_fp_list\<close>, which no code writes, is a parameter: \<open>None\<close> where it has no value.
\<close>

definition print_memphy :: "string \<Rightarrow> memphy_struct option \<Rightarrow> addr list option \<Rightarrow> string res" where
  "print_memphy name mo used = (case mo of None \<Rightarrow> Inl Null_Deref
    | Some m \<Rightarrow>
        rbind (print_storage_int mo) (\<lambda>s.
        rbind (print_frame_list ''FREE frames'' (free_fp_list m, fp_term m)) (\<lambda>f.
        rbind (case used of None \<Rightarrow> Inl Uninit_Read | Some us \<Rightarrow> print_frame_list ''USED frames'' (us, True)) (\<lambda>u.
          Inr (name @ '' | size:'' @ fmt_d (maxsz m) @ nl @ s @ f @ u @ ''======================'' @ nl)))))"

section \<open>The memory of a process\<close>

definition pte_text :: "string \<Rightarrow> u32 \<Rightarrow> string" where
  "pte_text page pte = ''[page='' @ page @ '' -> '' @
     (if PAGING_PAGE_PRESENT pte then ''frame='' @ dec (unat (PAGING_FPN pte))
      else if PAGE_SWAPPED pte then ''swap='' @ dec (unat (PAGING_SWP pte))
      else ''none'') @ ''] ''"

fun joined :: "('a \<Rightarrow> string) \<Rightarrow> 'a list \<Rightarrow> string" where
  "joined f [] = ''(empty)''"
| "joined f [x] = f x"
| "joined f (x # y # ys) = f x @ '' -> '' @ joined f (y # ys)"

definition vma_text :: "vm_area_struct \<Rightarrow> string" where
  "vma_text v = ''VMA | id='' @ fmt_lu (vm_id v) @ '' | start='' @ fmt_lu (vm_start v)
     @ '' | end='' @ fmt_lu (vm_end v) @ '' | sbrk='' @ fmt_lu (sbrk v) @ '' | '' @ ''free regions: ''
     @ joined (\<lambda>r. CHR ''['' # fmt_lu (rg_start r) @ ''-'' @ fmt_lu (rg_end r) @ '']'') (vm_freerg_list v) @ nl"

text \<open>A region of the symbol table; \<open>mode_bit\<close> is \<open>None\<close> where it was never written.\<close>

definition sym_text :: "vm_rg_struct list \<Rightarrow> (nat \<Rightarrow> addr option) \<Rightarrow> nat \<Rightarrow> string res" where
  "sym_text tbl mode_bit i =
     rbind (arr_get tbl i) (\<lambda>r.
       if rg_start r \<noteq> 0 \<or> rg_end r \<noteq> 0 then (case mode_bit i of None \<Rightarrow> Inl Uninit_Read
         | Some b \<Rightarrow> Inr (''[rg'' @ dec i @ '':0x'' @ hex 97 (unat (rg_start r)) @ ''-0x'' @ hex 97 (unat (rg_end r))
             @ '' mode='' @ (if b \<noteq> 0 then ''USER'' else ''KERNEL'') @ ''] ''))
       else Inr [])"

record kcache_pool_struct =
  kc_size :: int
  kc_align :: int
  kc_storage :: addr

definition pool_text :: "kcache_pool_struct list option \<Rightarrow> nat \<Rightarrow> string res" where
  "pool_text kcp i = (case kcp of None \<Rightarrow> Inl Null_Deref
    | Some ps \<Rightarrow> rbind (arr_get ps i) (\<lambda>p.
        if kc_size p \<noteq> 0 \<or> kc_align p \<noteq> 0 \<or> kc_storage p \<noteq> 0 then
          Inr (''  pool['' @ dec i @ ''] size='' @ fmt_d (kc_size p) @ '' align='' @ fmt_d (kc_align p)
            @ '' storage=0x'' @ hex 97 (unat (kc_storage p)) @ nl)
        else Inr []))"

definition print_mm_struct :: "dirs \<Rightarrow> (nat \<Rightarrow> addr option) \<Rightarrow> kcache_pool_struct list option \<Rightarrow> mm_struct option \<Rightarrow> string res" where
  "print_mm_struct D mode_bit kcpooltbl mo = (case mo of
      None \<Rightarrow> Inr (''MM STRUCT'' @ nl @ ''mm = NULL'' @ nl)
    | Some m \<Rightarrow>
        rbind (rconcat (\<lambda>i. rbind (pte_get_entry_print D m (word_of_nat i)) (\<lambda>pte.
            Inr (pte_text (dec i) pte))) [0..<6]) (\<lambda>pages.
        rbind (rconcat (sym_text (symrgtbl m) mode_bit) [0..<PAGING_MAX_SYMTBL_SZ]) (\<lambda>syms.
        rbind (rconcat (pool_text kcpooltbl) [0..<4]) (\<lambda>pools.
          Inr (''MM STRUCT'' @ nl @ ''PAGE TABLE: '' @ pages @ nl
            @ (if mmap m = [] then ''  (empty)'' @ nl else concat (map vma_text (mmap m)))
            @ ''SYMBOL TABLE: '' @ (if syms = [] then ''(empty)'' else syms) @ nl
            @ ''FIFO PAGE LIST: '' @ joined (\<lambda>p. CHR ''['' # fmt_lu p @ '']'') (fifo_pgn m)
            @ nl @ ''KMEM CACHE POOLS:'' @ nl @ pools
            @ nl @ ''================================ END ================================'' @ nl @ nl)))))"

section \<open>The kernel\<close>

definition KERNEL_BASE :: addr where "KERNEL_BASE = 0xffff800000000000"

definition print_kernel_info :: "dirs \<Rightarrow> krnl_dirs \<Rightarrow> memphy_struct option \<Rightarrow> memphy_struct option
    \<Rightarrow> addr list option \<Rightarrow> addr list option \<Rightarrow> (nat \<Rightarrow> addr option) \<Rightarrow> kcache_pool_struct list option
    \<Rightarrow> mm_struct option \<Rightarrow> string res" where
  "print_kernel_info D os ram swp ram_used swp_used mode_bit kcpooltbl mo =
     rbind (print_memphy ''RAM'' ram ram_used) (\<lambda>r.
     rbind (print_memphy ''ACTIVE SWAP'' swp swp_used) (\<lambda>s.
     rbind (rconcat (\<lambda>i.
         let page = KERNEL_BASE div PAGING64_PAGESZ + word_of_nat i in
         rbind (pte_get_entry_kernel_print D os (sint (ucast page :: u32))) (\<lambda>pte.
           Inr (pte_text (hex 97 (unat page)) pte))) [0..<4]) (\<lambda>pages.
     rbind (print_mm_struct D mode_bit kcpooltbl mo) (\<lambda>m.
       Inr (r @ s @ ''PAGE TABLE KENEL: '' @ pages @ nl @ ''======================'' @ nl @ m)))))"

section \<open>Building the directories\<close>

lemma dir_set_in [simp]:
  "p \<noteq> 0 \<Longrightarrow> D p = Some t \<Longrightarrow> i < length t \<Longrightarrow> dir_set D p i v = Inr (D(p \<mapsto> t[i := v]))"
  by (simp add: dir_set_def)

text \<open>A directory of which the first \<open>i\<close> entries were written.\<close>

definition filled :: "addr list \<Rightarrow> nat \<Rightarrow> addr \<Rightarrow> addr list" where
  "filled t i v = replicate i v @ drop i t"

lemma filled_length [simp]: "i \<le> length t \<Longrightarrow> length (filled t i v) = length t"
  by (simp add: filled_def)

lemma filled_update: "i < length t \<Longrightarrow> (filled t i v)[i := v] = filled t (Suc i) v"
  by (simp add: filled_def list_update_append replicate_append_same [symmetric] Cons_nth_drop_Suc [symmetric])

lemma filled_simps [simp]: "filled t 0 v = t" "filled t (length t) v = replicate (length t) v"
  by (simp_all add: filled_def)

text \<open>The five directories after \<open>i\<close> rounds.\<close>

definition rounds :: "krnl_dirs \<Rightarrow> dirs \<Rightarrow> (addr \<Rightarrow> addr list) \<Rightarrow> nat \<Rightarrow> dirs \<Rightarrow> bool" where
  "rounds os D0 junk i D \<longleftrightarrow> D (krnl_pgd os) = Some (filled (junk (krnl_pgd os)) i (krnl_p4d os))
     \<and> D (krnl_p4d os) = Some (filled (junk (krnl_p4d os)) i (krnl_pud os))
     \<and> D (krnl_pud os) = Some (filled (junk (krnl_pud os)) i (krnl_pmd os))
     \<and> D (krnl_pmd os) = Some (filled (junk (krnl_pmd os)) i (krnl_pt os))
     \<and> D (krnl_pt os) = Some (filled (junk (krnl_pt os)) i 0)
     \<and> (\<forall>p. p \<notin> {krnl_pgd os, krnl_p4d os, krnl_pud os, krnl_pmd os, krnl_pt os} \<longrightarrow> D p = D0 p)"

definition new_dirs :: "krnl_dirs \<Rightarrow> (addr \<Rightarrow> addr list) \<Rightarrow> bool" where
  "new_dirs os junk \<longleftrightarrow> distinct [krnl_pgd os, krnl_p4d os, krnl_pud os, krnl_pmd os, krnl_pt os]
     \<and> (\<forall>p \<in> {krnl_pgd os, krnl_p4d os, krnl_pud os, krnl_pmd os, krnl_pt os}. p \<noteq> 0 \<and> length (junk p) = 512)"

lemma krnl_loop_rounds:
  assumes "new_dirs os junk" and "i \<le> 512" and "rounds os D0 junk i D"
  shows "returns (krnl_loop os i D) (rounds os D0 junk 512)"
  using assms(2,3)
proof (induction "512 - i" arbitrary: i D)
  case 0
  then show ?case by (simp add: krnl_loop.simps [of os "512"] PAGING64_MAX_PGN_eq)
next
  case (Suc k)
  obtain a b c d e where os: "os = \<lparr>krnl_pgd = a, krnl_p4d = b, krnl_pud = c, krnl_pmd = d, krnl_pt = e\<rparr>"
    by (cases os)
  have i: "i < 512" using Suc.hyps(2) by simp
  have ne: "a \<noteq> b" "a \<noteq> c" "a \<noteq> d" "a \<noteq> e" "b \<noteq> c" "b \<noteq> d" "b \<noteq> e" "c \<noteq> d" "c \<noteq> e" "d \<noteq> e"
    and nz: "a \<noteq> 0" "b \<noteq> 0" "c \<noteq> 0" "d \<noteq> 0" "e \<noteq> 0"
    and len: "length (junk a) = 512" "length (junk b) = 512" "length (junk c) = 512" "length (junk d) = 512" "length (junk e) = 512"
    using assms(1) by (simp_all add: new_dirs_def os)
  have D: "D a = Some (filled (junk a) i b)" "D b = Some (filled (junk b) i c)" "D c = Some (filled (junk c) i d)"
      "D d = Some (filled (junk d) i e)" "D e = Some (filled (junk e) i 0)"
      "\<forall>p. p \<notin> {a, b, c, d, e} \<longrightarrow> D p = D0 p"
    using Suc.prems(2) by (simp_all add: rounds_def os)
  define D' where "D' = D(a \<mapsto> filled (junk a) (Suc i) b, b \<mapsto> filled (junk b) (Suc i) c, c \<mapsto> filled (junk c) (Suc i) d,
      d \<mapsto> filled (junk d) (Suc i) e, e \<mapsto> filled (junk e) (Suc i) 0)"
  have "krnl_loop os i D = krnl_loop os (Suc i) D'"
    using i ne nz len D by (subst krnl_loop.simps) (simp add: os PAGING64_MAX_PGN_eq filled_update D'_def)
  moreover have "rounds os D0 junk (Suc i) D'" using ne D(6) by (simp add: rounds_def os D'_def)
  ultimately show ?case using Suc.hyps Suc.prems by simp
qed

lemma init_krnl_dirs_rounds:
  assumes "new_dirs os junk"
  shows "returns (init_krnl_dirs os junk D) (rounds os D junk 512)"
  unfolding init_krnl_dirs_def
  by (rule krnl_loop_rounds [OF assms]) (use assms in \<open>simp_all add: rounds_def new_dirs_def\<close>)

section \<open>Properties\<close>

lemma pd_bounds:
  "get_pd_from_address a = (i1, i2, i3, i4, i5) \<Longrightarrow> unat i1 < 512 \<and> unat i2 < 512 \<and> unat i3 < 512 \<and> unat i4 < 512 \<and> unat i5 < 512"
  using take_bit_nat_less_exp [of 9]
  by (auto simp: get_pd_take_bit unsigned_take_bit_eq simp flip: numeral_eq_Suc)

text \<open>
  The loader thread builds the kernel's page directories so that every page number, walked
  through all five levels, stays inside them and ends at an entry that is 0: the kernel has no
  mapped page. No other memory is written.
\<close>

lemma kernel_walk_unmapped:
  assumes "new_dirs os junk"
  shows "returns (init_krnl_dirs os junk D) (\<lambda>D'.
     (\<forall>pgn. pte_get_entry_kernel_print D' os pgn = Inr 0)
     \<and> (\<forall>p. p \<notin> {krnl_pgd os, krnl_p4d os, krnl_pud os, krnl_pmd os, krnl_pt os} \<longrightarrow> D' p = D p))"
  using init_krnl_dirs_rounds [OF assms]
proof (rule returns_mono)
  fix D' assume D': "rounds os D junk 512 D'"
  have get: "dir_get D' (krnl_pgd os) i = Inr (krnl_p4d os)" "dir_get D' (krnl_p4d os) i = Inr (krnl_pud os)"
      "dir_get D' (krnl_pud os) i = Inr (krnl_pmd os)" "dir_get D' (krnl_pmd os) i = Inr (krnl_pt os)"
      "dir_get D' (krnl_pt os) i = Inr 0" if "i < 512" for i
    using that assms D' by (simp_all add: rounds_def new_dirs_def filled_def dir_get_def)
  have "pte_get_entry_kernel_print D' os pgn = Inr 0" for pgn
  proof -
    obtain i1 i2 i3 i4 i5 where pd: "get_pd_from_pagenum (word_of_int pgn) = (i1, i2, i3, i4, i5)"
      by (metis prod_cases5)
    then have "unat i1 < 512" "unat i2 < 512" "unat i3 < 512" "unat i4 < 512" "unat i5 < 512"
      using pd_bounds by (auto simp: get_pd_from_pagenum_def)
    then show ?thesis by (simp add: pte_get_entry_kernel_print_def dir_walk_def pd get)
  qed
  then show "(\<forall>pgn. pte_get_entry_kernel_print D' os pgn = Inr 0)
     \<and> (\<forall>p. p \<notin> {krnl_pgd os, krnl_p4d os, krnl_pud os, krnl_pmd os, krnl_pt os} \<longrightarrow> D' p = D p)"
    using D' by (simp add: rounds_def)
qed

text \<open>
  The page table of a process is flat: its entries are no pointers. \<open>print_mm_struct\<close> takes them for
  pointers, so it has a fault for every process, at once for a new one, unless the entry of page 0
  happens to be the address of a directory.
\<close>

lemma print_mm_struct_faults:
  "print_mm_struct D mode_bit kcp (Some init_mm) = Inl Null_Deref"
  "0 < length (pgd m) \<Longrightarrow> pgd m ! 0 \<noteq> 0 \<Longrightarrow> D (pgd m ! 0) = None \<Longrightarrow>
     print_mm_struct D mode_bit kcp (Some m) = Inl Dangling"
  by (simp_all add: print_mm_struct_def pte_get_entry_print_def dir_walk_def get_pd_from_pagenum_def
      get_pd_take_bit dir_get_def init_mm_def PAGING_MAX_PGN_eq upt_rec)

end
