(* ===== verification/Segment.thy ===== *)
theory Segment
  imports Dump
begin

text \<open>
  The segment-based memory of \<^verbatim>\<open>src/mem.c\<close> and the instructions of \<^verbatim>\<open>src/cpu.c\<close> that a build
  without \<open>MM_PAGING\<close> uses. The code is marked as obsolete: the lookup of a translation table finds
  nothing and no memory is ever available, and the model says so. What is left of it are the split of
  an address, the state of the pages and its printer.
\<close>

section \<open>State\<close>

definition OFFSET_LEN :: nat where "OFFSET_LEN = 10"
definition PAGE_LEN :: nat where "PAGE_LEN = 5"
definition ADDRESS_SIZE :: nat where "ADDRESS_SIZE = 20"
definition NUM_PAGES :: nat where "NUM_PAGES = 2 ^ (ADDRESS_SIZE - OFFSET_LEN)"
definition PAGE_SIZE :: u32 where "PAGE_SIZE = push_bit OFFSET_LEN 1"
definition RAM_SIZE :: nat where "RAM_SIZE = 2 ^ ADDRESS_SIZE"

record mem_stat =
  ms_proc :: u32
  ms_index :: int
  ms_next :: int

record seg_mem =
  seg_ram :: "byte list"
  mem_stats :: "mem_stat list"

definition init_mem :: seg_mem where
  "init_mem = \<lparr>seg_ram = replicate RAM_SIZE 0,
     mem_stats = replicate NUM_PAGES \<lparr>ms_proc = 0, ms_index = 0, ms_next = 0\<rparr>\<rparr>"

text \<open>
  Translation tables; the rows are pairs of a virtual index and what belongs to it. The loader only
  allocates the table of a process, so its size is \<open>None\<close>.
\<close>

record trans_table_t =
  tt_table :: "(addr \<times> addr) list"
  tt_size :: int

record page_table_t =
  pg_table :: "(addr \<times> trans_table_t option) list"
  pg_size :: "int option"

section \<open>Addresses\<close>

definition get_offset :: "addr \<Rightarrow> addr" where
  "get_offset a = a AND ucast (NOT (push_bit OFFSET_LEN (NOT 0 :: u32)))"

definition get_first_lv :: "addr \<Rightarrow> addr" where
  "get_first_lv a = drop_bit (OFFSET_LEN + PAGE_LEN) a"

definition get_second_lv :: "addr \<Rightarrow> addr" where
  "get_second_lv a = drop_bit OFFSET_LEN a - push_bit PAGE_LEN (get_first_lv a)"

text \<open>The loop of \<open>get_trans_table\<close> has no body; only its bound is read.\<close>

definition get_trans_table :: "addr \<Rightarrow> page_table_t option \<Rightarrow> trans_table_t option res" where
  "get_trans_table index ptab = (case ptab of None \<Rightarrow> Inl Null_Deref
    | Some t \<Rightarrow> (case pg_size t of None \<Rightarrow> Inl Uninit_Read | Some sz \<Rightarrow> Inr None))"

text \<open>
  The loop of \<open>translate\<close> over the rows from \<open>i\<close> on, and \<open>translate\<close>: whether a translation was
  found. \<open>*physical_addr\<close> is not written.
\<close>

function row_loop :: "trans_table_t \<Rightarrow> addr \<Rightarrow> nat \<Rightarrow> bool res" where
  "row_loop t second_lv i =
     (if int i < tt_size t then
        rbind (arr_get (tt_table t) i) (\<lambda>(v_index, _).
          if v_index = second_lv then Inr True else row_loop t second_lv (i + 1))
      else Inr False)"
  by pat_completeness auto
termination by (relation "measure (\<lambda>(t, s, i). nat (tt_size t - int i))") auto

declare row_loop.simps [simp del]

definition translate :: "addr \<Rightarrow> page_table_t option \<Rightarrow> bool res" where
  "translate virtual_addr ptab =
     rbind (get_trans_table (get_first_lv virtual_addr) ptab) (\<lambda>trans_table.
       case trans_table of None \<Rightarrow> Inr False | Some t \<Rightarrow> row_loop t (get_second_lv virtual_addr) 0)"

section \<open>Memory operations\<close>

text \<open>\<open>alloc_mem\<close>: the address, and the break pointer of the process it leaves.\<close>

definition alloc_mem :: "u32 \<Rightarrow> pcb_t \<Rightarrow> addr \<times> pcb_t" where
  "alloc_mem sz x =
     (let ret_mem = 0;
          num_pages = (if sz mod PAGE_SIZE \<noteq> 0 then sz div PAGE_SIZE else sz div PAGE_SIZE + 1);
          mem_avail = (0 :: int) in
      if mem_avail \<noteq> 0 then (ucast (bp x), x\<lparr>bp := bp x + num_pages * PAGE_SIZE\<rparr>)
      else (ret_mem, x))"

definition free_mem :: "addr \<Rightarrow> pcb_t \<Rightarrow> int" where "free_mem a x = 0"

text \<open>
  \<open>read_mem\<close> and \<open>write_mem\<close>: where \<open>translate\<close> succeeds they use \<open>physical_addr\<close>, which has no value.
\<close>

definition read_mem :: "addr \<Rightarrow> page_table_t option \<Rightarrow> seg_mem \<Rightarrow> (int \<times> byte option) res" where
  "read_mem a ptab M = rbind (translate a ptab) (\<lambda>found. if found then Inl Uninit_Read else Inr (1, None))"

definition write_mem :: "addr \<Rightarrow> page_table_t option \<Rightarrow> byte \<Rightarrow> seg_mem \<Rightarrow> (int \<times> seg_mem) res" where
  "write_mem a ptab d M = rbind (translate a ptab) (\<lambda>found. if found then Inl Uninit_Read else Inr (1, M))"

section \<open>Instructions\<close>

definition seg_alloc :: "pcb_t \<Rightarrow> u32 \<Rightarrow> u32 \<Rightarrow> (int \<times> pcb_t) res" where
  "seg_alloc x sz reg_index =
     (let (a, x) = alloc_mem sz x in
      if a = 0 then Inr (1, x)
      else rbind (arr_set (regs x) (unat reg_index) a) (\<lambda>rs. Inr (0, x\<lparr>regs := rs\<rparr>)))"

definition seg_free :: "pcb_t \<Rightarrow> u32 \<Rightarrow> int res" where
  "seg_free x reg_index = rbind (arr_get (regs x) (unat reg_index)) (\<lambda>a. Inr (free_mem a x))"

text \<open>The byte is a \<open>char\<close>, which is signed; a register is an \<open>addr_t\<close>.\<close>

definition seg_read :: "pcb_t \<Rightarrow> page_table_t option \<Rightarrow> seg_mem \<Rightarrow> u32 \<Rightarrow> u32 \<Rightarrow> u32 \<Rightarrow> (int \<times> pcb_t) res" where
  "seg_read x ptab M source offset destination =
     rbind (arr_get (regs x) (unat source)) (\<lambda>a.
     rbind (read_mem (a + ucast offset) ptab M) (\<lambda>(r, data).
       if r = 0 then (case data of None \<Rightarrow> Inl Uninit_Read
         | Some d \<Rightarrow> rbind (arr_set (regs x) (unat destination) (scast d)) (\<lambda>rs. Inr (0, x\<lparr>regs := rs\<rparr>)))
       else Inr (1, x)))"

definition seg_write :: "pcb_t \<Rightarrow> page_table_t option \<Rightarrow> seg_mem \<Rightarrow> byte \<Rightarrow> u32 \<Rightarrow> u32 \<Rightarrow> (int \<times> seg_mem) res" where
  "seg_write x ptab M data destination offset =
     rbind (arr_get (regs x) (unat destination)) (\<lambda>a. write_mem (a + ucast offset) ptab data M)"

section \<open>The printer\<close>

text \<open>
  \<open>dump\<close>. The inner loop leaves out the last byte of a page; a negative byte is printed as the
  \<open>int\<close> it is converted to.
\<close>

definition dump_page :: "seg_mem \<Rightarrow> nat \<Rightarrow> string res" where
  "dump_page M i =
     rbind (arr_get (mem_stats M) i) (\<lambda>st.
       if ms_proc st = 0 then Inr []
       else rbind (rconcat (\<lambda>j. rbind (arr_get (seg_ram M) j) (\<lambda>v. Inr (if v \<noteq> 0
               then [CHR 0x09] @ fmt_x 5 j @ '': '' @ fmt_x 2 (unat (scast v :: u32)) @ nl else [])))
             [i * 2 ^ OFFSET_LEN..<(i + 1) * 2 ^ OFFSET_LEN - 1]) (\<lambda>bytes.
         Inr (pad (CHR ''0'') 3 (dec i) @ '': '' @ fmt_x 5 (i * 2 ^ OFFSET_LEN) @ ''-''
           @ fmt_x 5 ((i + 1) * 2 ^ OFFSET_LEN - 1) @ '' - PID: '' @ pad (CHR ''0'') 2 (fmt_d (sint (ms_proc st)))
           @ '' (idx '' @ pad (CHR ''0'') 3 (fmt_d (ms_index st)) @ '', nxt: ''
           @ pad (CHR ''0'') 3 (fmt_d (ms_next st)) @ '')'' @ nl @ bytes)))"

definition dump :: "seg_mem \<Rightarrow> string res" where
  "dump M = rconcat (dump_page M) [0..<NUM_PAGES]"

section \<open>Properties\<close>

lemmas seg_consts = OFFSET_LEN_def PAGE_LEN_def ADDRESS_SIZE_def NUM_PAGES_def PAGE_SIZE_def RAM_SIZE_def

lemma get_offset_unat: "unat (get_offset a) = unat a mod 1024"
proof -
  have "get_offset a = take_bit 10 a"
    by (rule bit_word_eqI) (auto simp: get_offset_def OFFSET_LEN_def bit_simps)
  then have "unat (get_offset a) = unat (take_bit 10 a)" by (rule arg_cong)
  also have "\<dots> = take_bit 10 (unat a)" by (rule unsigned_take_bit_eq)
  finally show ?thesis by (simp add: take_bit_eq_mod)
qed

lemma get_first_lv_unat: "unat (get_first_lv a) = unat a div 32768"
proof -
  have "get_first_lv a = drop_bit 15 a" unfolding get_first_lv_def seg_consts by simp
  then have "unat (get_first_lv a) = unat (drop_bit 15 a)" by (rule arg_cong)
  also have "\<dots> = drop_bit 15 (unat a)" by (rule unat_drop_bit_eq)
  finally show ?thesis by (simp add: drop_bit_eq_div)
qed

lemma get_second_lv_unat: "unat (get_second_lv a) = unat a div 1024 mod 32"
proof -
  have "push_bit 5 (drop_bit 15 a) + take_bit 5 (drop_bit 10 a) = drop_bit 10 a"
    using bits_ident [of 5 "drop_bit 10 a"] unfolding drop_bit_drop_bit by simp
  then have "drop_bit 10 a - push_bit 5 (drop_bit 15 a) = take_bit 5 (drop_bit 10 a)"
    by (simp only: diff_eq_eq add.commute)
  moreover have "get_second_lv a = drop_bit 10 a - push_bit 5 (drop_bit 15 a)"
    unfolding get_second_lv_def get_first_lv_def seg_consts by simp
  ultimately have "get_second_lv a = take_bit 5 (drop_bit 10 a)" by simp
  then have "unat (get_second_lv a) = unat (take_bit 5 (drop_bit 10 a))" by (rule arg_cong)
  also have "\<dots> = take_bit 5 (unat (drop_bit 10 a))" by (rule unsigned_take_bit_eq)
  also have "unat (drop_bit 10 a) = drop_bit 10 (unat a)" by (rule unat_drop_bit_eq)
  finally show ?thesis by (simp add: take_bit_eq_mod drop_bit_eq_div)
qed

text \<open>
  The two-level split of an address loses nothing: the second index is below 32, the offset is
  inside a page, and the three parts give the address back. A 20-bit address has a first index below 32.
\<close>

lemma segment_split:
  "unat (get_second_lv a) < 32 \<and> unat (get_offset a) < 1024
   \<and> unat (get_first_lv a) * 2 ^ 15 + unat (get_second_lv a) * 2 ^ 10 + unat (get_offset a) = unat a
   \<and> (unat a < 2 ^ ADDRESS_SIZE \<longleftrightarrow> unat (get_first_lv a) < 32)"
proof -
  have "n div 32768 * 32768 + n div 1024 mod 32 * 1024 + n mod 1024 = n" for n :: nat
  proof -
    have "n div 32768 = n div 1024 div 32" by (simp add: div_mult2_eq [symmetric])
    moreover have "n div 1024 div 32 * 32 + n div 1024 mod 32 = n div 1024" by (rule div_mult_mod_eq)
    moreover have "n div 1024 * 1024 + n mod 1024 = n" by (rule div_mult_mod_eq)
    ultimately show ?thesis by linarith
  qed
  moreover have "n < 1048576 \<longleftrightarrow> n div 32768 < 32" for n :: nat by (simp add: div_less_iff_less_mult)
  ultimately show ?thesis
    by (simp add: get_offset_unat get_first_lv_unat get_second_lv_unat ADDRESS_SIZE_def)
qed

text \<open>Whatever the tables hold, nothing is allocated, read or written.\<close>

lemma segment_inert:
  assumes "pg_size t = Some n" and "unat r < length (regs x)" and "unat q < length (regs x)"
  shows "seg_alloc x sz q = Inr (1, x)" and "seg_free x r = Inr 0"
    and "seg_read x (Some t) M r off q = Inr (1, x)" and "seg_write x (Some t) M d r off = Inr (1, M)"
  using assms
  by (simp_all add: seg_alloc_def alloc_mem_def seg_free_def free_mem_def seg_read_def read_mem_def
      seg_write_def write_mem_def translate_def get_trans_table_def)

text \<open>Nothing is printed while no page belongs to a process.\<close>

lemma dump_init: "dump init_mem = Inr []"
proof -
  have "rconcat (dump_page init_mem) [0..<NUM_PAGES] = Inr (concat (map (\<lambda>_. []) [0..<NUM_PAGES]))"
    by (rule rconcat_Inr) (simp add: dump_page_def init_mem_def)
  then show ?thesis by (simp add: dump_def)
qed

text \<open>The last byte of a page is never printed.\<close>

lemma dump_misses_last_byte:
  assumes "length (mem_stats M) = NUM_PAGES" and "length (seg_ram M) = RAM_SIZE" and "i < NUM_PAGES"
  shows "dump_page (M\<lparr>seg_ram := (seg_ram M)[(i + 1) * 1024 - 1 := v]\<rparr>) i = dump_page M i"
proof -
  have "rconcat (\<lambda>j. rbind (arr_get ((seg_ram M)[(i + 1) * 1024 - 1 := v]) j) (f j)) js
      = rconcat (\<lambda>j. rbind (arr_get (seg_ram M) j) (f j)) js" if "(i + 1) * 1024 - 1 \<notin> set js" for js and f :: "nat \<Rightarrow> byte \<Rightarrow> string res"
    using that by (induction js) (auto simp: arr_get_def)
  then show ?thesis by (simp add: dump_page_def OFFSET_LEN_def cong: if_cong)
qed

end
