(* ===== verification/Segment_Main.thy ===== *)
theory Segment_Main
  imports Segment Cpu Loader
begin

text \<open>
  \<^verbatim>\<open>src/paging.c\<close>: the main program for tests of the segment-based memory, and \<open>run\<close> of \<^verbatim>\<open>src/cpu.c\<close>
  as a build without \<open>MM_PAGING\<close> compiles it. No rule of the Makefile that works makes this program.
  It loads the file \<^verbatim>\<open>input/p0\<close> twice and runs the two processes in turn.
\<close>

section \<open>The program\<close>

text \<open>
  The field \<open>krnl\<close> of a block that only \<open>load\<close> has seen was never written, so a system call reads it
  unwritten.
\<close>

definition seg_run :: "pcb_t \<Rightarrow> page_table_t option \<Rightarrow> seg_mem \<Rightarrow> (int \<times> pcb_t \<times> seg_mem) res" where
  "seg_run x ptab M =
     (if unat (pc x) \<ge> length (code x) then Inr (1, x, M)
      else (let ins = code x ! unat (pc x); x = x\<lparr>pc := pc x + 1\<rparr> in
        case opcode ins of
          CALC \<Rightarrow> Inr (calc, x, M)
        | ALLOC \<Rightarrow> rbind (seg_alloc x (ucast (arg_0 ins)) (ucast (arg_1 ins))) (\<lambda>(r, x). Inr (r, x, M))
        | FREE \<Rightarrow> rbind (seg_free x (ucast (arg_0 ins))) (\<lambda>r. Inr (r, x, M))
        | READ \<Rightarrow> rbind (seg_read x ptab M (ucast (arg_0 ins)) (ucast (arg_1 ins)) (ucast (arg_2 ins))) (\<lambda>(r, x). Inr (r, x, M))
        | WRITE \<Rightarrow> rbind (seg_write x ptab M (ucast (arg_0 ins)) (ucast (arg_1 ins)) (ucast (arg_2 ins))) (\<lambda>(r, M). Inr (r, x, M))
        | SYSCALL \<Rightarrow> Inl Uninit_Read
        | _ \<Rightarrow> Inr (1, x, M)))"

text \<open>The translation table that \<open>load\<close> allocates and does not fill.\<close>

definition new_page_table :: "page_table_t option" where
  "new_page_table = Some \<lparr>pg_table = [], pg_size = None\<rparr>"

text \<open>The loop of \<open>main\<close>, with \<open>n\<close> rounds to go.\<close>

primrec pair_loop :: "nat \<Rightarrow> pcb_t \<Rightarrow> pcb_t \<Rightarrow> seg_mem \<Rightarrow> (pcb_t \<times> pcb_t \<times> seg_mem) res" where
  "pair_loop 0 proc ld M = Inr (proc, ld, M)"
| "pair_loop (Suc n) proc ld M =
     rbind (seg_run proc new_page_table M) (\<lambda>(_, proc, M).
     rbind (seg_run ld new_page_table M) (\<lambda>(_, ld, M). pair_loop n proc ld M))"

text \<open>
  \<open>main\<close>, given the file system, what the memory of the two blocks and their instructions holds, and
  the static memory: the status it ends with and what \<open>dump\<close> has printed.
\<close>

definition paging_main :: "(string \<Rightarrow> string option) \<Rightarrow> pcb_t \<Rightarrow> (nat \<Rightarrow> inst_t) \<Rightarrow> pcb_t \<Rightarrow> (nat \<Rightarrow> inst_t) \<Rightarrow> seg_mem \<Rightarrow> (int \<times> string) res" where
  "paging_main fs x0 j0 x1 j1 M =
     rbind (load x0 j0 1 (fs ''input/p0'')) (\<lambda>r. case r of None \<Rightarrow> Inr (1, [])
     | Some (ld, pd) \<Rightarrow> rbind (load x1 j1 pd (fs ''input/p0'')) (\<lambda>r. case r of None \<Rightarrow> Inr (1, [])
       | Some (proc, _) \<Rightarrow> rbind (pair_loop (length (code proc)) proc ld M) (\<lambda>(proc, ld, M).
           rbind (dump M) (\<lambda>t. Inr (0, t)))))"

section \<open>What it does\<close>

text \<open>An instruction that has no use for the translation table, with a register that exists.\<close>

definition seg_inst_ok :: "inst_t \<Rightarrow> bool" where
  "seg_inst_ok ins \<longleftrightarrow> opcode ins \<notin> {READ, WRITE, SYSCALL} \<and> (opcode ins = FREE \<longrightarrow> unat (ucast (arg_0 ins) :: u32) < 10)"

lemma seg_run_plain:
  assumes "unat (pc x) < length (code x)" and "seg_inst_ok (code x ! unat (pc x))" and "length (regs x) = 10"
  shows "\<exists>r. seg_run x ptab M = Inr (r, x\<lparr>pc := pc x + 1\<rparr>, M)"
  using assms
  by (cases "opcode (code x ! unat (pc x))")
    (auto simp: seg_run_def Let_def seg_inst_ok_def seg_alloc_def alloc_mem_def seg_free_def free_mem_def)

lemma seg_run_mem:
  assumes "unat (pc x) < length (code x)" and "opcode (code x ! unat (pc x)) \<in> {READ, WRITE, SYSCALL}"
  shows "\<exists>e. seg_run x new_page_table M = Inl e"
proof -
  have t: "translate a new_page_table = Inl Uninit_Read" for a
    by (simp add: translate_def get_trans_table_def new_page_table_def)
  show ?thesis using assms
    by (auto simp: seg_run_def Let_def seg_read_def seg_write_def read_mem_def write_mem_def t arr_get_def)
qed

text \<open>Both processes are at the same place of the same program; they stop at the first access to memory.\<close>

lemma pair_loop_result:
  assumes "length (code proc) = length (code ld)" and "pc proc = pc ld" and "unat (pc proc) + n = length (code proc)"
    and "length (code proc) < 2 ^ 32" and "length (regs proc) = 10" "length (regs ld) = 10"
    and "\<And>i. i < length (code proc) \<Longrightarrow> seg_inst_ok (code proc ! i) \<and> seg_inst_ok (code ld ! i)"
  shows "pair_loop n proc ld M = Inr (proc\<lparr>pc := pc proc + word_of_nat n\<rparr>, ld\<lparr>pc := pc ld + word_of_nat n\<rparr>, M)"
  using assms
proof (induction n arbitrary: proc ld)
  case (Suc n)
  have i: "unat (pc proc) < length (code proc)" using Suc.prems(3) by simp
  then have i': "unat (pc ld) < length (code ld)" using Suc.prems(1,2) by simp
  obtain r where r: "seg_run proc new_page_table M = Inr (r, proc\<lparr>pc := pc proc + 1\<rparr>, M)"
    using seg_run_plain [OF i] Suc.prems(5,7) i by blast
  obtain q where q: "seg_run ld new_page_table M = Inr (q, ld\<lparr>pc := pc ld + 1\<rparr>, M)"
    using seg_run_plain [OF i', of new_page_table M] Suc.prems(1,2,6,7) i by metis
  have u: "unat (pc proc + 1) = unat (pc proc) + 1" using i Suc.prems(4) by (simp add: unat_word_ariths)
  have "pair_loop n (proc\<lparr>pc := pc proc + 1\<rparr>) (ld\<lparr>pc := pc ld + 1\<rparr>) M =
      Inr (proc\<lparr>pc := pc proc + 1 + word_of_nat n\<rparr>, ld\<lparr>pc := pc ld + 1 + word_of_nat n\<rparr>, M)"
    using Suc.IH [of "proc\<lparr>pc := pc proc + 1\<rparr>" "ld\<lparr>pc := pc ld + 1\<rparr>"] Suc.prems u by simp
  then show ?case using r q by (simp add: add.assoc)
qed simp

lemma seg_run_step:
  assumes "seg_run x new_page_table M = Inr (r, x', M')" and "unat (pc x) < length (code x)" and "length (regs x) = 10"
  shows "seg_inst_ok (code x ! unat (pc x)) \<and> x' = x\<lparr>pc := pc x + 1\<rparr>"
proof (cases "opcode (code x ! unat (pc x)) \<in> {READ, WRITE, SYSCALL}")
  case True
  from seg_run_mem [OF assms(2) this, of M] show ?thesis using assms(1) by auto
next
  case False
  show ?thesis using assms False
    by (cases "opcode (code x ! unat (pc x))")
      (auto simp: seg_run_def Let_def seg_inst_ok_def seg_alloc_def alloc_mem_def seg_free_def rbind_Inr_iff arr_get_Inr_iff)
qed

lemma pair_loop_ok:
  assumes "pair_loop n proc ld M = Inr res" and "unat (pc proc) + n = length (code proc)" and "length (code proc) < 2 ^ 32"
    and "length (regs proc) = 10" and "unat (pc proc) \<le> i" "i < length (code proc)"
  shows "seg_inst_ok (code proc ! i)"
  using assms
proof (induction n arbitrary: proc ld M)
  case (Suc n)
  have l: "unat (pc proc) < length (code proc)" using Suc.prems(2) by simp
  obtain r x' M1 where r: "seg_run proc new_page_table M = Inr (r, x', M1)" using Suc.prems(1) by (auto simp: rbind_Inr_iff)
  then obtain q ld' M2 where q: "seg_run ld new_page_table M1 = Inr (q, ld', M2)" "pair_loop n x' ld' M2 = Inr res"
    using Suc.prems(1) by (auto simp: rbind_Inr_iff)
  have s: "seg_inst_ok (code proc ! unat (pc proc))" "x' = proc\<lparr>pc := pc proc + 1\<rparr>"
    using seg_run_step [OF r l Suc.prems(4)] by simp_all
  have u: "unat (pc proc + 1) = unat (pc proc) + 1" using l Suc.prems(3) by (simp add: unat_word_ariths)
  show ?case
  proof (cases "i = unat (pc proc)")
    case False
    then show ?thesis using Suc.IH [OF q(2)] Suc.prems s(2) u by simp
  qed (use s(1) in simp)
qed simp

section \<open>Properties\<close>

lemma load_code:
  assumes "length is < 2 ^ 32" and "length (regs x0) = 10"
  obtains (long) "load x0 j d (Some (program_text pr is)) = Inl Out_Of_Bounds" "\<exists>ins \<in> set is. long_op (opcode ins)"
    | (short) x where "load x0 j d (Some (program_text pr is)) = Inr (Some (x, d + 1))" "\<not> (\<exists>ins \<in> set is. long_op (opcode ins))"
      "length (code x) = length is" "length (regs x) = 10" "pc x = 0"
      "\<And>i. i < length is \<Longrightarrow> seg_inst_ok (code x ! i) \<longleftrightarrow> seg_inst_ok (is ! i)"
proof (cases "\<exists>ins \<in> set is. long_op (opcode ins)")
  case True
  then show ?thesis using long load_correct [OF assms(1), of x0 j d pr] long_ops by simp
next
  case False
  show ?thesis
    by (rule short [OF load_correct [OF assms(1), of x0 j d pr, unfolded long_ops [symmetric] if_not_P [OF False]] False])
      (use assms(2) in \<open>auto simp: nth_enumerate_eq seg_inst_ok_def\<close>)
qed

text \<open>
  The test program of the old memory. On a file in the format of the process descriptions it runs to its end
  only if no instruction uses memory or calls the system, no name overruns the buffer and every release
  names a register; then it prints nothing. Otherwise it has a fault: the size of the translation
  table and the pointer to the kernel are never written.
\<close>

lemma test_main_correct:
  assumes "length is < 2 ^ 32" and "length (regs x0) = 10" and "length (regs x1) = 10"
  shows "paging_main (\<lambda>_. Some (program_text pr is)) x0 j0 x1 j1 init_mem = Inr (0, [])
      \<and> (\<forall>ins \<in> set is. opcode ins \<in> {CALC, ALLOC, KMALLOC, FREE} \<and> (opcode ins = FREE \<longrightarrow> unat (ucast (arg_0 ins) :: u32) < 10))
    \<or> (\<exists>e. paging_main (\<lambda>_. Some (program_text pr is)) x0 j0 x1 j1 init_mem = Inl e)
      \<and> (\<exists>ins \<in> set is. opcode ins \<notin> {CALC, ALLOC, KMALLOC, FREE} \<or> opcode ins = FREE \<and> 10 \<le> unat (ucast (arg_0 ins) :: u32))"
  using assms(1,2)
proof (cases rule: load_code [where j = j0 and d = 1 and pr = pr])
  case long
  then have "\<exists>ins \<in> set is. opcode ins \<notin> {CALC, ALLOC, KMALLOC, FREE}" unfolding long_ops by force
  moreover have "paging_main (\<lambda>_. Some (program_text pr is)) x0 j0 x1 j1 init_mem = Inl Out_Of_Bounds"
    using long(1) by (simp add: paging_main_def)
  ultimately show ?thesis by blast
next
  case (short ld)
  note ld = short
  show ?thesis using assms(1,3)
  proof (cases rule: load_code [where j = j1 and d = 2 and pr = pr])
    case long
    then show ?thesis using ld(2) by blast
  next
    case (short proc)
    define out where "out = pair_loop (length is) proc ld init_mem"
    have m: "paging_main (\<lambda>_. Some (program_text pr is)) x0 j0 x1 j1 init_mem =
        rbind out (\<lambda>(proc, ld, M). rbind (dump M) (\<lambda>t. Inr (0, t)))"
      using ld(1) short(1,3) by (simp add: paging_main_def out_def)
    have opc: "opcode ins \<in> {CALC, ALLOC, KMALLOC, FREE} \<longleftrightarrow> opcode ins \<notin> {READ, WRITE, SYSCALL}" if "ins \<in> set is" for ins
    proof -
      have "opcode ins \<notin> {KMEM_CACHE_CREATE, KMEM_CACHE_ALLOC, COPY_FROM_USER, COPY_TO_USER}" using ld(2) that long_ops by blast
      then show ?thesis by (cases "opcode ins") simp_all
    qed
    have ok: "(\<forall>i < length is. seg_inst_ok (is ! i)) \<longleftrightarrow>
        (\<forall>ins \<in> set is. opcode ins \<in> {CALC, ALLOC, KMALLOC, FREE} \<and> (opcode ins = FREE \<longrightarrow> unat (ucast (arg_0 ins) :: u32) < 10))"
      proof -
      have "(\<forall>i < length is. seg_inst_ok (is ! i)) \<longleftrightarrow> (\<forall>ins \<in> set is. seg_inst_ok ins)" by (simp only: all_set_conv_all_nth)
      also have "\<dots> \<longleftrightarrow> (\<forall>ins \<in> set is. opcode ins \<in> {CALC, ALLOC, KMALLOC, FREE} \<and> (opcode ins = FREE \<longrightarrow> unat (ucast (arg_0 ins) :: u32) < 10))"
        by (rule ball_cong [OF refl]) (simp only: opc seg_inst_ok_def)
      finally show ?thesis .
    qed
    show ?thesis
    proof (cases "\<forall>i < length is. seg_inst_ok (is ! i)")
      case True
      have "out = Inr (proc\<lparr>pc := pc proc + word_of_nat (length is)\<rparr>, ld\<lparr>pc := pc ld + word_of_nat (length is)\<rparr>, init_mem)"
        unfolding out_def by (rule pair_loop_result) (use short ld True assms(1) in simp_all)
      then have "paging_main (\<lambda>_. Some (program_text pr is)) x0 j0 x1 j1 init_mem = Inr (0, [])"
        by (simp add: m dump_init)
      then show ?thesis using True ok by blast
    next
      case False
      then obtain i where i: "i < length is" "\<not> seg_inst_ok (is ! i)" by blast
      have "out \<noteq> Inr res" for res
        proof
        assume "out = Inr res"
        then have "pair_loop (length is) proc ld init_mem = Inr res" by (simp only: out_def)
        from pair_loop_ok [OF this, of i] have "seg_inst_ok (code proc ! i)" using short i assms(1) by simp
        then show False using short(6) [OF i(1)] i(2) by blast
      qed
      then obtain e where "out = Inl e" by (cases out) auto
      then have "paging_main (\<lambda>_. Some (program_text pr is)) x0 j0 x1 j1 init_mem = Inl e" by (simp add: m)
      moreover have "\<exists>ins \<in> set is. opcode ins \<notin> {CALC, ALLOC, KMALLOC, FREE} \<or> opcode ins = FREE \<and> 10 \<le> unat (ucast (arg_0 ins) :: u32)"
        using False [unfolded ok] by (simp only: not_less [symmetric]) blast
      ultimately show ?thesis by blast
    qed
  qed
qed

end
