(* ===== verification/Mm32.thy ===== *)
theory Mm32
  imports Dump
begin

text \<open>
  \<^verbatim>\<open>src/mm.c\<close>, the paging module of a build without \<open>MM64\<close>, in which \<open>addr_t\<close> has 32 bits. Its
  operations on page table entries are complete; the others only report that they are deprecated.
  The theory compares the entries with those of \<^verbatim>\<open>src/mm64.c\<close>.
\<close>

section \<open>Page table entries\<close>

text \<open>The macros of \<^verbatim>\<open>include/mm.h\<close> on a 32-bit entry.\<close>

definition SETBIT32 :: "u32 \<Rightarrow> u32 \<Rightarrow> u32" where "SETBIT32 v m = v OR m"
definition CLRBIT32 :: "u32 \<Rightarrow> u32 \<Rightarrow> u32" where "CLRBIT32 v m = v AND NOT m"
definition SETVAL32 :: "u32 \<Rightarrow> u32 \<Rightarrow> u32 \<Rightarrow> nat \<Rightarrow> u32" where
  "SETVAL32 v value m offst = (v AND NOT m) OR (push_bit offst value AND m)"

text \<open>\<open>init_pte\<close>; unlike the one of \<^verbatim>\<open>mm64.c\<close> it starts from what the entry holds.\<close>

definition init_pte32 :: "u32 \<Rightarrow> bool \<Rightarrow> u32 \<Rightarrow> bool \<Rightarrow> bool \<Rightarrow> u32 \<Rightarrow> u32 \<Rightarrow> int \<times> u32" where
  "init_pte32 pte pre fpn drt swp swptyp swpoff =
     (if pre then
        (if \<not> swp then
           (if fpn = 0 then (-1, pte)
            else
              (let pte = SETBIT32 pte PAGING_PTE_PRESENT_MASK;
                   pte = CLRBIT32 pte PAGING_PTE_SWAPPED_MASK;
                   pte = CLRBIT32 pte PAGING_PTE_DIRTY_MASK
               in (0, SETVAL32 pte fpn PAGING_PTE_FPN_MASK 0)))
         else
           (let pte = SETBIT32 pte PAGING_PTE_PRESENT_MASK;
                pte = SETBIT32 pte PAGING_PTE_SWAPPED_MASK;
                pte = CLRBIT32 pte PAGING_PTE_DIRTY_MASK;
                pte = SETVAL32 pte swptyp PAGING_PTE_SWPTYP_MASK 0
            in (0, SETVAL32 pte swpoff PAGING_PTE_SWPOFF_MASK 5)))
      else (0, pte))"

definition swap_entry32 :: "u32 \<Rightarrow> u32 \<Rightarrow> u32 \<Rightarrow> u32" where
  "swap_entry32 pte swptyp swpoff =
     (let pte = SETBIT32 pte PAGING_PTE_PRESENT_MASK;
          pte = SETBIT32 pte PAGING_PTE_SWAPPED_MASK;
          pte = SETVAL32 pte swptyp PAGING_PTE_SWPTYP_MASK 0
      in SETVAL32 pte swpoff PAGING_PTE_SWPOFF_MASK 5)"

definition fpn_entry32 :: "u32 \<Rightarrow> u32 \<Rightarrow> u32" where
  "fpn_entry32 pte fpn =
     (let pte = SETBIT32 pte PAGING_PTE_PRESENT_MASK;
          pte = CLRBIT32 pte PAGING_PTE_SWAPPED_MASK
      in SETVAL32 pte fpn PAGING_PTE_FPN_MASK 0)"

text \<open>The table of a process is \<open>None\<close> where \<open>krnl->mm\<close> is \<open>NULL\<close>.\<close>

definition pte_modify32 :: "u32 list option \<Rightarrow> u32 \<Rightarrow> (u32 \<Rightarrow> u32) \<Rightarrow> u32 list res" where
  "pte_modify32 tbl pgn f = (case tbl of None \<Rightarrow> Inl Null_Deref
    | Some t \<Rightarrow> rbind (arr_get t (unat pgn)) (\<lambda>pte. arr_set t (unat pgn) (f pte)))"

definition pte_set_swap32 :: "u32 list option \<Rightarrow> u32 \<Rightarrow> int \<Rightarrow> u32 \<Rightarrow> (int \<times> u32 list) res" where
  "pte_set_swap32 tbl pgn swptyp swpoff =
     rbind (pte_modify32 tbl pgn (\<lambda>pte. swap_entry32 pte (word_of_int swptyp) swpoff)) (\<lambda>t. Inr (0, t))"

definition pte_set_fpn32 :: "u32 list option \<Rightarrow> u32 \<Rightarrow> u32 \<Rightarrow> (int \<times> u32 list) res" where
  "pte_set_fpn32 tbl pgn fpn = rbind (pte_modify32 tbl pgn (\<lambda>pte. fpn_entry32 pte fpn)) (\<lambda>t. Inr (0, t))"

definition pte_set_entry32 :: "u32 list option \<Rightarrow> u32 \<Rightarrow> u32 \<Rightarrow> (int \<times> u32 list) res" where
  "pte_set_entry32 tbl pgn pte_val = (case tbl of None \<Rightarrow> Inl Null_Deref
    | Some t \<Rightarrow> rbind (arr_set t (unat pgn) pte_val) (\<lambda>t. Inr (0, t)))"

section \<open>Deprecated operations\<close>

text \<open>
  They return 0, a null pointer where they return one, and print a message; no argument is read and
  nothing is written.
\<close>

definition deprecated :: "string \<Rightarrow> int \<times> string" where
  "deprecated func = (0, ''[ERROR] '' @ func @ '': This feature 32 bit mode is deprecated'' @ nl)"

definition get_pd_from_address32 :: "int \<times> string" where "get_pd_from_address32 = deprecated ''get_pd_from_address''"
definition get_pd_from_pagenum32 :: "int \<times> string" where "get_pd_from_pagenum32 = deprecated ''get_pd_from_pagenum''"
definition pte_get_entry32 :: "int \<times> string" where "pte_get_entry32 = deprecated ''pte_get_entry''"
definition vmap_pgd_memset32 :: "int \<times> string" where "vmap_pgd_memset32 = deprecated ''vmap_pgd_memset''"
definition vmap_page_range32 :: "int \<times> string" where "vmap_page_range32 = deprecated ''vmap_page_range''"
definition alloc_pages_range32 :: "int \<times> string" where "alloc_pages_range32 = deprecated ''alloc_pages_range''"
definition vm_map_ram32 :: "int \<times> string" where "vm_map_ram32 = deprecated ''vm_map_ram''"
definition swap_cp_page32 :: "int \<times> string" where "swap_cp_page32 = deprecated ''__swap_cp_page''"
definition init_mm32 :: "int \<times> string" where "init_mm32 = deprecated ''init_mm''"
definition init_vm_rg32 :: "int \<times> string" where "init_vm_rg32 = deprecated ''init_vm_rg''"
definition enlist_vm_rg_node32 :: "int \<times> string" where "enlist_vm_rg_node32 = deprecated ''enlist_vm_rg_node''"
definition enlist_pgn_node32 :: "int \<times> string" where "enlist_pgn_node32 = deprecated ''enlist_pgn_node''"
definition print_list_fp32 :: "int \<times> string" where "print_list_fp32 = deprecated ''print_list_fp''"
definition print_list_rg32 :: "int \<times> string" where "print_list_rg32 = deprecated ''print_list_rg''"
definition print_list_vma32 :: "int \<times> string" where "print_list_vma32 = deprecated ''print_list_vma''"
definition print_list_pgn32 :: "int \<times> string" where "print_list_pgn32 = deprecated ''print_list_pgn''"
definition print_pgtbl32 :: "int \<times> string" where "print_pgtbl32 = deprecated ''print_pgtbl''"

section \<open>Comparison with the 64-bit module\<close>

lemmas val32_defs = SETBIT32_def CLRBIT32_def SETVAL32_def

lemma fpn_entry32_ucast: "ucast (fpn_entry32 e f) = fpn_entry (ucast e) (ucast f)"
  by (rule bit_word_eqI) (auto simp: fpn_entry32_def fpn_entry_def Let_def val32_defs val_defs mask_defs bit_simps)

lemma swap_entry32_bits:
  "bit (swap_entry32 e t off) i \<longleftrightarrow> i < 32 \<and> (if i \<in> {30, 31} then True
     else if i < 5 then bit t i else if i < 26 then bit off (i - 5) else bit e i)"
  by (auto simp: swap_entry32_def Let_def val32_defs mask_defs bit_simps)

lemma swap_entry32_present: "PAGING_PAGE_PRESENT (swap_entry32 e t off)"
  by (simp add: PAGING_PAGE_PRESENT_bit swap_entry32_bits)

lemma swap_entry32_fpn:
  "unat (PAGING_FPN (swap_entry32 e t off)) = unat t mod 32 + unat off mod 256 * 32"
proof -
  have "PAGING_FPN (swap_entry32 e t off) = push_bit 5 (take_bit 8 off) OR take_bit 5 t"
    unfolding PAGING_FPN_take_bit by (rule bit_word_eqI) (auto simp: swap_entry32_bits bit_simps)
  also have "\<dots> = push_bit 5 (take_bit 8 off) + take_bit 5 t"
    by (subst disjunctive_add) (auto simp: bit_simps)
  finally have "unat (PAGING_FPN (swap_entry32 e t off)) = unat (push_bit 5 (take_bit 8 off) + take_bit 5 t)"
    by (rule arg_cong)
  moreover have "unat (take_bit 8 off) = unat off mod 256" "unat (take_bit 5 t) = unat t mod 32"
    using unsigned_take_bit_eq [of 8 off] unsigned_take_bit_eq [of 5 t]
    by (simp_all only: take_bit_eq_mod) simp_all
  ultimately show ?thesis
    by (simp add: push_bit_eq_mult unat_word_ariths)
qed

text \<open>
  C38. The entries of the 32-bit module. For a page in RAM they are those of the 64-bit module, bit for
  bit, and so is the result of \<open>init_pte\<close> on a cleared entry. For a swapped page they are not: the
  32-bit module also sets the present bit, so that the entry decodes as a page in RAM, in
  the frame that the swap type and the low bits of the swap offset happen to spell.
\<close>

theorem entries32_equivalence:
  "ucast (fpn_entry32 e f) = fpn_entry (ucast e) (ucast f)
   \<and> fst (init_pte32 0 True f d False t off) = fst (init_pte True (ucast f) d False t (ucast off))
   \<and> ucast (snd (init_pte32 0 True f d False t off)) = snd (init_pte True (ucast f) d False t (ucast off))
   \<and> pte_decode (ucast (fpn_entry32 e f)) = Present (unat f mod 8192)
   \<and> pte_decode (ucast (swap_entry32 e t off)) = Present (unat t mod 32 + unat off mod 256 * 32)
   \<and> pte_decode (swap_entry (ucast e) t (ucast off)) = Swapped (unat off mod 2097152)"
proof (intro conjI)
  have cut: "ucast (ucast w :: addr) = w" for w :: u32 by (rule bit_word_eqI) (simp add: bit_simps)
  have u: "ucast f = (0 :: addr) \<longleftrightarrow> f = 0"
    by (metis ucast_0 unat_eq_0 unat_ucast_32_64)
  show "fst (init_pte32 0 True f d False t off) = fst (init_pte True (ucast f) d False t (ucast off))"
    by (simp add: init_pte32_def init_pte_def Let_def u)
  show "ucast (snd (init_pte32 0 True f d False t off)) = snd (init_pte True (ucast f) d False t (ucast off))"
    by (rule bit_word_eqI) (auto simp: init_pte32_def init_pte_def Let_def u val32_defs val_defs mask_defs bit_simps)
  show "pte_decode (ucast (fpn_entry32 e f)) = Present (unat f mod 8192)"
    by (simp add: fpn_entry32_ucast decode_fpn_entry)
  show "pte_decode (ucast (swap_entry32 e t off)) = Present (unat t mod 32 + unat off mod 256 * 32)"
    by (simp add: pte_decode_def Let_def cut swap_entry32_present swap_entry32_fpn)
  show "pte_decode (swap_entry (ucast e) t (ucast off)) = Swapped (unat off mod 2097152)"
    by (simp add: decode_swap_entry)
qed (rule fpn_entry32_ucast)

end
