(* ===== verification/Sched_Single.thy ===== *)
theory Sched_Single
  imports Sched
begin

text \<open>
  \<^verbatim>\<open>src/sched.c\<close> without \<open>MLQ_SCHED\<close>: one ready queue for all processes. The state is that of
  \<open>Sched\<close>, of which this build has only the single queues.
\<close>

section \<open>Operations\<close>

definition single_queue_empty :: "sched_t \<Rightarrow> bool" where
  "single_queue_empty s \<longleftrightarrow> empty (ready_queue s) \<and> empty (run_queue s)"

definition single_get_proc :: "heap \<Rightarrow> sched_t \<Rightarrow> (ptr \<times> sched_t) res" where
  "single_get_proc h s =
     rbind (dequeue h (ready_queue s)) (\<lambda>(proc, q).
       if proc \<noteq> NULL then rbind (enqueue (running_list s) proc) (\<lambda>r.
         Inr (proc, s\<lparr>ready_queue := q, running_list := r\<rparr>))
       else Inr (proc, s\<lparr>ready_queue := q\<rparr>))"

text \<open>The two assignments to \<open>proc->krnl\<close> that the other three start with.\<close>

definition link_queues :: "heap \<Rightarrow> ptr \<Rightarrow> heap res" where
  "link_queues h proc = rbind (deref h proc) (\<lambda>x. Inr (h(proc \<mapsto> x\<lparr>krnl_queues := True\<rparr>)))"

definition single_put_proc :: "heap \<Rightarrow> sched_t \<Rightarrow> ptr \<Rightarrow> (heap \<times> sched_t) res" where
  "single_put_proc h s proc =
     rbind (link_queues h proc) (\<lambda>h.
     rbind (purgequeue (running_list s) proc) (\<lambda>(_, r).
     rbind (enqueue (ready_queue s) proc) (\<lambda>q. Inr (h, s\<lparr>running_list := r, ready_queue := q\<rparr>))))"

definition single_add_proc :: "heap \<Rightarrow> sched_t \<Rightarrow> ptr \<Rightarrow> (heap \<times> sched_t) res" where
  "single_add_proc h s proc =
     rbind (link_queues h proc) (\<lambda>h.
     rbind (enqueue (ready_queue s) proc) (\<lambda>q. Inr (h, s\<lparr>ready_queue := q\<rparr>)))"

definition single_finish_proc :: "heap \<Rightarrow> sched_t \<Rightarrow> ptr \<Rightarrow> (heap \<times> sched_t) res" where
  "single_finish_proc h s proc =
     rbind (link_queues h proc) (\<lambda>h.
     rbind (purgequeue (running_list s) proc) (\<lambda>(_, r). Inr (h, s\<lparr>running_list := r\<rparr>)))"

section \<open>Runs\<close>

definition single_inv :: "heap \<Rightarrow> sched_t \<Rightarrow> bool" where
  "single_inv h s \<longleftrightarrow> q_inv (ready_queue s) \<and> q_inv (run_queue s) \<and> q_inv (running_list s)
     \<and> live h (q_list (ready_queue s)) \<and> live h (q_list (running_list s))"

abbreviation waiting :: "sched_t \<Rightarrow> ptr list" where "waiting s \<equiv> q_list (ready_queue s)"
abbreviation running :: "sched_t \<Rightarrow> ptr list" where "running s \<equiv> q_list (running_list s)"

text \<open>
  The operations in any order, as the processors and the loader call them: a process that is put
  back or finished is running, and one that is added is new.
\<close>

datatype single_event = SGot ptr | SIdle | SPut ptr | SFinished ptr | SAdded ptr

inductive single_step :: "heap \<times> sched_t \<Rightarrow> single_event \<Rightarrow> heap \<times> sched_t \<Rightarrow> bool" where
  got: "single_get_proc h s = Inr (p, s') \<Longrightarrow> p \<noteq> NULL \<Longrightarrow> single_step (h, s) (SGot p) (h, s')"
| idle: "single_get_proc h s = Inr (NULL, s') \<Longrightarrow> single_step (h, s) SIdle (h, s')"
| put: "p \<in> set (running s) \<Longrightarrow> single_put_proc h s p = Inr \<sigma> \<Longrightarrow> single_step (h, s) (SPut p) \<sigma>"
| finished: "p \<in> set (running s) \<Longrightarrow> single_finish_proc h s p = Inr \<sigma> \<Longrightarrow> single_step (h, s) (SFinished p) \<sigma>"
| added: "p \<noteq> NULL \<Longrightarrow> h p = None \<Longrightarrow> single_add_proc (h(p \<mapsto> x)) s p = Inr \<sigma> \<Longrightarrow> single_step (h, s) (SAdded p) \<sigma>"

inductive single_run :: "heap \<times> sched_t \<Rightarrow> single_event list \<Rightarrow> heap \<times> sched_t \<Rightarrow> bool" where
  nil: "single_run \<sigma> [] \<sigma>"
| snoc: "single_run \<sigma> es \<sigma>' \<Longrightarrow> single_step \<sigma>' e \<sigma>'' \<Longrightarrow> single_run \<sigma> (es @ [e]) \<sigma>''"

text \<open>The processes that are in the system: added and not finished.\<close>

fun account :: "ptr multiset \<Rightarrow> single_event \<Rightarrow> ptr multiset" where
  "account M (SAdded p) = add_mset p M"
| "account M (SFinished p) = M - {#p#}"
| "account M _ = M"

definition in_system :: "single_event list \<Rightarrow> ptr multiset" where
  "in_system es = foldl account {#} es"

lemma in_system_simps [simp]: "in_system [] = {#}" "in_system (es @ [e]) = account (in_system es) e"
  by (simp_all add: in_system_def)

lemma live_upd: "live h ps \<Longrightarrow> live (h(p \<mapsto> x)) ps"
  by (auto simp: live_def)

lemma link_queues_eq: "p \<noteq> NULL \<Longrightarrow> h p = Some x \<Longrightarrow> link_queues h p = Inr (h(p \<mapsto> x\<lparr>krnl_queues := True\<rparr>))"
  by (simp add: link_queues_def)

section \<open>Each operation\<close>

lemma single_get_returns:
  assumes inv: "single_inv h s" and room: "length (running s) < 50"
  shows "returns (single_get_proc h s) (\<lambda>(p, s'). single_inv h s' \<and>
    (if waiting s = [] then p = NULL \<and> running s' = running s \<and> waiting s' = []
     else p \<noteq> NULL \<and> running s' = running s @ [p]
       \<and> (\<exists>i. first_min h (waiting s) i \<and> p = waiting s ! i \<and> waiting s' = drop_nth i (waiting s))))"
proof (cases "waiting s = []")
  case True
  then have "single_get_proc h s = Inr (NULL, s\<lparr>ready_queue := ready_queue s\<rparr>)"
    using inv pq.deq_none by (simp add: single_get_proc_def single_inv_def)
  then show ?thesis using inv True by simp
next
  case False
  obtain p q i where d: "dequeue h (ready_queue s) = Inr (p, q)" "q_inv q" "first_min h (waiting s) i"
      "p = waiting s ! i" "q_list q = drop_nth i (waiting s)"
    using pq.deq_first_min [of "ready_queue s" h] inv False by (auto simp: single_inv_def elim!: returnsE)
  then have p: "p \<noteq> NULL" "h p \<noteq> None"
    using inv live_nth [of h "waiting s" i] by (auto simp: single_inv_def first_min_def)
  obtain r where r: "enqueue (running_list s) p = Inr r" "q_inv r" "q_list r = running s @ [p]"
    using pq.enq [of "running_list s" p] inv p(1) room by (auto simp: single_inv_def MAX_QUEUE_SIZE_def elim!: returnsE)
  have "live h (drop_nth i (waiting s))"
    using live_subset [OF _ set_drop_nth_subset] inv by (auto simp: single_inv_def)
  then have "single_inv h (s\<lparr>ready_queue := q, running_list := r\<rparr>)"
    using inv d r p by (simp add: single_inv_def)
  then show ?thesis using d r p False by (auto simp: single_get_proc_def)
qed

lemma single_put_returns:
  assumes inv: "single_inv h s" and p: "p \<noteq> NULL" "h p = Some x" and room: "length (waiting s) < 50"
  shows "returns (single_put_proc h s p) (\<lambda>(h', s'). single_inv h' s' \<and> h' = h(p \<mapsto> x\<lparr>krnl_queues := True\<rparr>)
     \<and> running s' = remove1 p (running s) \<and> waiting s' = waiting s @ [p])"
    and "returns (single_add_proc h s p) (\<lambda>(h', s'). single_inv h' s' \<and> h' = h(p \<mapsto> x\<lparr>krnl_queues := True\<rparr>)
     \<and> running s' = running s \<and> waiting s' = waiting s @ [p])"
proof -
  obtain r y where r: "purgequeue (running_list s) p = Inr (y, r)" "q_inv r" "q_list r = remove1 p (running s)"
    using pq.purge [of "running_list s" p] inv p(1) by (auto simp: single_inv_def elim!: returnsE)
  obtain q where q: "enqueue (ready_queue s) p = Inr q" "q_inv q" "q_list q = waiting s @ [p]"
    using pq.enq [of "ready_queue s" p] inv p(1) room by (auto simp: single_inv_def MAX_QUEUE_SIZE_def elim!: returnsE)
  let ?h = "h(p \<mapsto> x\<lparr>krnl_queues := True\<rparr>)"
  have "live ?h (remove1 p (running s))" "live ?h (waiting s @ [p])" "live ?h (running s)"
    using inv p live_subset [OF _ set_remove1_subset, of h "running s" p] by (auto simp: single_inv_def live_upd)
  then show "returns (single_put_proc h s p) (\<lambda>(h', s'). single_inv h' s' \<and> h' = ?h
       \<and> running s' = remove1 p (running s) \<and> waiting s' = waiting s @ [p])"
    and "returns (single_add_proc h s p) (\<lambda>(h', s'). single_inv h' s' \<and> h' = ?h
       \<and> running s' = running s \<and> waiting s' = waiting s @ [p])"
    using inv r q p by (simp_all add: single_put_proc_def single_add_proc_def link_queues_eq single_inv_def)
qed

lemma single_finish_returns:
  assumes inv: "single_inv h s" and p: "p \<noteq> NULL" "h p = Some x"
  shows "returns (single_finish_proc h s p) (\<lambda>(h', s'). single_inv h' s' \<and> h' = h(p \<mapsto> x\<lparr>krnl_queues := True\<rparr>)
     \<and> running s' = remove1 p (running s) \<and> waiting s' = waiting s)"
proof -
  obtain r y where r: "purgequeue (running_list s) p = Inr (y, r)" "q_inv r" "q_list r = remove1 p (running s)"
    using pq.purge [of "running_list s" p] inv p(1) by (auto simp: single_inv_def elim!: returnsE)
  let ?h = "h(p \<mapsto> x\<lparr>krnl_queues := True\<rparr>)"
  have "live ?h (remove1 p (running s))" "live ?h (waiting s)"
    using inv live_subset [OF _ set_remove1_subset, of h "running s" p] by (auto simp: single_inv_def live_upd)
  then show ?thesis using inv r p by (simp add: single_finish_proc_def link_queues_eq single_inv_def)
qed

section \<open>Properties\<close>

lemma single_step_inv:
  assumes "single_step \<sigma> e \<sigma>'" and "single_inv (fst \<sigma>) (snd \<sigma>)"
    and "mset (waiting (snd \<sigma>)) + mset (running (snd \<sigma>)) = M" and "size (account M e) \<le> 50" and "size M \<le> 50"
  shows "single_inv (fst \<sigma>') (snd \<sigma>') \<and> mset (waiting (snd \<sigma>')) + mset (running (snd \<sigma>')) = account M e"
proof -
  obtain h s where \<sigma>: "\<sigma> = (h, s)" by (cases \<sigma>)
  have inv: "single_inv h s" and M: "M = mset (waiting s) + mset (running s)" using assms(2,3) \<sigma> by simp_all
  have len: "length (waiting s) + length (running s) \<le> 50" using assms(5) M by simp
  have up: "p \<noteq> NULL \<and> (\<exists>x. h p = Some x) \<and> length (waiting s) < 50" if "p \<in> set (running s)" for p
    using that inv len by (cases "running s") (auto simp: single_inv_def live_def)
  show ?thesis using assms(1) unfolding \<sigma>
  proof cases
    case (got p s')
    have w: "waiting s \<noteq> []" using got(3,4) inv pq.deq_none by (auto simp: single_get_proc_def single_inv_def)
    then have "length (running s) < 50" using len by (cases "waiting s") auto
    from single_get_returns [OF inv this] got(3) w obtain i where i: "single_inv h s'" "running s' = running s @ [p]"
        "first_min h (waiting s) i" "p = waiting s ! i" "waiting s' = drop_nth i (waiting s)" by auto
    then have "i < length (waiting s)" by (simp add: first_min_def)
    from add_mset_drop_nth [OF this] i got M show ?thesis by simp
  next
    case (idle s')
    show ?thesis
    proof (cases "waiting s = []")
      case True
      then have "single_get_proc h s = Inr (NULL, s\<lparr>ready_queue := ready_queue s\<rparr>)"
        using inv pq.deq_none by (simp add: single_get_proc_def single_inv_def)
      then show ?thesis using idle inv M by simp
    next
      case False
      then have "length (running s) < 50" using len by (cases "waiting s") auto
      from single_get_returns [OF inv this] idle(3) False show ?thesis by auto
    qed
  next
    case (put p)
    then obtain x where x: "p \<noteq> NULL" "h p = Some x" "length (waiting s) < 50" using up by blast
    then show ?thesis using single_put_returns(1) [OF inv x] put M by (auto elim!: returnsE)
  next
    case (finished p)
    then obtain x where x: "p \<noteq> NULL" "h p = Some x" using up by blast
    then show ?thesis using single_finish_returns [OF inv x] finished M by (auto elim!: returnsE)
  next
    case (added p x)
    have inv': "single_inv (h(p \<mapsto> x)) s" using inv by (simp add: single_inv_def live_upd)
    have "length (waiting s) < 50" using assms(4) M added(1) by simp
    then show ?thesis using single_put_returns(2) [OF inv' added(2), of x] added M by (auto elim!: returnsE)
  qed
qed

text \<open>No more than 50 processes are in the system at any time.\<close>

fun small :: "single_event list \<Rightarrow> bool" where
  "small es = (\<forall>n \<le> length es. size (in_system (take n es)) \<le> 50)"

declare small.simps [simp del]

lemma small_snoc: "small (es @ [e]) \<Longrightarrow> small es \<and> size (in_system es) \<le> 50 \<and> size (account (in_system es) e) \<le> 50"
proof -
  assume s: "small (es @ [e])"
  have "size (in_system (take n es)) \<le> 50" if "n \<le> length es" for n
    using s that by (auto simp: small.simps dest: spec [of _ n])
  moreover have "size (in_system (take (length es + 1) (es @ [e]))) \<le> 50"
    using s unfolding small.simps by (metis Suc_eq_plus1 length_append_singleton order_refl)
  moreover have "size (in_system es) \<le> 50" using calculation(1) [of "length es"] by simp
  ultimately show ?thesis by (simp add: small.simps)
qed

lemma single_run_inv:
  assumes "single_run \<sigma> es \<sigma>'" and "single_inv (fst \<sigma>) (snd \<sigma>)" and "waiting (snd \<sigma>) = []" "running (snd \<sigma>) = []" and "small es"
  shows "single_inv (fst \<sigma>') (snd \<sigma>') \<and> mset (waiting (snd \<sigma>')) + mset (running (snd \<sigma>')) = in_system es"
  using assms
proof (induction rule: single_run.induct)
  case (snoc \<sigma> es \<sigma>' e \<sigma>'')
  note s = small_snoc [OF snoc.prems(4)]
  have "single_inv (fst \<sigma>') (snd \<sigma>')" "mset (waiting (snd \<sigma>')) + mset (running (snd \<sigma>')) = in_system es"
    using snoc.IH snoc.prems s by simp_all
  from single_step_inv [OF snoc.hyps(2) this] s show ?case by simp
qed simp

text \<open>
  C37. The scheduler with a single queue. From its initialisation, under any sequence of dispatches,
  returns, arrivals and ends of processes of which at most 50 are in the system at a time, no process
  is lost, duplicated or kept after its end: those that wait and those that run are together exactly
  those that were added and have not finished. The next dispatch takes the first of the waiting
  processes of least \<open>priority\<close> value.
\<close>

theorem single_queue_conserves:
  assumes "single_run (Map.empty, init_scheduler static_sched) es (h, s)" and "small es"
  shows "mset (waiting s) + mset (running s) = in_system es
    \<and> (waiting s \<noteq> [] \<longrightarrow> returns (single_get_proc h s) (\<lambda>(p, s'). \<exists>i. first_min h (waiting s) i \<and> p = waiting s ! i
         \<and> waiting s' = drop_nth i (waiting s) \<and> running s' = running s @ [p]))
    \<and> (single_queue_empty s \<longleftrightarrow> waiting s = [] \<and> q_list (run_queue s) = [])"
proof -
  have init: "single_inv Map.empty (init_scheduler static_sched)"
      "waiting (init_scheduler static_sched) = []" "running (init_scheduler static_sched) = []"
    by (simp_all add: single_inv_def init_scheduler_def static_sched_def empty_queue_def q_inv_def q_list_def)
  have r: "single_inv h s" "mset (waiting s) + mset (running s) = in_system es"
    using single_run_inv [OF assms(1)] init assms(2) by simp_all
  have "size (in_system (take (length es) es)) \<le> 50" using assms(2) unfolding small.simps by blast
  then have len: "length (waiting s) + length (running s) \<le> 50" using r(2) by (metis size_mset size_union take_all_iff order_refl)
  have "returns (single_get_proc h s) (\<lambda>(p, s'). \<exists>i. first_min h (waiting s) i \<and> p = waiting s ! i
         \<and> waiting s' = drop_nth i (waiting s) \<and> running s' = running s @ [p])" if "waiting s \<noteq> []"
  proof -
    have "length (running s) < 50" using that len by (cases "waiting s") auto
    from single_get_returns [OF r(1) this] that show ?thesis by (auto elim!: returns_mono)
  qed
  then show ?thesis using r by (auto simp: single_queue_empty_def empty_iff single_inv_def)
qed

theorem single_queue_conserves_witness:
  "\<exists>h s. single_run (Map.empty, init_scheduler static_sched) [SAdded 3] (h, s)
     \<and> mset (waiting s) + mset (running s) = {#3#}"
proof -
  let ?s = "init_scheduler static_sched"
  have inv: "single_inv [3 \<mapsto> sample_pcb 1 2 0] ?s" and w: "waiting ?s = []"
    by (simp_all add: single_inv_def init_scheduler_def static_sched_def empty_queue_def q_inv_def q_list_def)
  then obtain h s where "single_add_proc [3 \<mapsto> sample_pcb 1 2 0] ?s 3 = Inr (h, s)"
    using single_put_returns(2) [OF inv, of 3 "sample_pcb 1 2 0"] by (auto elim!: returnsE)
  then have "single_step (Map.empty, ?s) (SAdded 3) (h, s)" by (intro single_step.added) simp_all
  from single_run.snoc [OF single_run.nil this]
  have run: "single_run (Map.empty, ?s) [SAdded 3] (h, s)" by simp
  have small: "small [SAdded 3]" by (auto simp: small.simps in_system_def le_Suc_eq)
  have "mset (waiting s) + mset (running s) = in_system [SAdded 3]"
    using single_queue_conserves [OF run small] by blast
  then show ?thesis using run by (auto simp: in_system_def)
qed

end
