(* ===== verification/Os_Log.thy ===== *)
theory Os_Log
  imports Os_Props Dump
begin

text \<open>
  What the threads of \<^verbatim>\<open>src/os.c\<close> print on the standard output: the lines of the processors, the
  loader and the timer, and those of the memory library under \<open>IODUMP\<close>. The theory shows that the
  lines about a process tell its life in order, and that they agree with the state of the simulator.
\<close>

section \<open>Lines\<close>

datatype log_line = Slot_Line addr | Ld_Line | Loaded_Line string u32 addr | Dispatched_Line nat u32
  | Put_Line nat u32 u32 nat | Finished_Line nat u32 | Stopped_Line nat | Call_Line string

text \<open>\<open>%d\<close> and \<open>%2d\<close> of a number that the code stores without a sign.\<close>

definition fmt_ud :: "'a::len word \<Rightarrow> string" where "fmt_ud w = fmt_d (sint w)"
definition fmt_2d :: "'a::len word \<Rightarrow> string" where "fmt_2d w = pad (CHR '' '') 2 (fmt_d (sint w))"

definition tab :: string where "tab = [CHR 0x09]"

fun line_text :: "log_line \<Rightarrow> string" where
  "line_text (Slot_Line t) = ''Time slot '' @ pad (CHR '' '') 3 (fmt_lu t) @ nl"
| "line_text Ld_Line = ''ld_routine'' @ nl"
| "line_text (Loaded_Line file d pr) =
     tab @ ''Loaded a process at '' @ file @ '', PID: '' @ fmt_ud d @ '' PRIO: '' @ fmt_ud pr @ nl"
| "line_text (Dispatched_Line i d) = tab @ ''CPU '' @ dec i @ '': Dispatched process '' @ fmt_2d d @ nl"
| "line_text (Put_Line i d n sz) = tab @ ''CPU '' @ dec i @ '': Put process '' @ fmt_2d d
     @ '' to run queue (pc='' @ fmt_ud n @ ''/'' @ fmt_ud (word_of_nat sz :: u32) @ '')'' @ nl"
| "line_text (Finished_Line i d) = tab @ ''CPU '' @ dec i @ '': Processed '' @ fmt_2d d @ '' has finished'' @ nl"
| "line_text (Stopped_Line i) = tab @ ''CPU '' @ dec i @ '' stopped'' @ nl"
| "line_text (Call_Line t) = t"

section \<open>Library calls\<close>

text \<open>
  The output of an instruction of the block \<open>x\<close> whose program counter was moved. \<open>dirs\<close> has the
  addresses of its page directories, which \<open>print_pgtbl\<close> prints, and \<open>ln\<close> is \<open>__LINE__\<close>. A call that
  fails prints nothing.
\<close>

definition call_text :: "string \<Rightarrow> nat \<Rightarrow> pcb_t \<Rightarrow> string" where
  "call_text func ln x = func @ '':'' @ dec ln @ '' pid='' @ dec (unat (pid x)) @ '' pc='' @ dec (unat (pc x))"

definition liballoc_out :: "addr \<times> addr \<times> addr \<times> addr \<Rightarrow> pcb_t \<Rightarrow> krnl_t \<Rightarrow> addr \<Rightarrow> u32 \<Rightarrow> string" where
  "liballoc_out dirs x k sz reg_index = (case alloc_region k 0 (sint reg_index) sz of
      Inr (Some a, _) \<Rightarrow> call_text ''liballoc'' 180 x @ '' alloc reg='' @ dec (unat reg_index)
        @ '' size='' @ fmt_lu sz @ '' addr=0x'' @ hex 97 (unat a) @ nl @ snd (print_pgtbl (Some dirs))
    | _ \<Rightarrow> [])"

definition libfree_out :: "addr \<times> addr \<times> addr \<times> addr \<Rightarrow> pcb_t \<Rightarrow> krnl_t \<Rightarrow> u32 \<Rightarrow> string" where
  "libfree_out dirs x k reg_index = (case free_region k 0 (sint reg_index) of
      Inr (val, _) \<Rightarrow> if val = -1 then []
        else call_text ''libfree'' 214 x @ '' free reg='' @ dec (unat reg_index) @ nl @ snd (print_pgtbl (Some dirs))
    | _ \<Rightarrow> [])"

definition libread_out :: "addr \<times> addr \<times> addr \<times> addr \<Rightarrow> pcb_t \<Rightarrow> krnl_t \<Rightarrow> u32 \<Rightarrow> addr \<Rightarrow> string" where
  "libread_out dirs x k source offset = (case libread k source offset of
      Inr (Some v, _) \<Rightarrow> call_text ''libread'' 409 x @ '' read reg='' @ dec (unat source)
        @ '' offset='' @ fmt_lu offset @ '' data='' @ dec (unat v) @ '' dest='' @ dec (unat v) @ nl
        @ snd (print_pgtbl (Some dirs))
    | _ \<Rightarrow> [])"

text \<open>The line of \<open>libwrite\<close> is commented out.\<close>

definition libwrite_out :: "addr \<times> addr \<times> addr \<times> addr \<Rightarrow> krnl_t \<Rightarrow> byte \<Rightarrow> u32 \<Rightarrow> addr \<Rightarrow> string" where
  "libwrite_out dirs k data destination offset = (case libwrite k data destination offset of
      Inr (val, _) \<Rightarrow> if val \<noteq> 0 then [] else snd (print_pgtbl (Some dirs))
    | _ \<Rightarrow> [])"

text \<open>\<open>__sys_listsyscall\<close> on the table that the build makes of \<^verbatim>\<open>src/syscall.tbl\<close>.\<close>

definition sys_call_table :: "string list" where
  "sys_call_table = [''0-sys_listsyscall'', ''17-sys_memmap'']"

definition listsyscall_out :: string where
  "listsyscall_out = concat (map (\<lambda>t. t @ nl) sys_call_table)"

definition memmap_out :: "kern \<Rightarrow> pcb_t \<Rightarrow> addr \<Rightarrow> string" where
  "memmap_out K x op = (case find_caller K (krnl_queues x) (pid x) of
      Inr caller \<Rightarrow> if caller = NULL \<or> int_arg op \<in> {SYSMEM_MAP_OP, SYSMEM_INC_OP, SYSMEM_SWP_OP, SYSMEM_IO_READ, SYSMEM_IO_WRITE}
        then [] else ''Memop code: '' @ fmt_d (int_arg op) @ nl
    | _ \<Rightarrow> [])"

definition run_out :: "addr \<times> addr \<times> addr \<times> addr \<Rightarrow> kern \<Rightarrow> ptr \<Rightarrow> string" where
  "run_out dirs K p = (case procs K p of None \<Rightarrow> [] | Some x \<Rightarrow>
     if unat (pc x) \<ge> length (code x) then []
     else (let ins = code x ! unat (pc x); x = x\<lparr>pc := pc x + 1\<rparr>; K = K\<lparr>procs := (procs K)(p \<mapsto> x)\<rparr>; k = krnl_of K x in
       case opcode ins of
         ALLOC \<Rightarrow> liballoc_out dirs x k (arg_0 ins) (ucast (arg_1 ins))
       | FREE \<Rightarrow> libfree_out dirs x k (ucast (arg_0 ins))
       | READ \<Rightarrow> libread_out dirs x k (ucast (arg_0 ins)) (arg_1 ins)
       | WRITE \<Rightarrow> libwrite_out dirs k (ucast (arg_0 ins)) (ucast (arg_1 ins)) (arg_2 ins)
       | SYSCALL \<Rightarrow> if ucast (arg_0 ins) = (0 :: u32) then listsyscall_out
           else if ucast (arg_0 ins) = (17 :: u32) then memmap_out K x (arg_1 ins) else []
       | _ \<Rightarrow> []))"

section \<open>The threads\<close>

text \<open>What a step prints. A step that follows a dangling pointer has a fault and no output.\<close>

definition cpu_out :: "addr \<times> addr \<times> addr \<times> addr \<Rightarrow> nat \<Rightarrow> bool \<Rightarrow> kern \<Rightarrow> cpu \<Rightarrow> log_line list" where
  "cpu_out dirs i dn K c = (case cpc c of
      Top \<Rightarrow> if proc c = NULL then [] else (case procs K (proc c) of None \<Rightarrow> [] | Some x \<Rightarrow>
          if unat (pc x) = length (code x) then [Finished_Line i (pid x)]
          else if time_left c = 0 then [Put_Line i (pid x) (pc x) (length (code x))] else [])
    | Recheck \<Rightarrow> if proc c = NULL \<and> dn then [Stopped_Line i]
        else if proc c = NULL then []
        else if time_left c = 0 then (case procs K (proc c) of None \<Rightarrow> [] | Some x \<Rightarrow> [Dispatched_Line i (pid x)])
        else []
    | Exec \<Rightarrow> [Call_Line (run_out dirs K (proc c))]
    | _ \<Rightarrow> [])"

text \<open>The priority has a value: the loader has read it when it is at \<open>Ld_Wait\<close>.\<close>

definition ld_out :: "config \<Rightarrow> os \<Rightarrow> log_line list" where
  "ld_out cf s = (let l = ld s; i = next_process l in case lpc l of
      Ld_Top \<Rightarrow> if i = 0 then [Ld_Line] else []
    | Ld_Wait \<Rightarrow> (case (arr_get (ld_processes cf) i, procs (kernel s) (ld_proc l)) of
        (Inr a, Some x) \<Rightarrow> (case start_time a of
            Some t \<Rightarrow> if current_time (tm (bar s)) < t then [] else [Loaded_Line (path a) (pid x) (the (ld_prio a))]
          | None \<Rightarrow> [])
      | _ \<Rightarrow> [])
    | _ \<Rightarrow> [])"

definition timer_out :: "barrier \<Rightarrow> log_line list" where
  "timer_out b = (if tpc b = Loop \<and> \<not> timer_stop (tm b) then [Slot_Line (current_time (tm b))] else [])"

definition os_out :: "addr \<times> addr \<times> addr \<times> addr \<Rightarrow> config \<Rightarrow> os \<Rightarrow> os_event \<Rightarrow> log_line list" where
  "os_out dirs cf s e = (case e of
      Cpu_Step i \<Rightarrow> cpu_out dirs i (all_loaded s) (kernel s) (cpus s ! i)
    | Cpu_Run i x \<Rightarrow> cpu_out dirs i (all_loaded s) (kernel s) (cpus s ! i)
    | Loader_Step \<Rightarrow> ld_out cf s
    | Bar Timer \<Rightarrow> timer_out (bar s)
    | _ \<Rightarrow> [])"

section \<open>The ends of the simulator\<close>

text \<open>
  What is printed before a call of \<open>exit\<close>: by \<open>get_opcode\<close> for a name it does not know, found by the
  loop of \<open>load\<close>, by \<open>load\<close> for a file that cannot be opened, and by \<open>main\<close> and \<open>read_config\<close>.
\<close>

primrec load_loop_out :: "(nat \<Rightarrow> inst_t) \<Rightarrow> nat \<Rightarrow> nat \<Rightarrow> string option \<Rightarrow> string option \<Rightarrow> string \<Rightarrow> string" where
  "load_loop_out j 0 i opbuf buf file = []"
| "load_loop_out j (Suc n) i opbuf buf file = (case scan_word 10 file of Inl _ \<Rightarrow> []
    | Inr (w, file) \<Rightarrow> (let opbuf = (if w = None then opbuf else w) in
        case opbuf of None \<Rightarrow> []
        | Some opt \<Rightarrow> (case get_opcode opt of
            None \<Rightarrow> ''get_opcode return Opcode: '' @ c_str opt @ nl
          | Some op \<Rightarrow> (case read_args ((j i)\<lparr>opcode := op\<rparr>) buf file of Inl _ \<Rightarrow> []
              | Inr (ins, buf, file) \<Rightarrow> load_loop_out j n (i + 1) opbuf buf file))))"

definition load_out :: "(nat \<Rightarrow> inst_t) \<Rightarrow> string \<Rightarrow> string option \<Rightarrow> string" where
  "load_out j file_name file = (case file of
      None \<Rightarrow> ''Cannot find process description at '' @ [CHR 0x27] @ file_name @ [CHR 0x27] @ nl
    | Some s \<Rightarrow> (case scan_nums to_unsigned 2 s of
        Inr ([pr, sz], s) \<Rightarrow> load_loop_out j (unat (sz :: u32)) 0 None None s
      | _ \<Rightarrow> []))"

definition main_out :: "(string \<Rightarrow> string option) \<Rightarrow> string list \<Rightarrow> string" where
  "main_out fs argv =
     (if length argv \<noteq> 2 then ''Usage: os [path to configure file]'' @ nl
      else if fs (''input/'' @ argv ! 1) = None
      then ''Cannot find configure file at '' @ ''input/'' @ argv ! 1 @ nl else [])"

lemma load_loop_explained:
  "load_loop j n i ob b f = Inr r \<Longrightarrow> r = None \<longleftrightarrow> load_loop_out j n i ob b f \<noteq> []"
proof (induction n arbitrary: i ob b f r)
  case (Suc n)
  obtain w g where w: "scan_word 10 f = Inr (w, g)" using Suc.prems by (auto simp: rbind_Inr_iff)
  then obtain opt where opt: "(if w = None then ob else w) = Some opt"
    using Suc.prems by (auto simp: Let_def split: option.splits)
  show ?case
  proof (cases "get_opcode opt")
    case None
    then show ?thesis using Suc.prems w opt by (auto simp: Let_def)
  next
    case (Some op)
    then obtain ins b' g' q where q: "read_args ((j i)\<lparr>opcode := op\<rparr>) b g = Inr (ins, b', g')"
        "load_loop j n (i + 1) (Some opt) b' g' = Inr q" "r = map_option (Cons ins) q"
      using Suc.prems w opt by (auto simp: Let_def rbind_Inr_iff)
    then show ?thesis using Suc.IH [OF q(2)] w opt Some by (simp add: Let_def)
  qed
qed simp

text \<open>\<open>load\<close> ends the simulator exactly when it has printed why, and so does \<open>main\<close> before its threads start.\<close>

lemma load_explained:
  assumes "load x0 j pd f = Inr r"
  shows "r = None \<longleftrightarrow> load_out j file_name f \<noteq> []"
proof (cases f)
  case (Some s)
  then obtain ws :: "u32 list" and u where ws: "scan_nums to_unsigned 2 s = Inr (ws, u)"
    using assms by (auto simp: load_def Let_def rbind_Inr_iff)
  then obtain pr sz where sz: "ws = [pr, sz]"
    using assms Some by (auto simp: load_def Let_def split: list.splits)
  then obtain q where "load_loop j (unat sz) 0 None None u = Inr q" "r = None \<longleftrightarrow> q = None"
    using assms Some ws by (auto simp: load_def Let_def rbind_Inr_iff)
  then show ?thesis using load_loop_explained Some ws sz by (simp add: load_out_def)
qed (use assms in \<open>auto simp: load_def load_out_def\<close>)

lemma main_explained:
  assumes "main_start fs argv = Inr r"
  shows "r = None \<longleftrightarrow> main_out fs argv \<noteq> []"
  using assms by (auto simp: main_start_def main_out_def read_config_def rbind_Inr_iff split: option.splits if_splits)

section \<open>Runs\<close>

text \<open>A run with its events and all that was printed.\<close>

inductive log_run :: "config \<Rightarrow> (string \<Rightarrow> string option) \<Rightarrow> os \<Rightarrow> os_event list \<Rightarrow> log_line list \<Rightarrow> os \<Rightarrow> bool" for cf fs s where
  start: "log_run cf fs s [] [] s"
| step: "log_run cf fs s es L s' \<Longrightarrow> os_step cf fs s' e s'' \<Longrightarrow> log_run cf fs s (es @ [e]) (L @ os_out dirs cf s' e) s''"

lemma log_run_os: "log_run cf fs s es L s' \<Longrightarrow> os_run cf fs s es s'"
  by (induction rule: log_run.induct) (auto intro: os_run.intros)

lemma os_run_log: "os_run cf fs s es s' \<Longrightarrow> \<exists>L. log_run cf fs s es L s'"
  by (induction rule: os_run.induct) (auto intro: log_run.intros)


section \<open>The life of a process in the log\<close>

datatype phase = Unborn | Waiting | At nat | Dead | Bad

text \<open>
  The lines about process \<open>d\<close> in order: it is loaded once; then a processor dispatches it, and the
  same processor, before any other dispatches it, puts it back or reports its end.
\<close>

fun advance :: "u32 \<Rightarrow> phase \<Rightarrow> log_line \<Rightarrow> phase" where
  "advance d ph (Loaded_Line file d' pr) = (if d' = d then (if ph = Unborn then Waiting else Bad) else ph)"
| "advance d ph (Dispatched_Line i d') = (if d' = d then (if ph = Waiting then At i else Bad) else ph)"
| "advance d ph (Put_Line i d' n sz) = (if d' = d then (if ph = At i then Waiting else Bad) else ph)"
| "advance d ph (Finished_Line i d') = (if d' = d then (if ph = At i then Dead else Bad) else ph)"
| "advance d ph _ = ph"

definition phase_of :: "u32 \<Rightarrow> log_line list \<Rightarrow> phase" where
  "phase_of d ls = foldl (advance d) Unborn ls"

lemma phase_of_simps [simp]: "phase_of d [] = Unborn" "phase_of d (ls @ [l]) = advance d (phase_of d ls) l"
  by (simp_all add: phase_of_def)

text \<open>Lines that are about no process.\<close>

definition neutral :: "log_line list \<Rightarrow> bool" where
  "neutral ls \<longleftrightarrow> (\<forall>d. \<forall>l \<in> set ls. \<forall>ph. advance d ph l = ph)"

lemma neutral_phase: "neutral ls \<Longrightarrow> phase_of d (L @ ls) = phase_of d L"
  unfolding phase_of_def by (induction ls rule: rev_induct) (auto simp: neutral_def)

text \<open>
  What the log has to agree with: the identifiers of the blocks, the processes that wait (in a queue,
  or taken and not yet dispatched), the process dispatched at each processor, the one the loader has
  not announced yet, and the next identifier.
\<close>

definition board :: "(ptr \<rightharpoonup> u32) \<Rightarrow> ptr set \<Rightarrow> (nat \<Rightarrow> ptr option) \<Rightarrow> ptr option \<Rightarrow> nat \<Rightarrow> log_line list \<Rightarrow> bool" where
  "board pm W D U n L \<longleftrightarrow>
     (\<forall>p q d. pm p = Some d \<longrightarrow> pm q = Some d \<longrightarrow> p = q)
     \<and> (\<forall>p d. pm p = Some d \<longrightarrow> unat d < n)
     \<and> (\<forall>d. n \<le> unat d \<longrightarrow> phase_of d L = Unborn)
     \<and> (\<forall>p \<in> W. \<exists>d. pm p = Some d \<and> phase_of d L = Waiting)
     \<and> (\<forall>i p. D i = Some p \<longrightarrow> (\<exists>d. pm p = Some d \<and> phase_of d L = At i))
     \<and> (\<forall>d i. phase_of d L = At i \<longrightarrow> (\<exists>p. D i = Some p \<and> pm p = Some d))
     \<and> (\<forall>p. U = Some p \<longrightarrow> (\<exists>d. pm p = Some d \<and> phase_of d L = Unborn))
     \<and> (\<forall>d. phase_of d L \<noteq> Bad)"

lemma boardD:
  assumes "board pm W D U n L"
  shows "pm p = Some d \<Longrightarrow> pm q = Some d \<Longrightarrow> p = q" "pm p = Some d \<Longrightarrow> unat d < n"
    "n \<le> unat d \<Longrightarrow> phase_of d L = Unborn" "p \<in> W \<Longrightarrow> \<exists>d. pm p = Some d \<and> phase_of d L = Waiting"
    "D i = Some p \<Longrightarrow> \<exists>d. pm p = Some d \<and> phase_of d L = At i"
    "phase_of d L = At i \<Longrightarrow> \<exists>p. D i = Some p \<and> pm p = Some d"
    "U = Some p \<Longrightarrow> \<exists>d. pm p = Some d \<and> phase_of d L = Unborn" "phase_of d L \<noteq> Bad"
  using assms unfolding board_def by blast+

lemma board_free:
  assumes b: "board pm W D U n L" and no: "p \<notin> W" "\<And>i. D i \<noteq> Some p" "U \<noteq> Some p"
  shows "board (pm(p := None)) W D U n L"
proof -
  note B = boardD [OF b]
  have keep: "\<exists>d. (pm(p := None)) q = Some d \<and> phase_of d L = X" if "\<exists>d. pm q = Some d \<and> phase_of d L = X" "q \<noteq> p" for q X
    using that by simp
  show ?thesis unfolding board_def
  proof (intro conjI allI impI ballI)
    show "q = r" if "(pm(p := None)) q = Some d" "(pm(p := None)) r = Some d" for q r d
      using that B(1) [of q d r] by (simp split: if_splits)
    show "unat d < n" if "(pm(p := None)) q = Some d" for q d using that B(2) [of q d] by (simp split: if_splits)
    show "\<exists>d. (pm(p := None)) q = Some d \<and> phase_of d L = Waiting" if "q \<in> W" for q
      by (rule keep [OF B(4) [OF that]]) (use that no(1) in auto)
    show "\<exists>d. (pm(p := None)) q = Some d \<and> phase_of d L = At i" if "D i = Some q" for i q
      by (rule keep [OF B(5) [OF that]]) (use that no(2) [of i] in auto)
    show "\<exists>d. (pm(p := None)) q = Some d \<and> phase_of d L = Unborn" if "U = Some q" for q
      by (rule keep [OF B(7) [OF that]]) (use that no(3) in auto)
    show "\<exists>q. D i = Some q \<and> (pm(p := None)) q = Some d" if at: "phase_of d L = At i" for d i
    proof -
      obtain q where "D i = Some q" "pm q = Some d" using B(6) [OF at] by blast
      then show ?thesis using no(2) [of i] by auto
    qed
  qed (use B(3,8) in blast)+
qed

lemma board_keep:
  assumes "board pm W D U n L" and "W' \<subseteq> W" and "neutral ls"
  shows "board pm W' D U n (L @ ls)"
  using assms unfolding board_def neutral_phase [OF assms(3)] by blast

text \<open>A line about the process \<open>d\<close> of block \<open>p\<close>, and nobody else.\<close>

lemma board_turn:
  assumes b: "board pm W D U n L" and p: "pm p = Some d"
    and l: "\<And>d' ph. d' \<noteq> d \<Longrightarrow> advance d' ph l = ph" and new: "advance d (phase_of d L) l = ph" "ph \<noteq> Bad" "ph \<noteq> Unborn"
    and w: "\<And>q. q \<in> W' \<Longrightarrow> q = p \<and> ph = Waiting \<or> q \<noteq> p \<and> q \<in> W"
    and d: "\<And>i q. D' i = Some q \<Longrightarrow> q = p \<and> ph = At i \<or> q \<noteq> p \<and> D i = Some q"
      "\<And>i. ph = At i \<Longrightarrow> D' i = Some p" "\<And>i q. D i = Some q \<Longrightarrow> q \<noteq> p \<Longrightarrow> D' i = Some q"
    and u: "\<And>q. U' = Some q \<Longrightarrow> q \<noteq> p \<and> U = Some q"
  shows "board pm W' D' U' n (L @ [l])"
proof -
  note B = boardD [OF b]
  have other: "phase_of d' (L @ [l]) = phase_of d' L" if "d' \<noteq> d" for d' using l [OF that] by simp
  have turned: "phase_of d (L @ [l]) = ph" using new by simp
  have ne: "d' \<noteq> d" if "pm q = Some d'" "q \<noteq> p" for q d' using B(1) that p by metis
  have keep: "\<exists>d'. pm q = Some d' \<and> phase_of d' (L @ [l]) = X" if q: "q \<noteq> p" "\<exists>d'. pm q = Some d' \<and> phase_of d' L = X" for q X
  proof -
    obtain d' where "pm q = Some d'" "phase_of d' L = X" using q(2) by blast
    then show ?thesis using other [OF ne [OF _ q(1)]] by simp
  qed
  show ?thesis unfolding board_def
  proof (intro conjI allI impI ballI)
    show "phase_of d' (L @ [l]) = Unborn" if "n \<le> unat d'" for d'
    proof -
      have "d' \<noteq> d" using B(2) [OF p] that by auto
      from other [OF this] B(3) [OF that] show ?thesis by (rule trans)
    qed
    show "\<exists>d'. pm q = Some d' \<and> phase_of d' (L @ [l]) = Waiting" if "q \<in> W'" for q
      using w [OF that] keep B(4) p turned by blast
    show "\<exists>d'. pm q = Some d' \<and> phase_of d' (L @ [l]) = At i" if "D' i = Some q" for i q
      using d(1) [OF that] keep B(5) p turned by blast
    show "\<exists>q. D' i = Some q \<and> pm q = Some d'" if at: "phase_of d' (L @ [l]) = At i" for d' i
    proof (cases "d' = d")
      case True
      then show ?thesis using at turned d(2) p by auto
    next
      case False
      then obtain q where q: "D i = Some q" "pm q = Some d'" using at B(6) other by metis
      then have "q \<noteq> p" using p False by auto
      then show ?thesis using q d(3) by blast
    qed
    show "\<exists>d'. pm q = Some d' \<and> phase_of d' (L @ [l]) = Unborn" if "U' = Some q" for q
      using u [OF that] keep B(7) by blast
    show "phase_of d' (L @ [l]) \<noteq> Bad" for d' using other turned new(2) B(8) by (cases "d' = d") auto
  qed (use B(1,2) in blast)+
qed

lemma board_dispatch:
  assumes b: "board pm W D U n L" and p: "p \<in> W" "pm p = Some d" and i: "D i = None" and w: "W' \<subseteq> W - {p}"
  shows "board pm W' (D(i \<mapsto> p)) U n (L @ [Dispatched_Line i d])"
proof -
  note B = boardD [OF b]
  have d: "phase_of d L = Waiting" using B(4) [OF p(1)] p(2) by auto
  show ?thesis
  proof (rule board_turn [OF b p(2), of _ "At i"])
    show "q = p \<and> At i = At j \<or> q \<noteq> p \<and> D j = Some q" if q: "(D(i \<mapsto> p)) j = Some q" for j q
    proof (cases "j = i")
      case False
      then have "D j = Some q" using q by simp
      moreover from B(5) [OF this] have "q \<noteq> p" using d p(2) by auto
      ultimately show ?thesis by simp
    qed (use q in simp)
    show "q \<noteq> p \<and> U = Some q" if "U = Some q" for q using B(7) [OF that] that d p(2) by auto
    show "(D(i \<mapsto> p)) j = Some q" if "D j = Some q" for j q using that i by auto
  qed (use d w in auto)
qed

lemma board_put:
  assumes b: "board pm W D U n L" and p: "D i = Some p" "pm p = Some d" and w: "W' \<subseteq> insert p W"
  shows "board pm W' (D(i := None)) U n (L @ [Put_Line i d m sz])"
proof -
  note B = boardD [OF b]
  have d: "phase_of d L = At i" using B(5) [OF p(1)] p(2) by auto
  have once: "j = i" if "D j = Some p" for j using B(5) [OF that] d p(2) by auto
  show ?thesis
  proof (rule board_turn [OF b p(2), of _ Waiting])
    show "q \<noteq> p \<and> U = Some q" if "U = Some q" for q using B(7) [OF that] that d p(2) by auto
    show "q = p \<and> Waiting = At j \<or> q \<noteq> p \<and> D j = Some q" if "(D(i := None)) j = Some q" for j q
      using that once [of j] by (auto split: if_splits)
    show "(D(i := None)) j = Some q" if "D j = Some q" "q \<noteq> p" for j q using that p(1) by auto
  qed (use d w in auto)
qed

lemma board_finish:
  assumes b: "board pm W D U n L" and p: "D i = Some p" "pm p = Some d" and w: "W' \<subseteq> W"
  shows "board (pm(p := None)) W' (D(i := None)) U n (L @ [Finished_Line i d])"
proof -
  note B = boardD [OF b]
  have d: "phase_of d L = At i" using B(5) [OF p(1)] p(2) by auto
  have once: "j = i" if "D j = Some p" for j using B(5) [OF that] d p(2) by auto
  have no: "p \<notin> W" "U \<noteq> Some p" using B(4) [of p] B(7) [of p] d p(2) by auto
  have "board pm W' (D(i := None)) U n (L @ [Finished_Line i d])"
  proof (rule board_turn [OF b p(2), of _ Dead])
    show "q \<noteq> p \<and> U = Some q" if "U = Some q" for q using that no by auto
    show "q = p \<and> Dead = At j \<or> q \<noteq> p \<and> D j = Some q" if "(D(i := None)) j = Some q" for j q
      using that once [of j] by (auto split: if_splits)
    show "(D(i := None)) j = Some q" if "D j = Some q" "q \<noteq> p" for j q using that p(1) by auto
    show "q = p \<and> Dead = Waiting \<or> q \<noteq> p \<and> q \<in> W" if "q \<in> W'" for q using that w no by auto
  qed (use d in auto)
  then show ?thesis by (rule board_free) (use w no once in \<open>auto split: if_splits\<close>)
qed

lemma board_create:
  assumes b: "board pm W D None n L" and p: "pm p = None" and d: "unat d = n"
  shows "board (pm(p \<mapsto> d)) W D (Some p) (n + 1) L"
proof -
  note B = boardD [OF b]
  have new: "phase_of d L = Unborn" using B(3) d by simp
  have old: "d' \<noteq> d" "q \<noteq> p" if "pm q = Some d'" for q d' using B(2) [OF that] d that p by auto
  have keep: "\<exists>d'. (pm(p \<mapsto> d)) q = Some d' \<and> phase_of d' L = X" if "\<exists>d'. pm q = Some d' \<and> phase_of d' L = X" for q X
    using that old(2) by auto
  show ?thesis unfolding board_def
  proof (intro conjI allI impI ballI)
    show "q = r" if "(pm(p \<mapsto> d)) q = Some d'" "(pm(p \<mapsto> d)) r = Some d'" for q r d'
      using that B(1) [of q d' r] old(1) by (auto split: if_splits)
    show "unat d' < n + 1" if "(pm(p \<mapsto> d)) q = Some d'" for q d'
      using that B(2) [of q d'] d by (auto split: if_splits)
    show "phase_of d' L = Unborn" if "n + 1 \<le> unat d'" for d' using that B(3) by simp
    show "\<exists>d'. (pm(p \<mapsto> d)) q = Some d' \<and> phase_of d' L = Waiting" if "q \<in> W" for q
      by (rule keep [OF B(4) [OF that]])
    show "\<exists>d'. (pm(p \<mapsto> d)) q = Some d' \<and> phase_of d' L = At i" if "D i = Some q" for i q
      by (rule keep [OF B(5) [OF that]])
    show "\<exists>d'. (pm(p \<mapsto> d)) q = Some d' \<and> phase_of d' L = Unborn" if "Some p = Some q" for q
      using that new by simp
    show "\<exists>q. D i = Some q \<and> (pm(p \<mapsto> d)) q = Some d'" if at: "phase_of d' L = At i" for d' i
      using B(6) [OF at] old(2) by auto
  qed (use B(8) in blast)
qed

lemma board_loaded:
  assumes b: "board pm W D (Some p) n L" and p: "pm p = Some d" and w: "W' \<subseteq> insert p W"
  shows "board pm W' D None n (L @ [Loaded_Line file d pr])"
proof -
  note B = boardD [OF b]
  have d: "phase_of d L = Unborn" using B(7) [of p] p by auto
  show ?thesis
  proof (rule board_turn [OF b p, of _ Waiting])
    show "q = p \<and> Waiting = At j \<or> q \<noteq> p \<and> D j = Some q" if "D j = Some q" for j q
      using B(5) [OF that] that d p by auto
  qed (use d w in auto)
qed

section \<open>The simulator and its log\<close>

definition pids :: "kern \<Rightarrow> ptr \<rightharpoonup> u32" where
  "pids K = (\<lambda>p. map_option pid (procs K p))"

text \<open>The process a processor has dispatched, and the one it has taken but not yet dispatched.\<close>

definition dispatched :: "cpu \<Rightarrow> ptr option" where
  "dispatched c = (if proc c \<noteq> NULL \<and> (cpc c \<in> {Top, Exec, Next_Slot} \<or> cpc c = Recheck \<and> time_left c \<noteq> 0)
     then Some (proc c) else None)"

definition chosen :: "cpu \<Rightarrow> ptr set" where
  "chosen c = (if proc c \<noteq> NULL \<and> cpc c = Recheck \<and> time_left c = 0 then {proc c} else {})"

lemma get_effect:
  assumes "sched_inv h s" and "get_proc h s = Inr (p, s')"
  shows "set_mset (all_ready s') \<union> (if p = NULL then {} else {p}) \<subseteq> set_mset (all_ready s)"
  using assms
proof (cases rule: got_cases)
  case none
  then have "level s' = level s" using none_inv [OF assms(1)] by simp
  then show ?thesis using none(1) by (simp add: all_ready_def)
next
  case (some k)
  have "all_ready s = add_mset p (all_ready s')" using served_inv [OF assms(1) some(4)] by simp
  then show ?thesis by auto
qed

lemma put_effect:
  assumes "sched_inv h s" and "p \<noteq> NULL" and "h p = Some x" and "put_proc h s p = Inr (h', s')"
  shows "h' = h(p \<mapsto> admit_block x) \<and> set_mset (all_ready s') \<subseteq> insert p (set_mset (all_ready s))"
proof -
  have l: "level s' = (level s)(level_of h p := appended (level s (level_of h p)) p)" "h' = h(p \<mapsto> admit_block x)"
    using put_returns [OF assms(1,2)] assms(3,4) by auto
  show ?thesis using all_ready_appended [OF l(1) level_of_less] l(2) by auto
qed

lemma add_effect:
  assumes "sched_inv h s" and "p \<noteq> NULL" and "h p = Some x" and "add_proc h s p = Inr (h', s')"
  shows "h' = h(p \<mapsto> admit_block x) \<and> set_mset (all_ready s') \<subseteq> insert p (set_mset (all_ready s))"
proof -
  have l: "level s' = (level s)(level_of h p := appended (level s (level_of h p)) p)" "h' = h(p \<mapsto> admit_block x)"
    using add_returns [OF assms(1,2)] assms(3,4) by auto
  show ?thesis using all_ready_appended [OF l(1) level_of_less] l(2) by auto
qed

lemma pid_admit [simp]: "pid (admit_block x) = pid x"
  by (simp add: admit_block_def Let_def)

text \<open>An instruction changes neither the scheduler nor the identifiers.\<close>

lemma run_pids:
  assumes inv: "kern_inv K (holds c + R) L" and c: "cpu_ok c" "cpc c = Exec" and r: "run K (proc c) = Inr (r, K')"
    and ok: "procs K (proc c) = Some x" "event_ok (Cpu_Run i x)"
  shows "pids K' = pids K \<and> sched K' = sched K"
proof -
  have p: "proc c \<noteq> NULL" using c by (simp add: cpu_ok_def)
  have "proc c \<in># holds c + R" using p c(2) by (simp add: holds_def)
  from run_kern [OF inv this ok(1)] ok(2) r
  have t: "only_touched K (proc c) (x\<lparr>pc := (if unat (pc x) < length (code x) then pc x + 1 else pc x)\<rparr>) K'" by simp
  have q: "procs K' q = procs K q" if "q \<noteq> proc c" for q using t that by (simp add: only_touched_def)
  have "pids K' q = pids K q" for q
    using t ok(1) q by (cases "q = proc c") (auto simp: pids_def only_touched_def)
  then show ?thesis using t by (auto simp: only_touched_def)
qed

lemma cpu_effect:
  assumes inv: "kern_inv K (holds c + R) L" and c: "cpu_ok c" "slice_ok slots c" "0 < slots"
    and st: "cpu_routine slots dn K c = Inr (K', c')"
    and ok: "cpc c = Exec \<longrightarrow> procs K (proc c) = Some x \<and> event_ok (Cpu_Run i x)"
  obtains (quiet) "pids K' = pids K" "dispatched c' = dispatched c" "neutral (cpu_out dirs i dn K c)"
      "set_mset (all_ready (sched K')) \<union> chosen c' \<subseteq> set_mset (all_ready (sched K)) \<union> chosen c"
    | (dispatch) p d where "chosen c = {p}" "p \<in># holds c" "chosen c' = {}" "dispatched c = None" "dispatched c' = Some p"
      "sched K' = sched K" "pids K' = pids K" "pids K p = Some d" "cpu_out dirs i dn K c = [Dispatched_Line i d]"
    | (put) p d m sz where "dispatched c = Some p" "dispatched c' = None" "chosen c' = {}" "pids K' = pids K" "pids K p = Some d"
      "set_mset (all_ready (sched K')) \<subseteq> insert p (set_mset (all_ready (sched K)))" "cpu_out dirs i dn K c = [Put_Line i d m sz]"
    | (finish) p d where "dispatched c = Some p" "dispatched c' = None" "chosen c' = {}" "pids K' = (pids K)(p := None)"
      "pids K p = Some d" "all_ready (sched K') = all_ready (sched K)" "cpu_out dirs i dn K c = [Finished_Line i d]"
proof -
  note defs = dispatched_def chosen_def cpu_out_def neutral_def pids_def
  consider "cpc c = Top" "proc c = NULL" | "cpc c = Top" "proc c \<noteq> NULL" | "cpc c = First_Get \<or> cpc c = Next_Get"
    | "cpc c = Recheck" | "cpc c = Exec" | "cpc c \<in> {Next_Slot, Leave, Stopped}" by (cases "cpc c") auto
  then show ?thesis
  proof cases
    case 2
    then have inv': "kern_inv K (add_mset (proc c) R) L" using inv by (simp add: holds_def)
    note sc = kern_invD(1) [OF inv']
    have d: "dispatched c = Some (proc c)" using 2 by (simp add: dispatched_def)
    from st 2 show ?thesis
    proof (cases rule: cpu_top_cases)
      case (ended y s)
      have "level s = level (sched K)" using finish_returns [OF sc 2(2)] ended(3) by (auto elim!: returnsE)
      then show ?thesis
        by (intro finish [OF d, of "pid y"]) (use ended 2 in \<open>auto simp: defs all_ready_def fun_eq_iff\<close>)
    next
      case (slice_over y h s)
      note e = put_effect [OF sc 2(2) slice_over(1,4)]
      show ?thesis
        by (rule put [OF d, of "pid y"]) (use e slice_over 2 in \<open>auto simp: defs fun_eq_iff\<close>)
    next
      case (resume y)
      show ?thesis by (rule quiet) (use resume 2 in \<open>auto simp: defs\<close>)
    qed
  next
    case 3
    then have z: "time_left c = 0" "cpc c = First_Get \<longrightarrow> proc c = NULL" using c by (auto simp: cpu_ok_def slice_ok_def holds_def)
    obtain p s where g: "get_proc (procs K) (sched K) = Inr (p, s)" "K' = K\<lparr>sched := s\<rparr>"
        "c' = c\<lparr>proc := p, cpc := (if cpc c = First_Get \<and> p = NULL then Next_Slot else Recheck)\<rparr>"
      using st 3 by (rule cpu_get)
    note e = get_effect [OF kern_invD(1) [OF inv] g(1)]
    show ?thesis by (rule quiet) (use e g(2,3) z 3 in \<open>auto simp: defs\<close>)
  next
    case 4
    with st show ?thesis
    proof (cases rule: cpu_recheck_cases)
      case begin_slice
      then have "proc c \<in># all_ready (sched K) + (holds c + R)" using 4 by (simp add: holds_def)
      then obtain y where y: "procs K (proc c) = Some y" by (rule kern_inv_held [OF inv])
      show ?thesis by (rule dispatch [of "proc c" "pid y"]) (use begin_slice 4 y in \<open>simp_all add: defs holds_def\<close>)
    next
      case nobody
      show ?thesis by (rule quiet) (use nobody 4 in \<open>simp_all add: defs\<close>)
    next
      case continue
      show ?thesis by (rule quiet) (use continue 4 in \<open>simp_all add: defs\<close>)
    qed
  next
    case 5
    obtain r where r: "run K (proc c) = Inr (r, K')" "c' = c\<lparr>time_left := time_left c - 1, cpc := Next_Slot\<rparr>"
      using st 5 by (auto simp: cpu_routine_def rbind_Inr_iff)
    have x: "procs K (proc c) = Some x" "event_ok (Cpu_Run i x)" using ok 5 by simp_all
    note e = run_pids [OF inv c(1) 5 r(1) x]
    show ?thesis by (rule quiet) (use e r(2) 5 in \<open>auto simp: dispatched_def chosen_def cpu_out_def neutral_def\<close>)
  qed (use st quiet in \<open>auto simp: cpu_routine_def defs\<close>)
qed

text \<open>The parts of the board, for a state of the simulator.\<close>

definition waits :: "os \<Rightarrow> ptr set" where
  "waits s = set_mset (all_ready (sched (kernel s))) \<union> (\<Union>j < length (cpus s). chosen (cpus s ! j))"

definition at_cpu :: "os \<Rightarrow> nat \<Rightarrow> ptr option" where
  "at_cpu s i = (if i < length (cpus s) then dispatched (cpus s ! i) else None)"

definition unannounced :: "loader \<Rightarrow> ptr option" where
  "unannounced l = (if lpc l \<in> {Ld_Wait, Ld_Wait_Slot} then Some (ld_proc l) else None)"

definition log_inv :: "config \<Rightarrow> os \<Rightarrow> log_line list \<Rightarrow> bool" where
  "log_inv cf s L \<longleftrightarrow> board (pids (kernel s)) (waits s) (at_cpu s) (unannounced (ld s)) (unat (avail_pid s)) L
     \<and> unat (avail_pid s) = 1 + next_process (ld s) + (if unannounced (ld s) = None then 0 else 1)
     \<and> int (unat (avail_pid s)) \<le> 1 + max 0 (num_processes cf)"

lemma log_invD:
  assumes "log_inv cf s L"
  shows "board (pids (kernel s)) (waits s) (at_cpu s) (unannounced (ld s)) (unat (avail_pid s)) L"
    "unat (avail_pid s) = 1 + next_process (ld s) + (if unannounced (ld s) = None then 0 else 1)"
    "int (unat (avail_pid s)) \<le> 1 + max 0 (num_processes cf)"
  using assms unfolding log_inv_def by blast+

lemma log_inv_same:
  assumes "log_inv cf s L" and "ld s' = ld s" and "avail_pid s' = avail_pid s"
    and "board (pids (kernel s')) (waits s') (at_cpu s') (unannounced (ld s)) (unat (avail_pid s)) L'"
  shows "log_inv cf s' L'"
  unfolding log_inv_def assms(2,3) using log_invD(2,3) [OF assms(1)] assms(4) by blast

text \<open>One processor among the others.\<close>

lemma waits_split:
  assumes "i < length (cpus s)"
  obtains A where "waits s = set_mset (all_ready (sched (kernel s))) \<union> chosen (cpus s ! i) \<union> A"
    "\<And>K c. waits (s\<lparr>kernel := K, cpus := (cpus s)[i := c]\<rparr>) = set_mset (all_ready (sched K)) \<union> chosen c \<union> A"
    "A = (\<Union>j \<in> {..<length (cpus s)} - {i}. chosen (cpus s ! j))"
proof (rule that [OF _ _ refl])
  let ?A = "\<Union>j \<in> {..<length (cpus s)} - {i}. chosen (cpus s ! j)"
  have split: "(\<Union>j < length (cpus s). f j) = f i \<union> (\<Union>j \<in> {..<length (cpus s)} - {i}. f j)" for f :: "nat \<Rightarrow> ptr set"
    using assms by auto
  show "waits s = set_mset (all_ready (sched (kernel s))) \<union> chosen (cpus s ! i) \<union> ?A"
    by (simp add: waits_def split [of "\<lambda>j. chosen (cpus s ! j)"] Un_assoc)
  have "(\<Union>j \<in> {..<length (cpus s)} - {i}. chosen ((cpus s)[i := c] ! j)) = ?A" for c by auto
  then show "waits (s\<lparr>kernel := K, cpus := (cpus s)[i := c]\<rparr>) = set_mset (all_ready (sched K)) \<union> chosen c \<union> ?A" for K c
    using assms by (simp add: waits_def split [of "\<lambda>j. chosen ((cpus s)[i := c] ! j)"] Un_assoc)
qed

lemma at_cpu_upd:
  "i < length (cpus s) \<Longrightarrow> at_cpu (s\<lparr>kernel := K, cpus := (cpus s)[i := c]\<rparr>) = (at_cpu s)(i := dispatched c)"
  by (auto simp: at_cpu_def fun_eq_iff)

lemma chosen_holds: "p \<in> chosen c \<Longrightarrow> p \<in># holds c"
  by (auto simp: chosen_def holds_def split: if_splits)

lemma log_cpu:
  assumes log: "log_inv cf s L" and inv: "os_inv cf s" and slots: "0 < time_slot cf" and i: "i < length (cpus s)"
    and st: "cpu_routine (time_slot cf) (all_loaded s) (kernel s) (cpus s ! i) = Inr (K, c)"
    and ok: "cpc (cpus s ! i) = Exec \<longrightarrow> procs (kernel s) (proc (cpus s ! i)) = Some x \<and> event_ok (Cpu_Run i x)"
  shows "log_inv cf (s\<lparr>kernel := K, cpus := (cpus s)[i := c]\<rparr>) (L @ cpu_out dirs i (all_loaded s) (kernel s) (cpus s ! i))"
proof -
  let ?c = "cpus s ! i" and ?K = "kernel s"
  note b = log_invD(1) [OF log]
  have k: "kern_inv ?K (cpus_hold (cpus s)) (ld_holds (ld s))" using inv by (simp add: os_inv_def)
  obtain R where R: "cpus_hold (cpus s) = holds ?c + R" using cpus_hold_split [OF i] by blast
  have c: "cpu_ok ?c" "slice_ok (time_slot cf) ?c" using inv i slots by (simp_all add: os_inv_def)
  obtain A where A: "waits s = set_mset (all_ready (sched ?K)) \<union> chosen ?c \<union> A"
      "\<And>K c. waits (s\<lparr>kernel := K, cpus := (cpus s)[i := c]\<rparr>) = set_mset (all_ready (sched K)) \<union> chosen c \<union> A"
      "A = (\<Union>j \<in> {..<length (cpus s)} - {i}. chosen (cpus s ! j))"
    using waits_split [OF i] by metis
  note D = at_cpu_upd [OF i, where K = K and c = c]
  have Di: "at_cpu s i = dispatched ?c" using i by (simp add: at_cpu_def)
  have "board (pids K) (set_mset (all_ready (sched K)) \<union> chosen c \<union> A) ((at_cpu s)(i := dispatched c))
      (unannounced (ld s)) (unat (avail_pid s)) (L @ cpu_out dirs i (all_loaded s) ?K ?c)"
    using k [unfolded R] c slots st ok
  proof (cases rule: cpu_effect [where i = i and dirs = dirs])
    case quiet
    then have "(at_cpu s)(i := dispatched c) = at_cpu s" using Di by (simp add: fun_eq_iff)
    then show ?thesis using board_keep [OF b _ quiet(3), of "set_mset (all_ready (sched K)) \<union> chosen c \<union> A"] quiet A(1) by auto
  next
    case (dispatch p d)
    note once = held_once [OF k i dispatch(2)]
    have "p \<notin> A"
    proof
      assume "p \<in> A"
      then obtain j where "j < length (cpus s)" "j \<noteq> i" "p \<in> chosen (cpus s ! j)" by (auto simp: A(3))
      then show False using once(3) chosen_holds by blast
    qed
    then have "set_mset (all_ready (sched K)) \<union> chosen c \<union> A \<subseteq> waits s - {p}" "p \<in> waits s"
      using once(1) dispatch(1,3,6) A(1) by auto
    moreover have "at_cpu s i = None" using Di dispatch(4) by simp
    ultimately show ?thesis using board_dispatch [OF b _ dispatch(8)] dispatch(5,7,9) by simp
  next
    case (put p d m sz)
    have "set_mset (all_ready (sched K)) \<union> chosen c \<union> A \<subseteq> insert p (waits s)" using put(3,6) A(1) by auto
    then show ?thesis using board_put [OF b _ put(5)] Di put(1,2,4,7) by simp
  next
    case (finish p d)
    have "set_mset (all_ready (sched K)) \<union> chosen c \<union> A \<subseteq> waits s" using finish(3,6) A(1) by auto
    then show ?thesis using board_finish [OF b _ finish(5)] Di finish(1,2,4,7) by simp
  qed
  then show ?thesis by (intro log_inv_same [OF log]) (simp_all only: A(2) D, simp_all)
qed

lemma at_cpu_cong: "cpus s' = cpus s \<Longrightarrow> at_cpu s' = at_cpu s"
  by (simp add: at_cpu_def fun_eq_iff)

lemma waits_cong: "cpus s' = cpus s \<Longrightarrow> sched (kernel s') = sched (kernel s) \<Longrightarrow> waits s' = waits s"
  by (simp add: waits_def)

lemma load_pid:
  assumes "load x0 j a f = Inr (Some (x, pd))"
  shows "pid x = a \<and> pd = a + 1 \<and> pc x = 0"
proof -
  obtain s and ws :: "u32 list" and u where ws: "scan_nums to_unsigned 2 s = Inr (ws, u)" "f = Some s"
    using assms by (auto simp: load_def Let_def rbind_Inr_iff split: option.splits)
  then obtain pr sz where sz: "ws = [pr, sz]"
    using assms by (auto simp: load_def Let_def split: list.splits)
  with assms ws show ?thesis by (auto simp: load_def Let_def rbind_Inr_iff)
qed

lemma waits_mono:
  assumes "set_mset (all_ready (sched (kernel s'))) \<subseteq> insert p (set_mset (all_ready (sched (kernel s))))" and "cpus s' = cpus s"
  shows "waits s' \<subseteq> insert p (waits s)"
  using assms(1) unfolding waits_def assms(2) by auto

text \<open>A step of the loader that only moves it on.\<close>

lemma log_same:
  assumes log: "log_inv cf s L" and n: "neutral out" and k: "kernel s' = kernel s" "cpus s' = cpus s" "avail_pid s' = avail_pid s"
    and l: "unannounced (ld s') = unannounced (ld s)" "next_process (ld s') = next_process (ld s)"
  shows "log_inv cf s' (L @ out)"
proof -
  note L = log_invD [OF log]
  have e: "waits s' = waits s" "at_cpu s' = at_cpu s" by (rule waits_cong; simp add: k) (rule at_cpu_cong; simp add: k)
  show ?thesis unfolding log_inv_def e l k using L(2,3) board_keep [OF L(1) subset_refl n] by blast
qed

lemma log_create:
  assumes log: "log_inv cf s L" and num: "num_processes cf < 2 ^ 31" and out: "neutral out"
    and fresh: "procs (kernel s) fresh = None" and l: "lpc (ld s) = Ld_Top" "int (next_process (ld s)) < num_processes cf"
    and x: "load x0 j (avail_pid s) f = Inr (Some (x, pd))"
    and s': "s' = s\<lparr>kernel := (kernel s)\<lparr>procs := (procs (kernel s))(fresh \<mapsto> x\<lparr>krnl_mm := None, krnl_queues := False, prio := pr\<rparr>)\<rparr>,
       avail_pid := pd, ld := (ld s)\<lparr>ld_proc := fresh, lpc := Ld_Wait\<rparr>\<rparr>"
  shows "log_inv cf s' (L @ out)"
proof -
  note L = log_invD [OF log]
  have u: "unannounced (ld s) = None" using l(1) by (simp add: unannounced_def)
  have len: "unat (avail_pid s) = 1 + next_process (ld s)" using L(2) u by simp
  have pd: "pid x = avail_pid s" "unat pd = unat (avail_pid s) + 1"
    using load_pid [OF x] len l(2) num by (simp_all add: unat_word_ariths)
  have "pids (kernel s') q = ((pids (kernel s))(fresh \<mapsto> avail_pid s)) q" for q
    using pd(1) by (simp add: s' pids_def)
  then have p: "pids (kernel s') = (pids (kernel s))(fresh \<mapsto> avail_pid s)" by (rule ext)
  have e: "waits s' = waits s" "at_cpu s' = at_cpu s" by (rule waits_cong; simp add: s') (rule at_cpu_cong; simp add: s')
  have l': "unannounced (ld s') = Some fresh" "next_process (ld s') = next_process (ld s)" "unat (avail_pid s') = unat (avail_pid s) + 1"
    using pd(2) by (simp_all add: s' unannounced_def)
  have "pids (kernel s) fresh = None" using fresh by (simp add: pids_def)
  from board_create [OF board_keep [OF L(1) subset_refl out, unfolded u] this refl] show ?thesis
    using len l(2) unfolding log_inv_def p e l' by simp
qed

lemma log_add:
  assumes log: "log_inv cf s L" and k: "kern_inv (kernel s) (cpus_hold (cpus s)) {# ld_proc (ld s) #}" and l: "lpc (ld s) = Ld_Wait"
    and x: "ld_proc (ld s) \<noteq> NULL" "procs (kernel s) (ld_proc (ld s)) = Some x"
    and h: "add_proc ((procs (kernel s))(ld_proc (ld s) \<mapsto> x\<lparr>krnl_mm := Some init_mm\<rparr>)) (sched (kernel s)) (ld_proc (ld s)) = Inr (h, sc)"
    and s': "s' = s\<lparr>kernel := (kernel s)\<lparr>procs := h, sched := sc\<rparr>, ld := (ld s)\<lparr>next_process := next_process (ld s) + 1, lpc := Ld_Slot\<rparr>\<rparr>"
  shows "log_inv cf s' (L @ [Loaded_Line file (pid x) pr])"
proof -
  note L = log_invD [OF log]
  let ?K = "kernel s" and ?p = "ld_proc (ld s)"
  let ?y = "x\<lparr>krnl_mm := Some init_mm\<rparr>"
  have u: "unannounced (ld s) = Some ?p" using l by (simp add: unannounced_def)
  have "sched_inv ((procs ?K)(?p \<mapsto> ?y)) (sched ?K)"
    by (rule sched_inv_heap [OF kern_invD(1) [OF k]]) (use x in auto)
  from add_effect [OF this x(1) _ h, of ?y]
  have e: "h = (procs ?K)(?p \<mapsto> admit_block ?y)" "set_mset (all_ready sc) \<subseteq> insert ?p (set_mset (all_ready (sched ?K)))"
    by simp_all
  have "pids (kernel s') q = pids ?K q" for q using x by (simp add: s' e(1) pids_def)
  then have p: "pids (kernel s') = pids ?K" by (rule ext)
  have d: "pids ?K ?p = Some (pid x)" using x by (simp add: pids_def)
  have w: "waits s' \<subseteq> insert ?p (waits s)" by (rule waits_mono) (simp_all add: s' e(2))
  have u': "unannounced (ld s') = None" by (simp add: s' unannounced_def)
  have "at_cpu s' = at_cpu s" by (rule at_cpu_cong) (simp add: s')
  then have c: "at_cpu s' = at_cpu s" "avail_pid s' = avail_pid s" "next_process (ld s') = next_process (ld s) + 1"
    by (simp_all add: s')
  show ?thesis
    using board_loaded [OF L(1) [unfolded u] d w] L(2,3) u unfolding log_inv_def u' p c by simp
qed

lemma log_load:
  assumes log: "log_inv cf s L" and inv: "os_inv cf s" and num: "num_processes cf < 2 ^ 31"
    and fresh: "fresh \<noteq> NULL" "procs (kernel s) fresh = None" and st: "ld_routine cf fs fresh x0 j s = Inr (Some s')"
  shows "log_inv cf s' (L @ ld_out cf s)"
proof -
  consider "lpc (ld s) = Ld_Top" | "lpc (ld s) = Ld_Wait" | "lpc (ld s) \<notin> {Ld_Top, Ld_Wait}" by blast
  then show ?thesis
  proof cases
    case 1
    have n: "neutral (ld_out cf s)" using 1 by (simp add: ld_out_def Let_def neutral_def)
    from st 1 show ?thesis
    proof (cases rule: ld_top_cases)
      case (create a x pd pr)
      show ?thesis by (rule log_create [OF log num n fresh(2) 1 create(1,3,5)])
    next
      case all
      show ?thesis by (rule log_same [OF log n]) (simp_all add: all(2) 1 unannounced_def)
    qed
  next
    case 2
    have k: "kern_inv (kernel s) (cpus_hold (cpus s)) {# ld_proc (ld s) #}" using inv 2 by (simp add: os_inv_def ld_holds_def)
    from st 2 show ?thesis
    proof (cases rule: ld_wait_cases)
      case (early a t)
      have "neutral (ld_out cf s)" using early 2 by (simp add: ld_out_def Let_def neutral_def split: option.split)
      then show ?thesis by (rule log_same [OF log]) (simp_all add: early(4) 2 unannounced_def)
    next
      case (add a t x h sc)
      have o: "ld_out cf s = [Loaded_Line (path a) (pid x) (the (ld_prio a))]"
        using 2 add by (simp add: ld_out_def Let_def)
      show ?thesis unfolding o by (rule log_add [OF log k 2 add(4-7)])
    qed
  next
    case 3
    then have "ld_out cf s = []" by (cases "lpc (ld s)") (simp_all add: ld_out_def Let_def)
    then show ?thesis using ld_other [OF st 3] log by simp
  qed
qed

lemma log_inv_bar [simp]: "log_inv cf (s\<lparr>bar := b\<rparr>) L = log_inv cf s L"
proof -
  have "waits (s\<lparr>bar := b\<rparr>) = waits s" "at_cpu (s\<lparr>bar := b\<rparr>) = at_cpu s"
    by (rule waits_cong; simp) (rule at_cpu_cong; simp)
  then show ?thesis by (simp add: log_inv_def)
qed

lemma log_keep: "log_inv cf s L \<Longrightarrow> neutral ls \<Longrightarrow> log_inv cf s (L @ ls)"
  by (rule log_inv_same) (auto dest: log_invD(1) intro: board_keep)

lemma log_still:
  assumes log: "log_inv cf s L" and i: "i < length (cpus s)"
    and c: "dispatched c = dispatched (cpus s ! i)" "chosen c = chosen (cpus s ! i)"
  shows "log_inv cf (s\<lparr>cpus := (cpus s)[i := c]\<rparr>) L"
proof -
  let ?s = "s\<lparr>kernel := kernel s, cpus := (cpus s)[i := c]\<rparr>"
  have "waits ?s = waits s" using c(2) by (metis waits_split [OF i])
  moreover have "at_cpu ?s = at_cpu s" unfolding at_cpu_upd [OF i] using c(1) i by (simp add: at_cpu_def fun_eq_iff)
  ultimately have "log_inv cf ?s L" by (intro log_inv_same [OF log]) (simp_all add: log_invD(1) [OF log])
  then show ?thesis by simp
qed

lemma log_loader:
  assumes log: "log_inv cf s L" and l: "unannounced l = unannounced (ld s)" "next_process l = next_process (ld s)"
  shows "log_inv cf (s\<lparr>ld := l\<rparr>) L"
proof -
  have "waits (s\<lparr>ld := l\<rparr>) = waits s" "at_cpu (s\<lparr>ld := l\<rparr>) = at_cpu s"
    by (rule waits_cong; simp) (rule at_cpu_cong; simp)
  then have e: "waits (s\<lparr>ld := l\<rparr>) = waits s" "at_cpu (s\<lparr>ld := l\<rparr>) = at_cpu s"
      "kernel (s\<lparr>ld := l\<rparr>) = kernel s" "avail_pid (s\<lparr>ld := l\<rparr>) = avail_pid s" "ld (s\<lparr>ld := l\<rparr>) = l"
    by simp_all
  show ?thesis unfolding log_inv_def e l by (intro conjI log_invD [OF log])
qed

lemma log_resumed: "log_inv cf s L \<Longrightarrow> at_slot s i \<Longrightarrow> log_inv cf (resumed s i) L"
  by (cases "i < length (cpus s)")
    (auto simp: resumed_def at_slot_def dispatched_def chosen_def unannounced_def intro!: log_still log_loader)

lemma log_stopped: "log_inv cf s L \<Longrightarrow> at_end s i \<Longrightarrow> log_inv cf (stopped s i) L"
  by (cases "i < length (cpus s)")
    (auto simp: stopped_def at_end_def dispatched_def chosen_def unannounced_def intro!: log_still log_loader)

lemma timer_out_neutral: "neutral (timer_out b)"
  by (simp add: timer_out_def neutral_def)

lemma log_step:
  assumes st: "os_step cf fs s e s'" and log: "log_inv cf s L" and inv: "os_inv cf s" and ok: "event_ok e"
    and cf: "0 < time_slot cf" "num_processes cf < 2 ^ 31"
  shows "log_inv cf s' (L @ os_out dirs cf s e)"
  using st
proof cases
  case (cpu i K c)
  then show ?thesis using log_cpu [OF log inv cf(1) cpu(3,5), where dirs = dirs] by (auto simp: os_out_def)
next
  case (exec i x K c)
  then show ?thesis using log_cpu [OF log inv cf(1) exec(3,6), where dirs = dirs and x = x] ok by (simp add: os_out_def)
next
  case (load fresh x0 j)
  then show ?thesis using log_load [OF log inv cf(2) load(3,4,6)] by (simp add: os_out_def)
qed (use log log_resumed log_stopped log_keep timer_out_neutral in \<open>simp_all add: os_out_def\<close>)

lemma log_boot: "log_inv cf (boot cf) []"
proof -
  have "level (sched (kernel (boot cf))) l = []" if "l < MAX_PRIO" for l
    using that by (simp add: level_def boot_def init_scheduler_def static_sched_def q_list_def)
  then have "all_ready (sched (kernel (boot cf))) = {#}" by (simp add: all_ready_empty)
  moreover have "chosen (cpus (boot cf) ! j) = {}" "dispatched (cpus (boot cf) ! j) = None" if "j < length (cpus (boot cf))" for j
    using that by (simp_all add: boot_def cpu_start_def chosen_def dispatched_def)
  ultimately have "waits (boot cf) = {}" "at_cpu (boot cf) = (\<lambda>_. None)"
    by (auto simp: waits_def at_cpu_def fun_eq_iff)
  moreover have "pids (kernel (boot cf)) = Map.empty" "unannounced (ld (boot cf)) = None" "avail_pid (boot cf) = 1"
      "next_process (ld (boot cf)) = 0"
    by (simp_all add: pids_def boot_def unannounced_def loader_start_def)
  ultimately show ?thesis by (simp add: log_inv_def board_def)
qed

lemma log_run_inv:
  assumes "log_run cf fs s es L s'" and "log_inv cf s []" and "os_inv cf s" and "\<forall>e \<in> set es. event_ok e"
    and "0 < time_slot cf" "num_processes cf < 2 ^ 31"
  shows "log_inv cf s' L"
  using assms
proof (induction rule: log_run.induct)
  case (step es L s' e s'' dirs)
  have "os_inv cf s'" using os_run_inv [OF log_run_os [OF step.hyps(1)]] step.prems by simp
  then show ?case using log_step [OF step.hyps(2)] step by simp
qed simp

section \<open>The numbers of the slots\<close>

fun slot_times :: "log_line list \<Rightarrow> addr list" where
  "slot_times [] = []"
| "slot_times (Slot_Line t # ls) = t # slot_times ls"
| "slot_times (_ # ls) = slot_times ls"

lemma slot_times_append [simp]: "slot_times (ls @ ms) = slot_times ls @ slot_times ms"
  by (induction ls rule: slot_times.induct) simp_all

text \<open>The line of a slot is printed when its waiting begins, and the clock moves when it ends.\<close>

definition ticks_ok :: "barrier \<Rightarrow> addr list \<Rightarrow> bool" where
  "ticks_ok b ts \<longleftrightarrow> ts = map word_of_nat [0..<length ts]
     \<and> word_of_nat (length ts) = (case tpc b of Await _ _ _ \<Rightarrow> clock (tm b) + 1 | _ \<Rightarrow> clock (tm b))"

lemma clock_set_dev [simp]: "clock (set_dev t i f) = clock t"
  by (simp add: set_dev_def)

lemma ticks_ok_tick:
  assumes "timer_routine (tm b, tpc b) = Some (t', q)" and "ticks_ok b ts"
  shows "ticks_ok (b\<lparr>tm := t', tpc := q\<rparr>) (ts @ slot_times (timer_out b))"
proof (cases "tpc b")
  case Loop
  then show ?thesis using assms
    by (cases "timer_stop (tm b)") (auto simp: ticks_ok_def timer_out_def current_time_def add.commute)
next
  case (Await ds f e)
  then show ?thesis using assms by (cases ds) (auto simp: ticks_ok_def timer_out_def split: if_splits)
next
  case (Release ds f e)
  then show ?thesis using assms by (cases ds) (auto simp: ticks_ok_def timer_out_def)
qed (use assms in simp)

lemma ticks_ok_step:
  assumes "barrier_step b e b'" and "ticks_ok b ts"
  shows "ticks_ok b' (ts @ slot_times (if e = Timer then timer_out b else []))"
  using assms(1)
proof cases
  case (tick t' q)
  then show ?thesis using ticks_ok_tick [OF tick(3) assms(2)] by simp
qed (use assms(2) in \<open>simp_all add: ticks_ok_def slot_finished_def detach_event_def stop_request_def cong: timer_pc.case_cong\<close>)

lemma slot_times_cpu: "slot_times (cpu_out dirs i dn K c) = []"
  by (auto simp: cpu_out_def split: cpu_pc.split option.split)

lemma slot_times_ld: "slot_times (ld_out cf s) = []"
  by (auto simp: ld_out_def Let_def split: ld_pc.split sum.split option.split)

lemma ticks_ok_run: "log_run cf fs (boot cf) es L s \<Longrightarrow> ticks_ok (bar s) (slot_times L)"
proof (induction rule: log_run.induct)
  case start
  have c: "clock (((\<lambda>t. snd (attach_event t)) ^^ n) static_timer) = 0" for n
    by (induction n) (simp_all add: static_timer_def attach_event_def)
  show ?case unfolding ticks_ok_def boot_def start_timer_def using c [of "nat (num_cpus cf) + 1"] by simp
next
  case (step es L s' e s'' dirs)
  show ?case
  proof (cases e)
    case (Bar b)
    have "slot_times (os_out dirs cf s' e) = slot_times (if b = Timer then timer_out (bar s') else [])"
      by (simp add: os_out_def Bar split: barrier_event.split)
    moreover have "barrier_step (bar s') b (bar s'')" using os_step_bar [OF step.hyps(2)] Bar by simp
    ultimately show ?thesis using ticks_ok_step step.IH by simp
  qed (use step.IH os_step_bar [OF step.hyps(2)] in \<open>simp_all add: os_out_def slot_times_cpu slot_times_ld\<close>)
qed

section \<open>A run with its output\<close>

lemma pid_sample: "pid (sample_pcb d pr l) = d"
  by (simp add: sample_pcb_def)

lemma demo_log:
  obtains s where "log_run demo_cf demo_fs (boot demo_cf) [Loader_Step, Loader_Step] [Ld_Line, Loaded_Line ''input/proc/c'' 1 3] s"
proof -
  let ?b = "boot demo_cf" and ?j = "\<lambda>_. \<lparr>opcode = CALC, arg_0 = 0, arg_1 = 0, arg_2 = 0, arg_3 = 0\<rparr>"
  obtain s1 x where s1: "ld_routine demo_cf demo_fs 1 (sample_pcb 0 0 0) ?j ?b = Inr (Some s1)" "lpc (ld s1) = Ld_Wait"
      "next_process (ld s1) = 0" "bar s1 = bar ?b" "ld_proc (ld s1) = 1"
      "procs (kernel s1) = [1 \<mapsto> x]" "pid x = 1"
    by (simp add: ld_routine_def boot_def demo_cf_def loader_start_def demo_fs_def demo_load Let_def pid_sample)
  have 1: "os_step demo_cf demo_fs ?b Loader_Step s1"
    by (rule os_step.load [OF _ _ _ _ s1(1)]) (simp_all add: boot_def loader_start_def sample_pcb_def)
  then have "os_inv demo_cf s1" using os_step_inv boot_inv [OF demo_sizes] by simp
  then have k: "kern_inv (kernel s1) (cpus_hold (cpus s1)) {# 1 #}" using s1(2,5) by (simp add: os_inv_def ld_holds_def)
  have x: "procs (kernel s1) 1 = Some x" using s1(6) by simp
  obtain h sc where "add_proc ((procs (kernel s1))(1 \<mapsto> x\<lparr>krnl_mm := Some init_mm\<rparr>)) (sched (kernel s1)) 1 = Inr (h, sc)"
    using add_kern [OF k x] by (auto elim!: returnsE)
  then obtain s2 where s2: "ld_routine demo_cf demo_fs 2 (sample_pcb 0 0 0) ?j s1 = Inr (Some s2)"
    using x s1(2-5) by (simp add: ld_routine_def demo_cf_def Let_def boot_def current_time_def)
  have 2: "os_step demo_cf demo_fs s1 Loader_Step s2"
    by (rule os_step.load [OF _ _ _ _ s2]) (simp_all add: s1 sample_pcb_def)
  have out: "os_out dirs demo_cf ?b Loader_Step = [Ld_Line]"
      "os_out dirs demo_cf s1 Loader_Step = [Loaded_Line ''input/proc/c'' 1 3]" for dirs
    using x s1(2-5,7) by (simp_all add: os_out_def ld_out_def Let_def demo_cf_def boot_def loader_start_def current_time_def)
  from log_run.step [OF log_run.step [OF log_run.start 1] 2]
  have "log_run demo_cf demo_fs ?b [Loader_Step, Loader_Step] ([Ld_Line] @ [Loaded_Line ''input/proc/c'' 1 3]) s2"
    by (simp add: out)
  then show ?thesis by (intro that) simp
qed

section \<open>Properties\<close>

text \<open>
  C9. The output tells the life of every process. In every interleaving of the threads, the lines
  about the process with identifier \<open>d\<close> come in order: it is loaded once; a processor dispatches it only
  after it was loaded or put back; the next line about it is one of the same processor, which puts it
  back or reports its end; and nothing follows its end. The lines also tell the truth: a process is the
  one a processor has dispatched exactly when the last line about it says so, and one in a ready
  queue has been announced as loaded or put back. The time slots are announced in order, from 0 on.
  The instructions that are run keep to the limits of \<open>inst_ok\<close>.
\<close>

theorem log_tells_life:
  assumes "sizes_ok cf" and "0 < time_slot cf" and "num_processes cf < 2 ^ 31"
    and "log_run cf fs (boot cf) es L s" and "\<forall>e \<in> set es. event_ok e"
  shows "phase_of d L \<noteq> Bad
    \<and> (\<forall>i. phase_of d L = At i \<longleftrightarrow> i < length (cpus s) \<and> (\<exists>p. dispatched (cpus s ! i) = Some p \<and> pids (kernel s) p = Some d))
    \<and> (\<forall>p. p \<in># all_ready (sched (kernel s)) \<longrightarrow> pids (kernel s) p = Some d \<longrightarrow> phase_of d L = Waiting)
    \<and> (\<exists>n. slot_times L = map word_of_nat [0..<n])"
proof -
  have "log_inv cf s L" by (rule log_run_inv [OF assms(4) log_boot boot_inv [OF assms(1)] assms(5,2,3)])
  note b = boardD [OF log_invD(1) [OF this]]
  have "phase_of d L = At i \<longleftrightarrow> (\<exists>p. at_cpu s i = Some p \<and> pids (kernel s) p = Some d)" for i
    using b(5) [of i] b(6) [of d i] by auto
  moreover have "phase_of d L = Waiting" if "p \<in># all_ready (sched (kernel s))" "pids (kernel s) p = Some d" for p
    using b(4) [of p] that by (auto simp: waits_def)
  moreover have "\<exists>n. slot_times L = map word_of_nat [0..<n]"
    using ticks_ok_run [OF assms(4)] unfolding ticks_ok_def by blast
  ultimately show ?thesis using b(8) by (simp add: at_cpu_def)
qed

theorem log_tells_life_witness:
  "\<exists>s. log_run demo_cf demo_fs (boot demo_cf) [Loader_Step, Loader_Step] [Ld_Line, Loaded_Line ''input/proc/c'' 1 3] s
     \<and> (\<forall>i < length (cpus s). \<forall>p. dispatched (cpus s ! i) = Some p \<longrightarrow> pids (kernel s) p \<noteq> Some 1)"
proof -
  obtain s where run: "log_run demo_cf demo_fs (boot demo_cf) [Loader_Step, Loader_Step] [Ld_Line, Loaded_Line ''input/proc/c'' 1 3] s"
    by (rule demo_log)
  have cf: "0 < time_slot demo_cf" "num_processes demo_cf < 2 ^ 31" by (simp_all add: demo_cf_def)
  have ok: "\<forall>e \<in> set [Loader_Step, Loader_Step]. event_ok e" by simp
  have "phase_of 1 [Ld_Line, Loaded_Line ''input/proc/c'' 1 3] = Waiting" by (simp add: phase_of_def)
  then show ?thesis using log_tells_life [OF demo_sizes cf run ok, of 1] run by auto
qed

end
