(* ===== verification/Os_Conserve.thy ===== *)
theory Os_Conserve
  imports Os_Log
begin

text \<open>
  The messages on the error output, and what becomes of the processes: in every run of the simulator
  a process that has been loaded and has not finished is in a ready queue or held by a thread, or it
  was dropped by a full queue, which the error output reports. With at most 50 processes none is dropped.
\<close>

section \<open>Messages\<close>

datatype err_line = Queue_Full u32 | Bad_Prio u32 u32 | Fifo_Loop

fun err_text :: "err_line \<Rightarrow> string" where
  "err_text (Queue_Full d) = ''[queue] ERROR: queue full (size='' @ dec MAX_QUEUE_SIZE @ ''), dropping pid='' @ fmt_ud d @ nl"
| "err_text (Bad_Prio d pr) = ''[sched] WARNING: proc pid='' @ fmt_ud d @ '' has invalid prio='' @ fmt_ud pr
     @ '' (MAX_PRIO='' @ dec MAX_PRIO @ ''), clamping to 0'' @ nl"
| "err_text Fifo_Loop = ''Error: Infinite loop in FIFO list!'' @ nl"

text \<open>What the operations print; the ones that have a fault print nothing.\<close>

definition enqueue_err :: "heap \<Rightarrow> queue_t \<Rightarrow> ptr \<Rightarrow> err_line list" where
  "enqueue_err h q p = (if p = NULL then [] else case h p of None \<Rightarrow> []
     | Some x \<Rightarrow> if qsize q \<ge> MAX_QUEUE_SIZE then [Queue_Full (pid x)] else [])"

definition get_mlq_err :: "heap \<Rightarrow> sched_t \<Rightarrow> err_line list" where
  "get_mlq_err h s = (case mlq_loop h s 0 of Inr (p, s') \<Rightarrow> enqueue_err h (running_list s') p | Inl _ \<Rightarrow> [])"

definition admit_err :: "heap \<Rightarrow> ptr \<Rightarrow> err_line list" where
  "admit_err h p = (case h p of None \<Rightarrow> []
     | Some x \<Rightarrow> if unat (prio x) \<ge> MAX_PRIO then [Bad_Prio (pid x) (prio x)] else [])"

definition add_mlq_err :: "heap \<Rightarrow> sched_t \<Rightarrow> ptr \<Rightarrow> err_line list" where
  "add_mlq_err h s p = admit_err h p @ (case admit h p of Inl _ \<Rightarrow> []
     | Inr (x, h) \<Rightarrow> (case arr_get (mlq_ready_queue s) (unat (prio x)) of Inl _ \<Rightarrow> []
        | Inr q \<Rightarrow> enqueue_err h q p))"

text \<open>\<open>purgequeue\<close> prints nothing, so \<open>put_mlq_proc\<close> prints what \<open>add_mlq_proc\<close> does.\<close>

definition put_mlq_err :: "heap \<Rightarrow> sched_t \<Rightarrow> ptr \<Rightarrow> err_line list" where
  "put_mlq_err h s p = add_mlq_err h s p"

text \<open>The loop of \<open>find_victim_page\<close> gives up after 10002 nodes.\<close>

fun victim_err :: "addr list \<Rightarrow> nat \<Rightarrow> err_line list" where
  "victim_err (pg # pg' # next) safety_count =
     (if safety_count > 10000 then [Fifo_Loop] else victim_err (pg' # next) (safety_count + 1))"
| "victim_err _ safety_count = []"

lemma victim_err_iff: "pgs \<noteq> [] \<Longrightarrow> victim_err pgs n = [Fifo_Loop] \<longleftrightarrow> victim_loop pgs before n = None"
  by (induction pgs before n rule: victim_loop.induct) auto

text \<open>What the steps of the threads print, apart from the memory library.\<close>

definition cpu_err :: "kern \<Rightarrow> cpu \<Rightarrow> err_line list" where
  "cpu_err K c = (case cpc c of
      Top \<Rightarrow> if proc c = NULL then [] else (case procs K (proc c) of None \<Rightarrow> [] | Some x \<Rightarrow>
          if unat (pc x) \<noteq> length (code x) \<and> time_left c = 0 then put_mlq_err (procs K) (sched K) (proc c) else [])
    | First_Get \<Rightarrow> get_mlq_err (procs K) (sched K)
    | Next_Get \<Rightarrow> get_mlq_err (procs K) (sched K)
    | _ \<Rightarrow> [])"

definition ld_err :: "config \<Rightarrow> os \<Rightarrow> err_line list" where
  "ld_err cf s = (let l = ld s; i = next_process l in if lpc l \<noteq> Ld_Wait then [] else
     (case (arr_get (ld_processes cf) i, procs (kernel s) (ld_proc l)) of
        (Inr a, Some x) \<Rightarrow> (case start_time a of
            Some t \<Rightarrow> if current_time (tm (bar s)) < t then []
              else add_mlq_err ((procs (kernel s))(ld_proc l \<mapsto> x\<lparr>krnl_mm := Some init_mm\<rparr>)) (sched (kernel s)) (ld_proc l)
          | None \<Rightarrow> [])
      | _ \<Rightarrow> []))"

definition os_err :: "config \<Rightarrow> os \<Rightarrow> os_event \<Rightarrow> err_line list" where
  "os_err cf s e = (case e of
      Cpu_Step i \<Rightarrow> cpu_err (kernel s) (cpus s ! i)
    | Loader_Step \<Rightarrow> ld_err cf s
    | _ \<Rightarrow> [])"

text \<open>A run with both outputs.\<close>

inductive full_run :: "config \<Rightarrow> (string \<Rightarrow> string option) \<Rightarrow> os \<Rightarrow> os_event list \<Rightarrow> log_line list \<Rightarrow> err_line list \<Rightarrow> os \<Rightarrow> bool"
  for cf fs s where
  start: "full_run cf fs s [] [] [] s"
| step: "full_run cf fs s es L E s' \<Longrightarrow> os_step cf fs s' e s'' \<Longrightarrow>
     full_run cf fs s (es @ [e]) (L @ os_out dirs cf s' e) (E @ os_err cf s' e) s''"

lemma full_run_log: "full_run cf fs s es L E s' \<Longrightarrow> log_run cf fs s es L s'"
  by (induction rule: full_run.induct) (auto intro: log_run.intros)

lemma log_run_full: "log_run cf fs s es L s' \<Longrightarrow> \<exists>E. full_run cf fs s es L E s'"
  by (induction rule: log_run.induct) (auto intro: full_run.intros)

section \<open>Room in the queues\<close>

lemma size_once: "(\<And>p. count M p \<le> 1) \<Longrightarrow> size M = card (set_mset M)"
proof -
  assume "\<And>p. count M p \<le> 1"
  then have "count M p = 1" if "p \<in># M" for p using that by (metis count_greater_eq_one_iff le_antisym)
  then show ?thesis by (simp add: size_multiset_overloaded_eq)
qed

lemma others_few:
  assumes "\<And>q. count (add_mset p A) q \<le> 1" and "set_mset (add_mset p A) \<subseteq> D" and "finite D"
  shows "size A < card D"
proof -
  have "size (add_mset p A) \<le> card D" using size_once [OF assms(1)] card_mono [OF assms(3,2)] by simp
  then show ?thesis by simp
qed

lemma kern_inv_dom:
  assumes "kern_inv K C L"
  shows "set_mset (all_ready (sched K) + C + L) \<subseteq> dom (procs K)"
proof
  fix p assume "p \<in># all_ready (sched K) + C + L"
  then consider "p \<in># all_ready (sched K) + C" | "p \<in># L" by auto
  then show "p \<in> dom (procs K)"
  proof cases
    case 1
    then obtain x m where "procs K p = Some x" by (rule kern_inv_held [OF assms])
    then show ?thesis by blast
  qed (use assms in \<open>auto simp: kern_inv_def\<close>)
qed

lemma kern_few:
  assumes k: "kern_inv K C L" and f: "finite (dom (procs K))" and A: "add_mset p A \<subseteq># all_ready (sched K) + C + L"
  shows "size A < card (dom (procs K))"
proof (rule others_few [OF _ _ f])
  show "count (add_mset p A) q \<le> 1" for q
    using mset_subset_eq_count [OF A, of q] kern_invD(3) [OF k, of q] by (rule le_trans)
  show "set_mset (add_mset p A) \<subseteq> dom (procs K)"
    using set_mset_mono [OF A] kern_inv_dom [OF k] by (rule subset_trans)
qed

lemma level_subset: "l < MAX_PRIO \<Longrightarrow> mset (level s l) \<subseteq># all_ready s"
  unfolding all_ready_def by (subst sum.remove [of _ l]) auto

text \<open>The queues that a thread puts its process into have room, unless 50 other processes are there.\<close>

lemma level_room:
  assumes k: "kern_inv K C L" and f: "finite (dom (procs K))" and p: "p \<in># C + L" and l: "l < MAX_PRIO"
  shows "length (level (sched K) l) < card (dom (procs K))"
proof -
  have "add_mset p (mset (level (sched K) l)) = mset (level (sched K) l) + {#p#}" by simp
  also have "\<dots> \<subseteq># all_ready (sched K) + (C + L)"
    by (rule subset_mset.add_mono [OF level_subset [OF l]]) (use p in simp)
  finally have "add_mset p (mset (level (sched K) l)) \<subseteq># all_ready (sched K) + C + L" by (simp add: add.assoc)
  from kern_few [OF k f this] show ?thesis by simp
qed

lemma running_room:
  assumes k: "kern_inv K C L" and f: "finite (dom (procs K))" and p: "p \<in># all_ready (sched K)"
  shows "length (q_list (running_list (sched K))) < card (dom (procs K))"
proof -
  let ?r = "mset (q_list (running_list (sched K)))"
  have "add_mset p ?r = {#p#} + ?r" by simp
  also have "\<dots> \<subseteq># all_ready (sched K) + C"
    by (rule subset_mset.add_mono) (use p kern_invD(4) [OF k] in simp_all)
  also have "\<dots> \<subseteq># all_ready (sched K) + C + L" by simp
  finally show ?thesis using kern_few [OF k f, of p ?r] by simp
qed

section \<open>What the operations do with a process\<close>

lemma enqueue_err_full: "h p = Some x \<Longrightarrow> p \<noteq> NULL \<Longrightarrow> qsize q \<ge> MAX_QUEUE_SIZE \<Longrightarrow> enqueue_err h q p = [Queue_Full (pid x)]"
  by (simp add: enqueue_err_def)

lemma mlq_loop_running:
  assumes "sched_inv h s" and "mlq_loop h s 0 = Inr (p, s')"
  shows "running_list s' = running_list s \<and> (p \<noteq> NULL \<longrightarrow> p \<in># all_ready s)"
proof -
  have inv: "queues_ok s" "cursor_ok s" "levels_ok h s" "curr_prio s < MAX_PRIO"
    using assms(1) by (auto simp: sched_inv_def cursor_ok_def)
  show ?thesis
  proof (cases "first_level s")
    case None
    from mlq_loop_none [OF inv(1,4) None] have "p = NULL" "s' = (next_level ^^ MAX_PRIO) s" using assms(2) by simp_all
    then show ?thesis by simp
  next
    case (Some k)
    let ?l = "(curr_prio s + k) mod MAX_PRIO"
    obtain i q' where i: "first_min h (level s ?l) i" "p = level s ?l ! i" "s' = after_serve ((next_level ^^ k) s) q'"
      using mlq_loop_some [OF inv(1-3) Some] assms(2) by auto
    then have "p \<in># mset (level s ?l)" by (simp add: first_min_def)
    then have "p \<in># all_ready s" using mset_subset_eqD [OF level_subset [of ?l s]] by simp
    then show ?thesis using i(3) by simp
  qed
qed

lemma get_mlq_err_none:
  assumes "sched_inv h s" and "\<And>p. p \<in># all_ready s \<Longrightarrow> length (q_list (running_list s)) < MAX_QUEUE_SIZE"
  shows "get_mlq_err h s = []"
proof (cases "mlq_loop h s 0")
  case (Inr r)
  obtain p s' where r: "r = (p, s')" by (cases r)
  have "q_inv (running_list s)" using assms(1) by (simp add: sched_inv_def queues_ok_def)
  then show ?thesis using mlq_loop_running [OF assms(1), of p s'] Inr r assms(2) [of p]
    by (auto simp: get_mlq_err_def enqueue_err_def split: option.split)
qed (simp add: get_mlq_err_def)

lemma get_ready:
  assumes "sched_inv h s" and "get_proc h s = Inr (p, s')"
  shows "all_ready s = (if p = NULL then all_ready s' else add_mset p (all_ready s'))"
  using assms
proof (cases rule: got_cases)
  case none
  then have "level s' = level s" by simp
  then show ?thesis using none(1) by (simp add: all_ready_def)
next
  case (some k)
  then show ?thesis using served_inv [OF assms(1) some(4)] by simp
qed

lemma add_mlq_err_iff:
  assumes "sched_inv h s" and "p \<noteq> NULL" and "h p = Some x"
  shows "Queue_Full d \<in> set (add_mlq_err h s p) \<longleftrightarrow> \<not> length (level s (level_of h p)) < MAX_QUEUE_SIZE \<and> d = pid x"
proof -
  have inv: "queues_ok s" "levels_ok h s" using assms(1) by (simp_all add: sched_inv_def)
  have hp: "h p \<noteq> None" "the (h p) = x" using assms(3) by simp_all
  have a: "admit h p = Inr (admit_block x, h(p \<mapsto> admit_block x))" "unat (prio (admit_block x)) = level_of h p"
    using admit_returns [OF assms(2) hp(1) inv(2)] by (simp_all add: hp(2))
  have q: "q_inv (mlq_ready_queue s ! level_of h p)" by (rule queues_ok_nth [OF inv(1)]) simp
  then have "qsize (mlq_ready_queue s ! level_of h p) = length (level s (level_of h p))" by (simp add: level_def)
  moreover have "arr_get (mlq_ready_queue s) (level_of h p) = Inr (mlq_ready_queue s ! level_of h p)"
    using inv(1) by (simp add: queues_ok_def)
  ultimately show ?thesis using a assms(2,3)
    by (auto simp: add_mlq_err_def admit_err_def enqueue_err_def)
qed

lemma put_ready:
  assumes "sched_inv h s" and "p \<noteq> NULL" and "h p = Some x" and "put_proc h s p = Inr (h', s')"
  shows "h' = h(p \<mapsto> admit_block x)
    \<and> all_ready s' = (if Queue_Full (pid x) \<in> set (put_mlq_err h s p) then all_ready s else add_mset p (all_ready s))"
proof -
  have l: "level s' = (level s)(level_of h p := appended (level s (level_of h p)) p)" "h' = h(p \<mapsto> admit_block x)"
    using put_returns [OF assms(1,2)] assms(3,4) by auto
  show ?thesis using all_ready_appended [OF l(1) level_of_less] l(2) add_mlq_err_iff [OF assms(1-3)]
    by (simp add: put_mlq_err_def)
qed

lemma add_ready:
  assumes "sched_inv h s" and "p \<noteq> NULL" and "h p = Some x" and "add_proc h s p = Inr (h', s')"
  shows "h' = h(p \<mapsto> admit_block x)
    \<and> all_ready s' = (if Queue_Full (pid x) \<in> set (add_mlq_err h s p) then all_ready s else add_mset p (all_ready s))"
proof -
  have l: "level s' = (level s)(level_of h p := appended (level s (level_of h p)) p)" "h' = h(p \<mapsto> admit_block x)"
    using add_returns [OF assms(1,2)] assms(3,4) by auto
  show ?thesis using all_ready_appended [OF l(1) level_of_less] l(2) add_mlq_err_iff [OF assms(1-3)] by simp
qed

section \<open>The ledger\<close>

text \<open>Every block is in a queue, with a processor or with the loader, or its loss was reported.\<close>

definition ledger :: "kern \<Rightarrow> ptr multiset \<Rightarrow> err_line list \<Rightarrow> bool" where
  "ledger K H E \<longleftrightarrow> (\<forall>p x. procs K p = Some x \<longrightarrow> p \<in># all_ready (sched K) + H \<or> Queue_Full (pid x) \<in> set E)"

definition no_full :: "err_line list \<Rightarrow> bool" where
  "no_full E \<longleftrightarrow> (\<forall>d. Queue_Full d \<notin> set E)"

lemma no_full_simps [simp]: "no_full []" "no_full (E @ E') \<longleftrightarrow> no_full E \<and> no_full E'"
  by (auto simp: no_full_def)

lemma ledgerD: "ledger K H E \<Longrightarrow> procs K p = Some x \<Longrightarrow> p \<in># all_ready (sched K) + H \<or> Queue_Full (pid x) \<in> set E"
  unfolding ledger_def by blast

text \<open>A step after which every block is one of before and no place is given up.\<close>

lemma ledger_mono:
  assumes "ledger K H E" and "\<And>p x. procs K' p = Some x \<Longrightarrow> \<exists>y. procs K p = Some y \<and> pid x = pid y"
    and "\<And>p. p \<in># all_ready (sched K) + H \<Longrightarrow> procs K' p \<noteq> None \<Longrightarrow>
        p \<in># all_ready (sched K') + H' \<or> (\<forall>y. procs K p = Some y \<longrightarrow> Queue_Full (pid y) \<in> set E')"
  shows "ledger K' H' (E @ E')"
  unfolding ledger_def
proof (intro allI impI)
  fix p x assume x: "procs K' p = Some x"
  then obtain y where y: "procs K p = Some y" "pid x = pid y" using assms(2) by blast
  from ledgerD [OF assms(1) y(1)]
  show "p \<in># all_ready (sched K') + H' \<or> Queue_Full (pid x) \<in> set (E @ E')"
  proof
    assume "p \<in># all_ready (sched K) + H"
    from assms(3) [OF this] show ?thesis using x y by auto
  qed (use y in simp)
qed

text \<open>The number of processes that processors have reported as finished.\<close>

definition is_finish :: "log_line \<Rightarrow> bool" where
  "is_finish l = (case l of Finished_Line i d \<Rightarrow> True | _ \<Rightarrow> False)"

definition finished :: "log_line list \<Rightarrow> nat" where
  "finished L = length (filter is_finish L)"

lemma finished_simps [simp]: "finished [] = 0" "finished (L @ M) = finished L + finished M"
    "finished [l] = (if is_finish l then 1 else 0)"
  by (simp_all add: finished_def)

text \<open>The books of the kernel before and after a step: what is held, and how many blocks there are.\<close>

definition booked :: "kern \<Rightarrow> ptr multiset \<Rightarrow> err_line list \<Rightarrow> nat \<Rightarrow> kern \<Rightarrow> ptr multiset \<Rightarrow> bool" where
  "booked K H E n K' H' \<longleftrightarrow> (\<forall>E0. ledger K H E0 \<longrightarrow> ledger K' H' (E0 @ E)) \<and> finite (dom (procs K'))
     \<and> card (dom (procs K')) + n = card (dom (procs K)) \<and> (card (dom (procs K)) \<le> MAX_QUEUE_SIZE \<longrightarrow> no_full E)"

lemma bookedI:
  assumes f: "finite (dom (procs K))" and d: "dom (procs K') = dom (procs K)"
    and i: "\<And>p x. procs K' p = Some x \<Longrightarrow> \<exists>y. procs K p = Some y \<and> pid x = pid y"
    and m: "\<And>p. p \<in># all_ready (sched K) + H \<Longrightarrow> p \<in># all_ready (sched K') + H' \<or> (\<forall>y. procs K p = Some y \<longrightarrow> Queue_Full (pid y) \<in> set E)"
    and r: "card (dom (procs K)) \<le> MAX_QUEUE_SIZE \<Longrightarrow> no_full E"
  shows "booked K H E 0 K' H'"
  unfolding booked_def using f d r by (auto intro!: ledger_mono [OF _ i m])

lemma get_booked:
  assumes k: "kern_inv K C L" and f: "finite (dom (procs K))" and g: "get_proc (procs K) (sched K) = Inr (p, s)"
  shows "booked K (C + L) (get_mlq_err (procs K) (sched K)) 0 (K\<lparr>sched := s\<rparr>) ((if p = NULL then C else add_mset p C) + L)"
proof (rule bookedI [OF f])
  note sc = kern_invD(1) [OF k]
  show "q \<in># all_ready (sched (K\<lparr>sched := s\<rparr>)) + ((if p = NULL then C else add_mset p C) + L) \<or> P"
    if "q \<in># all_ready (sched K) + (C + L)" for q P
    using that get_ready [OF sc g] by (auto split: if_splits)
  show "no_full (get_mlq_err (procs K) (sched K))" if "card (dom (procs K)) \<le> MAX_QUEUE_SIZE"
    using get_mlq_err_none [OF sc] running_room [OF k f] that by fastforce
qed auto

lemma put_booked:
  assumes k: "kern_inv K (add_mset p C) L" and f: "finite (dom (procs K))"
    and g: "put_proc (procs K) (sched K) p = Inr (h, s)"
  shows "booked K (add_mset p C + L) (put_mlq_err (procs K) (sched K) p) 0 (K\<lparr>procs := h, sched := s\<rparr>) (C + L)"
proof -
  note sc = kern_invD(1) [OF k]
  obtain x m where x: "p \<noteq> NULL" "procs K p = Some x" by (rule kern_inv_held [OF k, of p]) simp
  note e = put_ready [OF sc x g]
  have r: "length (level (sched K) (level_of (procs K) p)) < card (dom (procs K))"
    by (rule level_room [OF k f, of p]) simp_all
  show ?thesis
  proof (rule bookedI [OF f])
    show "q \<in># all_ready (sched (K\<lparr>procs := h, sched := s\<rparr>)) + (C + L)
        \<or> (\<forall>y. procs K q = Some y \<longrightarrow> Queue_Full (pid y) \<in> set (put_mlq_err (procs K) (sched K) p))"
      if "q \<in># all_ready (sched K) + (add_mset p C + L)" for q
      using that e x(2) by (cases "q = p") auto
    show "no_full (put_mlq_err (procs K) (sched K) p)" if "card (dom (procs K)) \<le> MAX_QUEUE_SIZE"
      using add_mlq_err_iff [OF sc x] r that by (simp add: no_full_def put_mlq_err_def)
  qed (use e x in \<open>auto split: if_splits\<close>)
qed

lemma finish_booked:
  assumes k: "kern_inv K (add_mset p C) L" and f: "finite (dom (procs K))" and g: "finish_proc (sched K) p = Inr s"
  shows "booked K (add_mset p C + L) [] 1 (K\<lparr>sched := s, procs := (procs K)(p := None)\<rparr>) (C + L)"
proof -
  obtain x m where x: "p \<noteq> NULL" "procs K p = Some x" by (rule kern_inv_held [OF k, of p]) simp
  have "level s = level (sched K)" using finish_returns [OF kern_invD(1) [OF k] x(1)] g by auto
  then have r: "all_ready s = all_ready (sched K)" by (simp add: all_ready_def)
  let ?K = "K\<lparr>sched := s, procs := (procs K)(p := None)\<rparr>"
  have "ledger ?K (C + L) (E @ [])" if "ledger K (add_mset p C + L) E" for E
    by (rule ledger_mono [OF that]) (use r in \<open>auto split: if_splits\<close>)
  moreover have "card (dom (procs ?K)) + 1 = card (dom (procs K))"
    using card_Suc_Diff1 [OF f domI [of "procs K", OF x(2)]] by (simp add: dom_fun_upd)
  ultimately show ?thesis using f unfolding booked_def by simp
qed

text \<open>An instruction neither moves nor removes a process.\<close>

lemma run_booked:
  assumes k: "kern_inv K (holds c + R) L" and c: "cpu_ok c" "cpc c = Exec" and f: "finite (dom (procs K))"
    and r: "run K (proc c) = Inr (r, K')" and ok: "procs K (proc c) = Some x" "event_ok (Cpu_Run i x)"
  shows "booked K (holds c + R + L) [] 0 K' (holds c + R + L)"
proof -
  have p: "proc c \<noteq> NULL" using c by (simp add: cpu_ok_def)
  have "proc c \<in># holds c + R" using p c(2) by (simp add: holds_def)
  from run_kern [OF k this ok(1)] ok(2) r
  have t: "only_touched K (proc c) (x\<lparr>pc := (if unat (pc x) < length (code x) then pc x + 1 else pc x)\<rparr>) K'" by simp
  obtain y where y: "procs K' (proc c) = Some y" "pid y = pid x" "sched K' = sched K" "\<And>q. q \<noteq> proc c \<Longrightarrow> procs K' q = procs K q"
    using t by (auto simp: only_touched_def)
  have other: "\<exists>z. procs K q = Some z \<and> pid w = pid z" if "procs K' q = Some w" for q w
    using that y ok(1) by (cases "q = proc c") auto
  have "(procs K' q = None) = (procs K q = None)" for q using y ok(1) by (cases "q = proc c") auto
  then have "dom (procs K') = dom (procs K)" unfolding dom_def by auto
  then show ?thesis using other y(3) by (intro bookedI [OF f]) auto
qed

text \<open>One step of a processor.\<close>

lemma cpu_booked:
  assumes k: "kern_inv K (holds c + R) L" and c: "cpu_ok c" and f: "finite (dom (procs K))"
    and st: "cpu_routine slots dn K c = Inr (K', c')"
    and ok: "cpc c = Exec \<longrightarrow> procs K (proc c) = Some x \<and> event_ok (Cpu_Run i x)"
  shows "booked K (holds c + R + L) (cpu_err K c) (finished (cpu_out dirs i dn K c)) K' (holds c' + R + L)"
proof -
  note defs = cpu_err_def cpu_out_def is_finish_def
  consider "cpc c = Top" "proc c = NULL" | "cpc c = Top" "proc c \<noteq> NULL" | "cpc c = First_Get \<or> cpc c = Next_Get"
    | "cpc c = Recheck" | "cpc c = Exec" | "cpc c \<in> {Next_Slot, Leave, Stopped}" by (cases "cpc c") auto
  then show ?thesis
  proof cases
    case 2
    then have h: "holds c = {# proc c #}" by (simp add: holds_def)
    have k': "kern_inv K (add_mset (proc c) R) L" using k h by simp
    from st 2 show ?thesis
    proof (cases rule: cpu_top_cases)
      case (ended y s)
      then show ?thesis using finish_booked [OF k' f ended(3)] 2 h by (simp add: holds_def defs)
    next
      case (slice_over y hp s)
      then show ?thesis using put_booked [OF k' f slice_over(4)] 2 h by (simp add: holds_def defs)
    next
      case (resume y)
      then show ?thesis using 2 f by (auto simp: holds_def defs intro!: bookedI)
    qed
  next
    case 3
    obtain p s where g: "get_proc (procs K) (sched K) = Inr (p, s)" "K' = K\<lparr>sched := s\<rparr>"
        "c' = c\<lparr>proc := p, cpc := (if cpc c = First_Get \<and> p = NULL then Next_Slot else Recheck)\<rparr>"
      using st 3 by (rule cpu_get)
    have h: "holds c = {#}" "holds c' = (if p = NULL then {#} else {#p#})"
      using c 3 by (auto simp: g(3) cpu_ok_def holds_def)
    show ?thesis using get_booked [OF k f g(1)] 3 g(2) unfolding h by (auto simp: defs split: if_splits)
  next
    case 4
    have e: "finished (cpu_out dirs i dn K c) = 0" "cpu_err K c = []" using 4 by (auto simp: defs split: option.split)
    have "K' = K \<and> holds c' = holds c"
      using st 4 by (rule cpu_recheck_cases) (use 4 in \<open>auto simp: holds_def\<close>)
    then show ?thesis unfolding e by (simp, intro bookedI [OF f]) auto
  next
    case 5
    obtain r where r: "run K (proc c) = Inr (r, K')" "c' = c\<lparr>time_left := time_left c - 1, cpc := Next_Slot\<rparr>"
      using st 5 by (auto simp: cpu_routine_def rbind_Inr_iff)
    have x: "procs K (proc c) = Some x" "event_ok (Cpu_Run i x)" using ok 5 by simp_all
    have "holds c' = holds c" using r(2) 5 by (simp add: holds_def)
    then show ?thesis using run_booked [OF k c 5 f r(1) x] 5 by (simp add: defs)
  qed (use st f in \<open>auto simp: cpu_routine_def defs holds_def intro!: bookedI\<close>)
qed

section \<open>Runs\<close>

text \<open>The number of processes the loader has made blocks for.\<close>

definition born :: "loader \<Rightarrow> nat" where
  "born l = next_process l + size (ld_holds l)"

text \<open>All the places where a process can be.\<close>

definition members :: "os \<Rightarrow> ptr multiset" where
  "members s = all_ready (sched (kernel s)) + cpus_hold (cpus s) + ld_holds (ld s)"

definition os_books :: "config \<Rightarrow> os \<Rightarrow> log_line list \<Rightarrow> err_line list \<Rightarrow> bool" where
  "os_books cf s L E \<longleftrightarrow> ledger (kernel s) (cpus_hold (cpus s) + ld_holds (ld s)) E
     \<and> finite (dom (procs (kernel s))) \<and> card (dom (procs (kernel s))) + finished L = born (ld s)
     \<and> born (ld s) \<le> nat (num_processes cf) \<and> (num_processes cf \<le> int MAX_QUEUE_SIZE \<longrightarrow> no_full E)
     \<and> (lpc (ld s) \<in> {Ld_Leave, Ld_Stopped} \<longrightarrow> next_process (ld s) = nat (num_processes cf))"

lemma os_booksD:
  assumes "os_books cf s L E"
  shows "ledger (kernel s) (cpus_hold (cpus s) + ld_holds (ld s)) E" "finite (dom (procs (kernel s)))"
    "card (dom (procs (kernel s))) + finished L = born (ld s)" "born (ld s) \<le> nat (num_processes cf)"
    "num_processes cf \<le> int MAX_QUEUE_SIZE \<longrightarrow> no_full E"
    "lpc (ld s) \<in> {Ld_Leave, Ld_Stopped} \<longrightarrow> next_process (ld s) = nat (num_processes cf)"
  using assms unfolding os_books_def by blast+

text \<open>A step of one thread that the books of the kernel account for.\<close>

lemma os_books_step:
  assumes b: "os_books cf s L E"
    and k: "booked (kernel s) (cpus_hold (cpus s) + ld_holds (ld s)) E' (finished L') (kernel s') (cpus_hold (cpus s') + ld_holds (ld s'))"
    and l: "born (ld s') = born (ld s)" "lpc (ld s') \<in> {Ld_Leave, Ld_Stopped} \<longrightarrow> next_process (ld s') = nat (num_processes cf)"
  shows "os_books cf s' (L @ L') (E @ E')"
proof -
  note B = os_booksD [OF b]
  have "card (dom (procs (kernel s))) \<le> nat (num_processes cf)" using B(3,4) by simp
  then have "num_processes cf \<le> int MAX_QUEUE_SIZE \<longrightarrow> no_full E'" using k by (auto simp: booked_def)
  then show ?thesis using B k l unfolding os_books_def booked_def by auto
qed

lemma books_cpu:
  assumes b: "os_books cf s L E" and inv: "os_inv cf s" and i: "i < length (cpus s)"
    and st: "cpu_routine (time_slot cf) (all_loaded s) (kernel s) (cpus s ! i) = Inr (K, c)"
    and ok: "cpc (cpus s ! i) = Exec \<longrightarrow> procs (kernel s) (proc (cpus s ! i)) = Some x \<and> event_ok (Cpu_Run i x)"
  shows "os_books cf (s\<lparr>kernel := K, cpus := (cpus s)[i := c]\<rparr>)
    (L @ cpu_out dirs i (all_loaded s) (kernel s) (cpus s ! i)) (E @ cpu_err (kernel s) (cpus s ! i))"
proof -
  obtain R where R: "cpus_hold (cpus s) = holds (cpus s ! i) + R" "\<And>c. cpus_hold ((cpus s)[i := c]) = holds c + R"
    using cpus_hold_split [OF i] by blast
  have k: "kern_inv (kernel s) (holds (cpus s ! i) + R) (ld_holds (ld s))" and c: "cpu_ok (cpus s ! i)"
    using inv i R(1) by (simp_all add: os_inv_def)
  note B = os_booksD [OF b]
  show ?thesis
    by (rule os_books_step [OF b]) (use cpu_booked [OF k c B(2) st ok] B(6) R in simp_all)
qed

lemma books_create:
  assumes b: "os_books cf s L E" and fresh: "procs (kernel s) fresh = None" and out: "finished out = 0"
    and l: "lpc (ld s) = Ld_Top" "int (next_process (ld s)) < num_processes cf"
    and s': "s' = s\<lparr>kernel := (kernel s)\<lparr>procs := (procs (kernel s))(fresh \<mapsto> x)\<rparr>, avail_pid := pd,
       ld := (ld s)\<lparr>ld_proc := fresh, lpc := Ld_Wait\<rparr>\<rparr>"
  shows "os_books cf s' (L @ out) E"
proof -
  note B = os_booksD [OF b]
  have e: "ld_holds (ld s) = {#}" using l(1) by (simp add: ld_holds_def)
  have h: "ld_holds (ld s') = {#fresh#}" "born (ld s') = born (ld s) + 1"
    using e by (simp_all add: s' ld_holds_def born_def)
  have "card (dom (procs (kernel s'))) = card (dom (procs (kernel s))) + 1"
    using fresh B(2) by (simp add: s' domIff)
  moreover have "finite (dom (procs (kernel s')))" using B(2) by (simp add: s')
  moreover have "ledger (kernel s') (cpus_hold (cpus s') + ld_holds (ld s')) E"
    using B(1) unfolding ledger_def h(1) e by (auto simp: s')
  moreover have "born (ld s') \<le> nat (num_processes cf)" using l(2) e h(2) by (simp add: born_def)
  moreover have "lpc (ld s') = Ld_Wait" by (simp add: s')
  ultimately show ?thesis using B(3,5) h(2) out unfolding os_books_def by simp
qed

text \<open>A process that is added is in its queue, or a full queue has dropped it.\<close>

lemma add_booked:
  assumes k: "kern_inv K C {# p #}" and f: "finite (dom (procs K))" and x: "p \<noteq> NULL" "procs K p = Some x"
    and h: "add_proc ((procs K)(p \<mapsto> x\<lparr>krnl_mm := Some init_mm\<rparr>)) (sched K) p = Inr (h, sc)"
  shows "booked K (C + {# p #}) (add_mlq_err ((procs K)(p \<mapsto> x\<lparr>krnl_mm := Some init_mm\<rparr>)) (sched K) p) 0
    (K\<lparr>procs := h, sched := sc\<rparr>) C"
proof -
  define y where "y = x\<lparr>krnl_mm := Some init_mm\<rparr>"
  define g where "g = (procs K)(p \<mapsto> y)"
  have gp: "g p = Some y" "pid y = pid x" by (simp_all add: g_def y_def)
  have sc: "sched_inv g (sched K)"
    by (rule sched_inv_heap [OF kern_invD(1) [OF k]]) (use x in \<open>auto simp: g_def y_def\<close>)
  note ready = add_ready [OF sc x(1) gp(1) h [folded y_def, folded g_def]] and full = add_mlq_err_iff [OF sc x(1) gp(1)]
  have room: "length (level (sched K) (level_of g p)) < card (dom (procs K))"
    by (rule level_room [OF k f, of p]) simp_all
  show ?thesis unfolding y_def [symmetric] g_def [symmetric]
  proof (rule bookedI [OF f])
    show "dom (procs (K\<lparr>procs := h, sched := sc\<rparr>)) = dom (procs K)" using ready x(2) by (auto simp: g_def)
    show "\<exists>w. procs K q = Some w \<and> pid z = pid w" if "procs (K\<lparr>procs := h, sched := sc\<rparr>) q = Some z" for q z
      using that ready x(2) gp by (cases "q = p") (auto simp: g_def)
    show "q \<in># all_ready (sched (K\<lparr>procs := h, sched := sc\<rparr>)) + C
        \<or> (\<forall>w. procs K q = Some w \<longrightarrow> Queue_Full (pid w) \<in> set (add_mlq_err g (sched K) p))"
      if "q \<in># all_ready (sched K) + (C + {# p #})" for q
      using that ready x(2) gp(2) by (cases "q = p") auto
    show "no_full (add_mlq_err g (sched K) p)" if "card (dom (procs K)) \<le> MAX_QUEUE_SIZE"
      using full room that by (simp add: no_full_def)
  qed
qed

lemma books_load:
  assumes b: "os_books cf s L E" and inv: "os_inv cf s" and fresh: "fresh \<noteq> NULL" "procs (kernel s) fresh = None"
    and st: "ld_routine cf fs fresh x0 j s = Inr (Some s')"
  shows "os_books cf s' (L @ ld_out cf s) (E @ ld_err cf s)"
proof -
  note B = os_booksD [OF b]
  have o: "finished (ld_out cf s) = 0"
    by (auto simp: ld_out_def Let_def is_finish_def split: ld_pc.split sum.split option.split)
  consider "lpc (ld s) = Ld_Top" | "lpc (ld s) = Ld_Wait" | "lpc (ld s) \<notin> {Ld_Top, Ld_Wait}" by blast
  then show ?thesis
  proof cases
    case 1
    have e: "ld_err cf s = []" using 1 by (simp add: ld_err_def Let_def)
    from st 1 show ?thesis
    proof (cases rule: ld_top_cases)
      case (create a x pd pr)
      show ?thesis unfolding e append_Nil2 by (rule books_create [OF b fresh(2) o 1 create(1,5)])
    next
      case all
      have "born (ld s) = next_process (ld s)" using 1 by (simp add: born_def ld_holds_def)
      then have n: "next_process (ld s) = nat (num_processes cf)" using B(4) all(1) by simp
      show ?thesis unfolding e
        by (rule os_books_step [OF b], unfold o, rule bookedI [OF B(2)])
          (use n in \<open>auto simp: all(2) born_def ld_holds_def 1\<close>)
    qed
  next
    case 2
    have k: "kern_inv (kernel s) (cpus_hold (cpus s)) {# ld_proc (ld s) #}" using inv 2 by (simp add: os_inv_def ld_holds_def)
    have hs: "ld_holds (ld s) = {# ld_proc (ld s) #}" using 2 by (simp add: ld_holds_def)
    from st 2 show ?thesis
    proof (cases rule: ld_wait_cases)
      case (early a t)
      have e: "ld_err cf s = []" using early 2 by (simp add: ld_err_def Let_def split: option.split)
      show ?thesis unfolding e
        by (rule os_books_step [OF b], unfold o, rule bookedI [OF B(2)]) (auto simp: early(4) born_def ld_holds_def 2)
    next
      case (add a t x h sc)
      have e: "ld_err cf s = add_mlq_err ((procs (kernel s))(ld_proc (ld s) \<mapsto> x\<lparr>krnl_mm := Some init_mm\<rparr>)) (sched (kernel s)) (ld_proc (ld s))"
        using 2 add by (simp add: ld_err_def Let_def)
      show ?thesis unfolding e
        by (rule os_books_step [OF b], unfold o hs)
          (use add_booked [OF k B(2) add(4-6)] in \<open>simp_all add: add(7) born_def ld_holds_def 2\<close>)
    qed
  next
    case 3
    then have "ld_out cf s = []" "ld_err cf s = []" by (cases "lpc (ld s)"; simp add: ld_out_def ld_err_def Let_def)+
    then show ?thesis using ld_other [OF st 3] b by simp
  qed
qed

lemma os_books_same:
  assumes "os_books cf s L E" and "kernel s' = kernel s" "cpus_hold (cpus s') = cpus_hold (cpus s)"
    and "ld_holds (ld s') = ld_holds (ld s)" "next_process (ld s') = next_process (ld s)"
    and "lpc (ld s') \<in> {Ld_Leave, Ld_Stopped} \<longrightarrow> lpc (ld s) \<in> {Ld_Leave, Ld_Stopped}" and "finished L' = 0"
  shows "os_books cf s' (L @ L') E"
  using assms unfolding os_books_def born_def by auto

lemma books_resumed: "os_books cf s L E \<Longrightarrow> at_slot s i \<Longrightarrow> os_books cf ((resumed s i)\<lparr>bar := b\<rparr>) L E"
proof -
  assume b: "os_books cf s L E" and at: "at_slot s i"
  have "os_books cf ((resumed s i)\<lparr>bar := b\<rparr>) (L @ []) E"
  proof (cases "i < length (cpus s)")
    case True
    then have "cpc (cpus s ! i) = Next_Slot" using at by (simp add: at_slot_def)
    moreover obtain R where "cpus_hold (cpus s) = holds (cpus s ! i) + R" "\<And>c. cpus_hold ((cpus s)[i := c]) = holds c + R"
      using cpus_hold_split [OF True] by blast
    ultimately show ?thesis using True by (intro os_books_same [OF b]) (simp_all add: resumed_def holds_def)
  next
    case False
    then show ?thesis using at by (intro os_books_same [OF b]) (auto simp: resumed_def at_slot_def ld_holds_def)
  qed
  then show ?thesis by simp
qed

lemma books_stopped: "os_books cf s L E \<Longrightarrow> at_end s i \<Longrightarrow> os_books cf ((stopped s i)\<lparr>bar := b\<rparr>) L E"
proof -
  assume b: "os_books cf s L E" and at: "at_end s i"
  have "os_books cf ((stopped s i)\<lparr>bar := b\<rparr>) (L @ []) E"
  proof (cases "i < length (cpus s)")
    case True
    then have "cpc (cpus s ! i) = Leave" using at by (simp add: at_end_def)
    moreover obtain R where "cpus_hold (cpus s) = holds (cpus s ! i) + R" "\<And>c. cpus_hold ((cpus s)[i := c]) = holds c + R"
      using cpus_hold_split [OF True] by blast
    ultimately show ?thesis using True by (intro os_books_same [OF b]) (simp_all add: stopped_def holds_def)
  next
    case False
    then show ?thesis using at by (intro os_books_same [OF b]) (auto simp: stopped_def at_end_def ld_holds_def)
  qed
  then show ?thesis by simp
qed

lemma books_bar: "os_books cf s L E \<Longrightarrow> finished L' = 0 \<Longrightarrow> os_books cf (s\<lparr>bar := b\<rparr>) (L @ L') E"
  by (rule os_books_same) auto

lemma books_step:
  assumes st: "os_step cf fs s e s'" and b: "os_books cf s L E" and inv: "os_inv cf s" and ok: "event_ok e"
  shows "os_books cf s' (L @ os_out dirs cf s e) (E @ os_err cf s e)"
  using st
proof cases
  case (cpu i K c)
  then show ?thesis using books_cpu [OF b inv cpu(3,5), where dirs = dirs] by (auto simp: os_out_def os_err_def)
next
  case (exec i x K c)
  then show ?thesis using books_cpu [OF b inv exec(3,6), where dirs = dirs and x = x] ok
    by (simp add: os_out_def os_err_def cpu_err_def)
next
  case (load fresh x0 j)
  then show ?thesis using books_load [OF b inv load(3,4,6)] by (simp add: os_out_def os_err_def)
next
  case (timer bb)
  then show ?thesis using books_bar [OF b] by (simp add: os_out_def os_err_def timer_out_def is_finish_def)
qed (use b books_resumed books_stopped books_bar [OF b, of "[]"] in \<open>simp_all add: os_out_def os_err_def\<close>)

lemma books_boot: "os_books cf (boot cf) [] []"
  by (simp add: os_books_def ledger_def boot_def born_def loader_start_def ld_holds_def)

lemma full_run_books:
  assumes "full_run cf fs s es L E s'" and "os_books cf s [] []" and "os_inv cf s" and "\<forall>e \<in> set es. event_ok e"
  shows "os_books cf s' L E"
  using assms
proof (induction rule: full_run.induct)
  case (step es L E s' e s'' dirs)
  have "os_inv cf s'" using os_run_inv [OF log_run_os [OF full_run_log [OF step.hyps(1)]]] step.prems by simp
  then show ?case using books_step [OF step.hyps(2)] step by simp
qed simp

section \<open>Properties\<close>

text \<open>
  C10. No process is lost silently. In every run of the simulator, however its threads interleave, a process
  that has been loaded and not freed is in exactly one place, a ready queue, a processor or the loader,
  unless a full queue has dropped it, and then the error output says so. Every process that the
  loader made is still there or was reported as finished. With at most 50 processes nothing
  is ever dropped, and when nothing is queued or held after the last one was loaded, all have finished.
  The instructions that are run keep to the limits of \<open>inst_ok\<close>.
\<close>

theorem no_process_lost:
  assumes "sizes_ok cf" and "full_run cf fs (boot cf) es L E s" and "\<forall>e \<in> set es. event_ok e"
  shows "(\<forall>p x. procs (kernel s) p = Some x \<longrightarrow> count (members s) p = 1 \<or> count (members s) p = 0 \<and> Queue_Full (pid x) \<in> set E)
    \<and> card (dom (procs (kernel s))) + finished L = born (ld s)
    \<and> (num_processes cf \<le> 50 \<longrightarrow> (\<forall>d. Queue_Full d \<notin> set E)
         \<and> (\<forall>p. count (members s) p = (if procs (kernel s) p = None then 0 else 1))
         \<and> (members s = {#} \<and> lpc (ld s) \<in> {Ld_Leave, Ld_Stopped} \<longrightarrow> finished L = nat (num_processes cf)))"
proof -
  have inv: "os_inv cf s" using os_run_inv [OF log_run_os [OF full_run_log [OF assms(2)]] boot_inv [OF assms(1)] assms(3)] .
  note B = os_booksD [OF full_run_books [OF assms(2) books_boot boot_inv [OF assms(1)] assms(3)]]
  have k: "kern_inv (kernel s) (cpus_hold (cpus s)) (ld_holds (ld s))" using inv by (simp add: os_inv_def)
  have one: "count (members s) p \<le> 1" for p using kern_invD(3) [OF k] by (simp add: members_def)
  have in1: "p \<in># members s \<longleftrightarrow> count (members s) p = 1" for p
    using one [of p] count_greater_eq_one_iff [of "members s" p] by linarith
  have m: "members s = all_ready (sched (kernel s)) + (cpus_hold (cpus s) + ld_holds (ld s))" by (simp add: members_def add.assoc)
  have at: "count (members s) p = 1 \<or> count (members s) p = 0 \<and> Queue_Full (pid x) \<in> set E"
    if "procs (kernel s) p = Some x" for p x
    using ledgerD [OF B(1) that] in1 [of p] one [of p] unfolding m [symmetric] by linarith
  have dead: "count (members s) p = 0" if "procs (kernel s) p = None" for p
    using kern_inv_dom [OF k] that by (auto simp: members_def not_in_iff [symmetric] domIff)
  have all: "(\<forall>d. Queue_Full d \<notin> set E) \<and> (\<forall>p. count (members s) p = (if procs (kernel s) p = None then 0 else 1))
      \<and> (members s = {#} \<and> lpc (ld s) \<in> {Ld_Leave, Ld_Stopped} \<longrightarrow> finished L = nat (num_processes cf))"
    if few: "num_processes cf \<le> 50"
  proof -
    have nf: "\<forall>d. Queue_Full d \<notin> set E" using B(5) few by (simp add: no_full_def MAX_QUEUE_SIZE_def)
    then have c: "count (members s) p = (if procs (kernel s) p = None then 0 else 1)" for p
      using at [of p] dead [of p] by auto
    have "finished L = nat (num_processes cf)" if z: "members s = {#}" "lpc (ld s) \<in> {Ld_Leave, Ld_Stopped}"
    proof -
      have "procs (kernel s) p = None" for p using c [of p] z(1) by (simp split: if_splits)
      then have "dom (procs (kernel s)) = {}" by (simp add: dom_def)
      moreover have "ld_holds (ld s) = {#}" using z(1) by (simp add: members_def)
      ultimately show ?thesis using B(3) mp [OF B(6) z(2)] by (simp add: born_def)
    qed
    then show ?thesis using nf c by blast
  qed
  show ?thesis using at B(3) all by blast
qed


theorem no_process_lost_witness:
  "\<exists>E s p. full_run demo_cf demo_fs (boot demo_cf) [Loader_Step, Loader_Step] [Ld_Line, Loaded_Line ''input/proc/c'' 1 3] E s
    \<and> count (members s) p = 1 \<and> (\<forall>d. Queue_Full d \<notin> set E)"
proof -
  let ?L = "[Ld_Line, Loaded_Line ''input/proc/c'' 1 3]"
  obtain s E where run: "full_run demo_cf demo_fs (boot demo_cf) [Loader_Step, Loader_Step] ?L E s"
    by (rule demo_log) (use log_run_full in blast)
  have ok: "\<forall>e \<in> set [Loader_Step, Loader_Step]. event_ok e" by simp
  have np: "num_processes demo_cf = 1" by (simp add: demo_cf_def)
  note n = no_process_lost [OF demo_sizes run ok, unfolded np]
  have "finished ?L = 0" by (simp add: finished_def is_finish_def)
  moreover have "1 \<le> born (ld s)"
  proof -
    have "phase_of 1 ?L \<noteq> Unborn" by (simp add: phase_of_def)
    moreover have "log_inv demo_cf s ?L"
      by (rule log_run_inv [OF full_run_log [OF run] log_boot boot_inv [OF demo_sizes] ok]) (simp_all add: demo_cf_def)
    note L = log_invD [OF this]
    ultimately have "unat (1 :: u32) < unat (avail_pid s)" using boardD(3) [OF L(1), of 1] by fastforce
    then show ?thesis using L(2) by (auto simp: born_def unannounced_def ld_holds_def split: if_splits)
  qed
  ultimately have "card (dom (procs (kernel s))) \<noteq> 0" using n by auto
  then obtain p where "procs (kernel s) p \<noteq> None" by (metis card.empty domIff equals0I)
  moreover have "\<forall>d. Queue_Full d \<notin> set E" "\<forall>p. count (members s) p = (if procs (kernel s) p = None then 0 else 1)"
    using n by simp_all
  ultimately have "count (members s) p = 1" by simp
  with run \<open>\<forall>d. Queue_Full d \<notin> set E\<close> show ?thesis by blast
qed

end
