(* ===== verification/Os_Program.thy ===== *)
theory Os_Program
  imports Os_Conserve
begin

text \<open>
  What the simulator of \<^verbatim>\<open>src/os.c\<close> is for: it executes programs. In every interleaving of the threads
  the instructions executed for a process are those of its file, in their order, each once, however
  often the process is preempted and on whatever processors it runs, and a process that is gone has
  executed all of them.
\<close>

section \<open>What a run executes\<close>

fun ran :: "u32 \<Rightarrow> os_event \<Rightarrow> inst_t list" where
  "ran d (Cpu_Run i x) = (if pid x = d \<and> unat (pc x) < length (code x) then [code x ! unat (pc x)] else [])"
| "ran d _ = []"

definition executed :: "os_event list \<Rightarrow> u32 \<Rightarrow> inst_t list" where
  "executed es d = concat (map (ran d) es)"

text \<open>What an event records is what \<open>run\<close> fetches from the block and executes.\<close>

lemma run_fetches:
  assumes "procs K p = Some x" and "p \<noteq> NULL"
  shows "run K p = (case ran (pid x) (Cpu_Run i x) of [] \<Rightarrow> Inr (1, K)
    | ins # _ \<Rightarrow> exec_inst (K\<lparr>procs := (procs K)(p \<mapsto> x\<lparr>pc := pc x + 1\<rparr>)\<rparr>) p ins)"
  using assms by (simp add: run_def deref_Some)

lemma executed_simps [simp]: "executed [] d = []" "executed (es @ [e]) d = executed es d @ ran d e"
  by (simp_all add: executed_def)

text \<open>The program of the process with identifier \<open>d\<close>, as \<open>load\<close> reads it from the file of the configuration.\<close>

definition program_of :: "config \<Rightarrow> (string \<Rightarrow> string option) \<Rightarrow> u32 \<Rightarrow> inst_t list \<Rightarrow> bool" where
  "program_of cf fs d t \<longleftrightarrow> (\<exists>a x0 j x pd. arr_get (ld_processes cf) (unat d - 1) = Inr a
     \<and> load x0 j d (fs (path a)) = Inr (Some (x, pd)) \<and> t = code x)"

text \<open>The blocks, as far as the execution of programs goes.\<close>

definition progress :: "kern \<Rightarrow> ptr \<rightharpoonup> u32 \<times> inst_t list \<times> u32" where
  "progress K p = map_option (\<lambda>x. (pid x, code x, pc x)) (procs K p)"

lemma progress_pids: "pids K p = map_option fst (progress K p)"
  by (simp add: pids_def progress_def option.map_comp comp_def)

lemma progress_admit: "h p = Some x \<Longrightarrow> progress (K\<lparr>procs := h(p \<mapsto> admit_block x), sched := q\<rparr>) = progress (K\<lparr>procs := h\<rparr>)"
  by (auto simp: progress_def admit_block_def Let_def fun_eq_iff)

lemma cpu_progress:
  assumes k: "kern_inv K (holds c + R) L" and st: "cpu_routine slots dn K c = Inr (K', c')" and n: "cpc c \<noteq> Exec"
  shows "progress K' = progress K
    \<or> (\<exists>p d t n. progress K p = Some (d, t, n) \<and> unat n = length t \<and> progress K' = (progress K)(p := None))"
proof -
  consider "cpc c = Top" "proc c = NULL" | "cpc c = Top" "proc c \<noteq> NULL" | "cpc c = First_Get \<or> cpc c = Next_Get"
    | "cpc c = Recheck" | "cpc c \<in> {Next_Slot, Leave, Stopped}" using n by (cases "cpc c") auto
  then show ?thesis
  proof cases
    case 2
    from st 2 show ?thesis
    proof (cases rule: cpu_top_cases)
      case (ended y s)
      then show ?thesis
        by (intro disjI2 exI [of _ "proc c"] exI [of _ "pid y"] exI [of _ "code y"] exI [of _ "pc y"])
          (auto simp: progress_def fun_eq_iff)
    next
      case (slice_over y h s)
      from put_ready [OF kern_invD(1) [OF k] 2(2) slice_over(1,4)] have "h = (procs K)(proc c \<mapsto> admit_block y)" by simp
      then show ?thesis using slice_over(1,5) by (simp add: progress_admit)
    qed simp
  next
    case 3
    with st show ?thesis by (rule cpu_get) (simp add: progress_def [abs_def])
  next
    case 4
    with st show ?thesis by (rule cpu_recheck_cases) simp_all
  qed (use st in \<open>auto simp: cpu_routine_def\<close>)
qed

lemma run_progress:
  assumes inv: "kern_inv K (holds c + R) L" and c: "cpu_ok c" "cpc c = Exec" and st: "cpu_routine slots dn K c = Inr (K', c')"
    and x: "procs K (proc c) = Some x" and ok: "event_ok (Cpu_Run i x)"
  shows "progress K' = (progress K)(proc c \<mapsto> (pid x, code x, if unat (pc x) < length (code x) then pc x + 1 else pc x))"
    and "length (code x) < 2 ^ 32"
proof -
  obtain r where r: "run K (proc c) = Inr (r, K')" using st c(2) by (auto simp: cpu_routine_def rbind_Inr_iff)
  have p: "proc c \<in># holds c + R" using c by (simp add: holds_def cpu_ok_def)
  from run_kern [OF inv this x] ok r
  have t: "only_touched K (proc c) (x\<lparr>pc := (if unat (pc x) < length (code x) then pc x + 1 else pc x)\<rparr>) K'" by simp
  have "progress K' q = ((progress K)(proc c \<mapsto> (pid x, code x, if unat (pc x) < length (code x) then pc x + 1 else pc x))) q" for q
    using t by (cases "q = proc c") (auto simp: progress_def only_touched_def)
  then show "progress K' = (progress K)(proc c \<mapsto> (pid x, code x, if unat (pc x) < length (code x) then pc x + 1 else pc x))"
    by (rule ext)
  have "proc c \<in># all_ready (sched K) + (holds c + R)" using p by simp
  then obtain y where "procs K (proc c) = Some y" "block_ok y" by (rule kern_inv_held [OF inv])
  then show "length (code x) < 2 ^ 32" using x by (simp add: block_ok_def)
qed

section \<open>The invariant\<close>

text \<open>
  \<open>T\<close> gives the programs of the processes made so far. A block has executed its program up to its
  program counter; a process whose block is gone has executed all of it.
\<close>

definition prog_inv :: "config \<Rightarrow> (string \<Rightarrow> string option) \<Rightarrow> (u32 \<Rightarrow> inst_t list) \<Rightarrow> kern \<Rightarrow> u32 \<Rightarrow> os_event list \<Rightarrow> bool" where
  "prog_inv cf fs T K a es \<longleftrightarrow>
     (\<forall>d. 0 < unat d \<and> unat d < unat a \<longrightarrow> program_of cf fs d (T d))
     \<and> (\<forall>p d t n. progress K p = Some (d, t, n) \<longrightarrow> 0 < unat d \<and> unat d < unat a \<and> t = T d \<and> executed es d = take (unat n) t)
     \<and> (\<forall>d. 0 < unat d \<and> unat d < unat a \<and> (\<forall>p. pids K p \<noteq> Some d) \<longrightarrow> executed es d = T d)
     \<and> (\<forall>d. \<not> (0 < unat d \<and> unat d < unat a) \<longrightarrow> executed es d = [])"

lemma prog_invD:
  assumes "prog_inv cf fs T K a es"
  shows "0 < unat d \<Longrightarrow> unat d < unat a \<Longrightarrow> program_of cf fs d (T d)"
    "progress K p = Some (d, t, n) \<Longrightarrow> 0 < unat d \<and> unat d < unat a \<and> t = T d \<and> executed es d = take (unat n) t"
    "0 < unat d \<Longrightarrow> unat d < unat a \<Longrightarrow> (\<And>p. pids K p \<noteq> Some d) \<Longrightarrow> executed es d = T d"
    "\<not> (0 < unat d \<and> unat d < unat a) \<Longrightarrow> executed es d = []"
  using assms unfolding prog_inv_def by blast+

lemma prog_invI:
  assumes "\<And>d. 0 < unat d \<Longrightarrow> unat d < unat a \<Longrightarrow> program_of cf fs d (T d)"
    and "\<And>p d t n. progress K p = Some (d, t, n) \<Longrightarrow> 0 < unat d \<and> unat d < unat a \<and> t = T d \<and> executed es d = take (unat n) t"
    and "\<And>d. 0 < unat d \<Longrightarrow> unat d < unat a \<Longrightarrow> \<forall>p. pids K p \<noteq> Some d \<Longrightarrow> executed es d = T d"
    and "\<And>d. \<not> (0 < unat d \<and> unat d < unat a) \<Longrightarrow> executed es d = []"
  shows "prog_inv cf fs T K a es"
  using assms unfolding prog_inv_def by blast

lemma prog_keep:
  assumes "prog_inv cf fs T K a es" and "progress K' = progress K" and "\<And>d. ran d e = []"
  shows "prog_inv cf fs T K' a (es @ [e])"
  using assms unfolding prog_inv_def progress_pids by simp

text \<open>A process ends: its program counter stands at the end of its program.\<close>

lemma prog_end:
  assumes inv: "prog_inv cf fs T K a es" and p: "progress K p = Some (d, t, n)" "unat n = length t"
    and K': "progress K' = (progress K)(p := None)" and e: "\<And>d. ran d e = []"
  shows "prog_inv cf fs T K' a (es @ [e])"
proof (rule prog_invI)
  note I = prog_invD [OF inv]
  show "executed (es @ [e]) d' = T d'" if d': "0 < unat d'" "unat d' < unat a" "\<forall>p. pids K' p \<noteq> Some d'" for d'
  proof (cases "d' = d")
    case True
    then show ?thesis using I(2) [OF p(1)] p(2) e by simp
  next
    case False
    have "pids K q \<noteq> Some d'" for q
      using d'(3) [rule_format, of q] p(1) False by (cases "q = p") (auto simp: progress_pids K')
    then show ?thesis using I(3) [OF d'(1,2)] e by simp
  qed
  show "0 < unat d' \<and> unat d' < unat a \<and> t' = T d' \<and> executed (es @ [e]) d' = take (unat n') t'"
    if "progress K' q = Some (d', t', n')" for q d' t' n'
    using I(2) [of q d' t' n'] that e by (auto simp: K' split: if_splits)
qed (use prog_invD [OF inv] e in auto)

text \<open>An instruction is executed.\<close>

lemma prog_run:
  assumes inv: "prog_inv cf fs T K a es" and x: "procs K p = Some x" "length (code x) < 2 ^ 32"
    and one: "\<And>q. pids K q = Some (pid x) \<Longrightarrow> q = p"
    and K': "progress K' = (progress K)(p \<mapsto> (pid x, code x, if unat (pc x) < length (code x) then pc x + 1 else pc x))"
  shows "prog_inv cf fs T K' a (es @ [Cpu_Run i x])"
proof (rule prog_invI)
  note I = prog_invD [OF inv]
  have px: "progress K p = Some (pid x, code x, pc x)" using x(1) by (simp add: progress_def)
  note X = I(2) [OF px]
  have same: "pids K' = pids K" using px by (auto simp: progress_pids K' fun_eq_iff)
  show "0 < unat d \<and> unat d < unat a \<and> t = T d \<and> executed (es @ [Cpu_Run i x]) d = take (unat n) t"
    if q: "progress K' q = Some (d, t, n)" for q d t n
  proof (cases "q = p")
    case True
    show ?thesis
    proof (cases "unat (pc x) < length (code x)")
      case less: True
      have "unat (pc x + 1) = unat (pc x) + 1" using less x(2) by (simp add: unat_word_ariths)
      moreover have "d = pid x" "t = code x" "n = pc x + 1" using q True less by (simp_all add: K')
      ultimately show ?thesis using X less by (simp add: take_Suc_conv_app_nth)
    next
      case False
      moreover have "d = pid x" "t = code x" "n = pc x" using q True False by (simp_all add: K')
      ultimately show ?thesis using X by simp
    qed
  next
    case False
    then have "pid x \<noteq> d" using one [of q] q by (auto simp: progress_pids K')
    then show ?thesis using I(2) [of q d t n] q False by (simp add: K')
  qed
  show "executed (es @ [Cpu_Run i x]) d = T d" if d: "0 < unat d" "unat d < unat a" "\<forall>p. pids K' p \<noteq> Some d" for d
  proof -
    have "pids K q \<noteq> Some d" for q using d(3) unfolding same by blast
    moreover have "pids K p = Some (pid x)" using x(1) by (simp add: pids_def)
    ultimately have "pid x \<noteq> d" by auto
    then show ?thesis using I(3) [OF d(1,2)] \<open>\<And>q. pids K q \<noteq> Some d\<close> by simp
  qed
qed (use prog_invD [OF inv] x(1) in \<open>force simp: progress_def\<close>)+

text \<open>A process is made.\<close>

lemma prog_create:
  assumes inv: "prog_inv cf fs T K a es" and a: "0 < unat a" "unat a' = unat a + 1" and new: "progress K p = None"
    and t: "program_of cf fs a t" and K': "progress K' = (progress K)(p \<mapsto> (a, t, 0))" and e: "\<And>d. ran d e = []"
  shows "prog_inv cf fs (T(a := t)) K' a' (es @ [e])"
proof (rule prog_invI)
  note I = prog_invD [OF inv]
  have lt: "unat d < unat a" if "unat d < unat a'" "d \<noteq> a" for d :: u32
    using that a(2) by (metis less_antisym Suc_eq_plus1 unsigned_word_eqI)
  have na: "executed es a = []" by (rule I(4)) simp
  show "program_of cf fs d ((T(a := t)) d)" if "0 < unat d" "unat d < unat a'" for d
    using t I(1) [OF that(1)] lt [OF that(2)] by auto
  show "0 < unat d \<and> unat d < unat a' \<and> u = (T(a := t)) d \<and> executed (es @ [e]) d = take (unat n) u"
    if q: "progress K' q = Some (d, u, n)" for q d u n
    using q I(2) [of q d u n] a na e by (auto simp: K' split: if_splits)
  show "executed (es @ [e]) d = (T(a := t)) d" if d: "0 < unat d" "unat d < unat a'" "\<forall>p. pids K' p \<noteq> Some d" for d
  proof -
    have "d \<noteq> a" using d(3) [rule_format, of p] by (auto simp: progress_pids K')
    moreover have "pids K q \<noteq> Some d" for q using d(3) [rule_format, of q] new by (cases "q = p") (auto simp: progress_pids K')
    ultimately show ?thesis using I(3) [OF d(1) lt [OF d(2)]] e by simp
  qed
  show "executed (es @ [e]) d = []" if "\<not> (0 < unat d \<and> unat d < unat a')" for d
    using I(4) [of d] that a(2) e by auto
qed

section \<open>Runs\<close>

lemma prog_cpu:
  assumes inv: "prog_inv cf fs T (kernel s) (avail_pid s) es" and os: "os_inv cf s" and i: "i < length (cpus s)"
    and st: "cpu_routine slots dn (kernel s) (cpus s ! i) = Inr (K, c)" and n: "cpc (cpus s ! i) \<noteq> Exec"
  shows "prog_inv cf fs T K (avail_pid s) (es @ [Cpu_Step i])"
proof -
  obtain R where R: "cpus_hold (cpus s) = holds (cpus s ! i) + R" using cpus_hold_split [OF i] by blast
  have k: "kern_inv (kernel s) (holds (cpus s ! i) + R) (ld_holds (ld s))" using os R by (simp add: os_inv_def)
  from cpu_progress [OF k st n] show ?thesis
    using prog_keep [OF inv] prog_end [OF inv] by fastforce
qed

lemma prog_exec:
  assumes inv: "prog_inv cf fs T (kernel s) (avail_pid s) es" and os: "os_inv cf s" and log: "log_inv cf s L" and i: "i < length (cpus s)"
    and st: "cpu_routine slots dn (kernel s) (cpus s ! i) = Inr (K, c)" and e: "cpc (cpus s ! i) = Exec"
    and x: "procs (kernel s) (proc (cpus s ! i)) = Some x" and ok: "event_ok (Cpu_Run i x)"
  shows "prog_inv cf fs T K (avail_pid s) (es @ [Cpu_Run i x])"
proof -
  obtain R where R: "cpus_hold (cpus s) = holds (cpus s ! i) + R" using cpus_hold_split [OF i] by blast
  have k: "kern_inv (kernel s) (holds (cpus s ! i) + R) (ld_holds (ld s))" using os R by (simp add: os_inv_def)
  have c: "cpu_ok (cpus s ! i)" using os i by (simp add: os_inv_def)
  have px: "pids (kernel s) (proc (cpus s ! i)) = Some (pid x)" using x by (simp add: pids_def)
  have "q = proc (cpus s ! i)" if "pids (kernel s) q = Some (pid x)" for q
    using boardD(1) [OF log_invD(1) [OF log] that px] .
  then show ?thesis using run_progress [OF k c e st x ok] by (intro prog_run [OF inv x]) simp_all
qed

lemma prog_load:
  assumes inv: "prog_inv cf fs T (kernel s) (avail_pid s) es" and os: "os_inv cf s" and log: "log_inv cf s L"
    and num: "num_processes cf < 2 ^ 31"
    and fresh: "fresh \<noteq> NULL" "procs (kernel s) fresh = None" and st: "ld_routine cf fs fresh x0 j s = Inr (Some s')"
  shows "\<exists>T. prog_inv cf fs T (kernel s') (avail_pid s') (es @ [Loader_Step])"
proof -
  note L = log_invD [OF log]
  consider "lpc (ld s) = Ld_Top" | "lpc (ld s) = Ld_Wait" | "lpc (ld s) \<notin> {Ld_Top, Ld_Wait}" by blast
  then show ?thesis
  proof cases
    case 1
    then have len: "unat (avail_pid s) = 1 + next_process (ld s)" using L(2) by (simp add: unannounced_def)
    from st 1 show ?thesis
    proof (cases rule: ld_top_cases)
      case (create a x pd pr)
      note f = load_pid [OF create(3)]
      have pd: "unat pd = unat (avail_pid s) + 1" using f len create(1) num by (simp add: unat_word_ariths)
      have "program_of cf fs (avail_pid s) (code x)"
        using create(2,3) unfolding program_of_def len by (auto intro!: exI)
      moreover have "progress (kernel s') = (progress (kernel s))(fresh \<mapsto> (avail_pid s, code x, 0))"
        using f by (simp add: create(5) progress_def fun_eq_iff)
      moreover have "progress (kernel s) fresh = None" using fresh(2) by (simp add: progress_def)
      moreover have "unat (avail_pid s') = unat (avail_pid s) + 1" using pd by (simp add: create(5))
      ultimately have "prog_inv cf fs (T(avail_pid s := code x)) (kernel s') (avail_pid s') (es @ [Loader_Step])"
        using len by (intro prog_create [OF inv]) simp_all
      then show ?thesis by (rule exI [of _ "T(avail_pid s := code x)"])
    qed (use prog_keep [OF inv, of _ Loader_Step] in auto)
  next
    case 2
    from st 2 show ?thesis
    proof (cases rule: ld_wait_cases)
      case (add a t x h sc)
      let ?p = "ld_proc (ld s)" and ?y = "x\<lparr>krnl_mm := Some init_mm\<rparr>"
      have "kern_inv (kernel s) (cpus_hold (cpus s)) {# ?p #}" using os 2 by (simp add: os_inv_def ld_holds_def)
      then have "sched_inv ((procs (kernel s))(?p \<mapsto> ?y)) (sched (kernel s))"
        by (intro sched_inv_heap [OF kern_invD(1)]) (use add(4,5) in auto)
      from add_ready [OF this add(4) _ add(6), of ?y] have "h = (procs (kernel s))(?p \<mapsto> admit_block ?y)" by simp
      then have "progress (kernel s') = progress (kernel s)"
        using add(5) by (auto simp: add(7) progress_def admit_block_def Let_def fun_eq_iff)
      from prog_keep [OF inv this, of Loader_Step] show ?thesis by (auto simp: add(7))
    qed (use prog_keep [OF inv, of _ Loader_Step] in auto)
  next
    case 3
    from prog_keep [OF inv refl, of Loader_Step] show ?thesis using ld_other [OF st 3] by auto
  qed
qed

lemma prog_step:
  assumes st: "os_step cf fs s e s'" and inv: "prog_inv cf fs T (kernel s) (avail_pid s) es" and os: "os_inv cf s"
    and log: "log_inv cf s L" and num: "num_processes cf < 2 ^ 31" and ok: "event_ok e"
  shows "\<exists>T. prog_inv cf fs T (kernel s') (avail_pid s') (es @ [e])"
  using st
proof cases
  case (cpu i K c)
  have "cpc (cpus s ! i) \<noteq> Exec" using cpu(4) by auto
  from prog_cpu [OF inv os cpu(3,5) this] show ?thesis using cpu(1,2) by auto
next
  case (exec i x K c)
  have "event_ok (Cpu_Run i x)" using ok exec(1) by simp
  from prog_exec [OF inv os log exec(3,6,4,5) this] show ?thesis using exec(1,2) by auto
next
  case (load fresh x0 j)
  from prog_load [OF inv os log num load(3,4,6)] show ?thesis using load(1) by simp
qed (use prog_keep [OF inv refl, of e] in \<open>auto simp: resumed_def stopped_def\<close>)

lemma prog_boot: "prog_inv cf fs T (kernel (boot cf)) (avail_pid (boot cf)) []"
  by (auto simp: prog_inv_def progress_def boot_def)

lemma prog_log_run:
  assumes "log_run cf fs (boot cf) es L s" and "os_inv cf (boot cf)" and "\<forall>e \<in> set es. event_ok e"
    and "0 < time_slot cf" "num_processes cf < 2 ^ 31"
  shows "\<exists>T. prog_inv cf fs T (kernel s) (avail_pid s) es"
  using assms
proof (induction rule: log_run.induct)
  case start
  show ?case using prog_boot by blast
next
  case (step es L s' e s'' dirs)
  then obtain T where T: "prog_inv cf fs T (kernel s') (avail_pid s') es" by auto
  have os: "os_inv cf s'" using os_run_inv [OF log_run_os [OF step.hyps(1)]] step.prems by simp
  have log: "log_inv cf s' L" using log_run_inv [OF step.hyps(1) log_boot] step.prems by simp
  show ?case using prog_step [OF step.hyps(2) T os log] step.prems by simp
qed

section \<open>Properties\<close>

text \<open>
  C11. The programs are executed. In every interleaving, for every process that the loader has made there
  is the program that \<open>load\<close> reads from its file, and the instructions executed for it so far, on
  whatever processors and across all preemptions, are the first ones of that program, in order and
  each once: as many as its program counter says while it has a block, and all of them when its block is
  gone. Nothing is executed for any other identifier. The instructions that are run keep to the limits of
  \<open>inst_ok\<close>.
\<close>

theorem programs_executed:
  assumes "sizes_ok cf" and "0 < time_slot cf" and "num_processes cf < 2 ^ 31"
    and "os_run cf fs (boot cf) es s" and "\<forall>e \<in> set es. event_ok e"
  shows "(\<forall>d. 0 < unat d \<and> unat d < unat (avail_pid s) \<longrightarrow> (\<exists>t. program_of cf fs d t
        \<and> (\<forall>p x. procs (kernel s) p = Some x \<and> pid x = d \<longrightarrow> code x = t \<and> executed es d = take (unat (pc x)) t)
        \<and> ((\<forall>p. pids (kernel s) p \<noteq> Some d) \<longrightarrow> executed es d = t)))
    \<and> (\<forall>d. \<not> (0 < unat d \<and> unat d < unat (avail_pid s)) \<longrightarrow> executed es d = [] \<and> (\<forall>p. pids (kernel s) p \<noteq> Some d))"
proof -
  obtain L where L: "log_run cf fs (boot cf) es L s" using os_run_log [OF assms(4)] by blast
  obtain T where T: "prog_inv cf fs T (kernel s) (avail_pid s) es"
    using prog_log_run [OF L boot_inv [OF assms(1)] assms(5,2,3)] by blast
  note I = prog_invD [OF T]
  have block: "0 < unat (pid x) \<and> unat (pid x) < unat (avail_pid s) \<and> code x = T (pid x) \<and> executed es (pid x) = take (unat (pc x)) (code x)"
    if "procs (kernel s) p = Some x" for p x
    using I(2) [of p "pid x" "code x" "pc x"] that by (simp add: progress_def)
  show ?thesis
  proof (intro conjI allI impI)
    fix d :: u32 assume d: "0 < unat d \<and> unat d < unat (avail_pid s)"
    show "\<exists>t. program_of cf fs d t
        \<and> (\<forall>p x. procs (kernel s) p = Some x \<and> pid x = d \<longrightarrow> code x = t \<and> executed es d = take (unat (pc x)) t)
        \<and> ((\<forall>p. pids (kernel s) p \<noteq> Some d) \<longrightarrow> executed es d = t)"
      by (rule exI [of _ "T d"]) (use I(1,3) [of d] d block in auto)
  next
    fix d :: u32 assume d: "\<not> (0 < unat d \<and> unat d < unat (avail_pid s))"
    show "executed es d = []" by (rule I(4) [OF d])
    fix p show "pids (kernel s) p \<noteq> Some d" using block [of p] d by (auto simp: pids_def)
  qed
qed

text \<open>A processor that looks for a process when one is ready executes an instruction of it.\<close>

lemma cpu_takes:
  assumes inv: "os_inv cf s" and i: "i < length (cpus s)" and c: "cpus s ! i = \<lparr>time_left = 0, proc = NULL, cpc = First_Get\<rparr>"
    and r: "all_ready (sched (kernel s)) \<noteq> {#}"
  obtains q s' where "os_run cf fs s [Cpu_Step i, Cpu_Step i] s'" "i < length (cpus s')" "cpc (cpus s' ! i) = Exec"
    "proc (cpus s' ! i) = q" "procs (kernel s) q \<noteq> None" "procs (kernel s') = procs (kernel s)"
proof -
  let ?K = "kernel s"
  have k: "kern_inv ?K (cpus_hold (cpus s)) (ld_holds (ld s))" using inv by (simp add: os_inv_def)
  note sc = kern_invD(1) [OF k]
  obtain q sc' where g: "get_proc (procs ?K) (sched ?K) = Inr (q, sc')" using get_total [OF sc] by blast
  have "curr_prio (sched ?K) < MAX_PRIO" using sc by (simp add: sched_inv_def cursor_ok_def)
  then have f: "first_level (sched ?K) \<noteq> None" using r by (simp add: first_level_None all_ready_empty)
  from sc g have q: "q \<noteq> NULL \<and> procs ?K q \<noteq> None"
  proof (cases rule: got_cases)
    case none
    then show ?thesis using f by simp
  qed simp
  define K' where "K' = ?K\<lparr>sched := sc'\<rparr>"
  define c1 where "c1 = \<lparr>time_left = 0, proc = q, cpc = Recheck\<rparr>"
  define c2 where "c2 = \<lparr>time_left = time_slot cf, proc = q, cpc = Exec\<rparr>"
  define s1 where "s1 = s\<lparr>kernel := K', cpus := (cpus s)[i := c1]\<rparr>"
  define s2 where "s2 = s1\<lparr>kernel := K', cpus := (cpus s1)[i := c2]\<rparr>"
  have "cpu_routine (time_slot cf) (all_loaded s) ?K (cpus s ! i) = Inr (K', c1)"
    using q by (simp add: c cpu_routine_def g K'_def c1_def)
  from os_step.cpu [OF i _ this] have 1: "os_step cf fs s (Cpu_Step i) s1" by (simp add: c s1_def)
  have n: "cpus s1 ! i = c1" "kernel s1 = K'" "i < length (cpus s1)" using i by (simp_all add: s1_def)
  have "cpu_routine (time_slot cf) (all_loaded s1) (kernel s1) (cpus s1 ! i) = Inr (K', c2)"
    using q by (simp add: n cpu_routine_def c1_def c2_def)
  from os_step.cpu [OF n(3) _ this] have 2: "os_step cf fs s1 (Cpu_Step i) s2" by (simp add: n(1) c1_def s2_def)
  have run: "os_run cf fs s [Cpu_Step i, Cpu_Step i] s2"
    using os_run.step [OF os_run.step [OF os_run.start 1] 2] by simp
  have e: "cpus s2 ! i = c2" "procs (kernel s2) = procs ?K" "i < length (cpus s2)"
    using n(3) by (simp_all add: s2_def K'_def)
  show ?thesis by (rule that [OF run e(3) _ _ _ e(2), of q]) (use q in \<open>simp_all add: e(1) c2_def\<close>)
qed

lemma cpu_executes:
  assumes inv: "os_inv cf s" and i: "i < length (cpus s)" and c: "cpc (cpus s ! i) = Exec"
    and x: "procs (kernel s) (proc (cpus s ! i)) = Some x" and ok: "event_ok (Cpu_Run i x)"
  obtains s' where "os_step cf fs s (Cpu_Run i x) s'"
proof -
  have "returns (cpu_routine (time_slot cf) (all_loaded s) (kernel s) (cpus s ! i)) (\<lambda>_. True)"
    by (rule cpu_no_fault [OF inv]) (use i x ok in simp_all)
  then obtain K c' where "cpu_routine (time_slot cf) (all_loaded s) (kernel s) (cpus s ! i) = Inr (K, c')" by (auto elim!: returnsE)
  from os_step.exec [OF i c x this] show ?thesis by (rule that)
qed

lemma sample_field: "pid (sample_pcb d pr l) = d" "pc (sample_pcb d pr l) = 0"
  by (simp_all add: sample_pcb_def)

lemma demo_ready:
  obtains s x where "os_run demo_cf demo_fs (boot demo_cf) [Loader_Step, Loader_Step] s" "cpus s = [cpu_start]"
    "procs (kernel s) = [1 \<mapsto> x]" "pid x = 1" "code x = [\<lparr>opcode = CALC, arg_0 = 0, arg_1 = 0, arg_2 = 0, arg_3 = 0\<rparr>]" "pc x = 0"
    "all_ready (sched (kernel s)) \<noteq> {#}"
proof -
  let ?b = "boot demo_cf" and ?j = "\<lambda>_. \<lparr>opcode = CALC, arg_0 = 0, arg_1 = 0, arg_2 = 0, arg_3 = 0\<rparr>"
  obtain s1 x where s1: "ld_routine demo_cf demo_fs 1 (sample_pcb 0 0 0) ?j ?b = Inr (Some s1)" "lpc (ld s1) = Ld_Wait"
      "next_process (ld s1) = 0" "bar s1 = bar ?b" "ld_proc (ld s1) = 1" "cpus s1 = cpus ?b"
      "procs (kernel s1) = [1 \<mapsto> x]" "pid x = 1" "code x = [?j 0]" "pc x = 0"
    by (simp add: ld_routine_def boot_def demo_cf_def loader_start_def demo_fs_def demo_load Let_def sample_field)
  have 1: "os_step demo_cf demo_fs ?b Loader_Step s1"
    by (rule os_step.load [OF _ _ _ _ s1(1)]) (simp_all add: boot_def loader_start_def sample_pcb_def)
  then have "os_inv demo_cf s1" using os_step_inv boot_inv [OF demo_sizes] by simp
  then have k: "kern_inv (kernel s1) (cpus_hold (cpus s1)) {# 1 #}" using s1(2,5) by (simp add: os_inv_def ld_holds_def)
  have x: "procs (kernel s1) 1 = Some x" using s1(7) by simp
  let ?y = "x\<lparr>krnl_mm := Some init_mm\<rparr>" and ?h = "(procs (kernel s1))(1 \<mapsto> x\<lparr>krnl_mm := Some init_mm\<rparr>)"
  obtain h sc where a: "add_proc ?h (sched (kernel s1)) 1 = Inr (h, sc)"
    using add_kern [OF k x] by (auto elim!: returnsE)
  have si: "sched_inv ?h (sched (kernel s1))"
    by (rule sched_inv_heap [OF kern_invD(1) [OF k]]) (use x in auto)
  have h: "h = ?h(1 \<mapsto> admit_block ?y)"
    and q: "all_ready sc = (if Queue_Full (pid ?y) \<in> set (add_mlq_err ?h (sched (kernel s1)) 1) then all_ready (sched (kernel s1))
        else add_mset 1 (all_ready (sched (kernel s1))))"
    using add_ready [OF si _ _ a, of ?y] by simp_all
  have r: "all_ready sc \<noteq> {#}"
  proof (cases "Queue_Full (pid ?y) \<in> set (add_mlq_err ?h (sched (kernel s1)) 1)")
    case True
    then have "level (sched (kernel s1)) (level_of ?h 1) \<noteq> []" using add_mlq_err_iff [OF si, of 1 ?y] by (auto simp: MAX_QUEUE_SIZE_def)
    then have "all_ready (sched (kernel s1)) \<noteq> {#}" using level_of_less unfolding all_ready_empty by blast
    then show ?thesis using q True by simp
  qed (use q in simp)
  obtain s2 where s2: "ld_routine demo_cf demo_fs 2 (sample_pcb 0 0 0) ?j s1 = Inr (Some s2)"
      "cpus s2 = cpus s1" "procs (kernel s2) = h" "sched (kernel s2) = sc"
    using x a s1(2-6) by (simp add: ld_routine_def demo_cf_def Let_def boot_def current_time_def)
  have 2: "os_step demo_cf demo_fs s1 Loader_Step s2"
    by (rule os_step.load [OF _ _ _ _ s2(1)]) (simp_all add: s1 sample_pcb_def)
  have run: "os_run demo_cf demo_fs ?b [Loader_Step, Loader_Step] s2" using os_run.step [OF os_run.step [OF os_run.start 1] 2] by simp
  have "cpus s2 = [cpu_start]" by (simp add: s2(2) s1(6) boot_def demo_cf_def)
  moreover have "procs (kernel s2) = [1 \<mapsto> admit_block ?y]" by (simp add: s2(3) h s1(7))
  ultimately show ?thesis
    by (rule that [OF run]) (simp_all add: s1(8-10) s2(4) r admit_block_def Let_def)
qed

text \<open>A run in which an instruction is executed.\<close>

lemma demo_exec:
  obtains x s2 s3 where "os_run demo_cf demo_fs (boot demo_cf) [Loader_Step, Loader_Step, Cpu_Step 0, Cpu_Step 0, Cpu_Step 0] s2"
    "0 < length (cpus s2)" "cpc (cpus s2 ! 0) = Exec"
    "os_run demo_cf demo_fs (boot demo_cf) [Loader_Step, Loader_Step, Cpu_Step 0, Cpu_Step 0, Cpu_Step 0, Cpu_Run 0 x] s3"
    "0 < length (cpus s3)" "pid x = 1" "code x = [\<lparr>opcode = CALC, arg_0 = 0, arg_1 = 0, arg_2 = 0, arg_3 = 0\<rparr>]" "pc x = 0"
    "event_ok (Cpu_Run 0 x)"
proof -
  obtain s x where s: "os_run demo_cf demo_fs (boot demo_cf) [Loader_Step, Loader_Step] s" "cpus s = [cpu_start]"
      "procs (kernel s) = [1 \<mapsto> x]" "pid x = 1" "code x = [\<lparr>opcode = CALC, arg_0 = 0, arg_1 = 0, arg_2 = 0, arg_3 = 0\<rparr>]" "pc x = 0"
      "all_ready (sched (kernel s)) \<noteq> {#}" by (rule demo_ready)
  define s1 where "s1 = s\<lparr>kernel := kernel s, cpus := (cpus s)[0 := cpu_start\<lparr>cpc := First_Get\<rparr>]\<rparr>"
  have "os_step demo_cf demo_fs s (Cpu_Step 0) s1" unfolding s1_def
    by (rule os_step.cpu) (simp_all add: s(2) cpu_start_def cpu_routine_def)
  from os_run.step [OF s(1) this]
  have r1: "os_run demo_cf demo_fs (boot demo_cf) [Loader_Step, Loader_Step, Cpu_Step 0] s1" by simp
  then have i1: "os_inv demo_cf s1" by (rule os_run_inv) (simp_all add: boot_inv [OF demo_sizes])
  obtain q s2 where s2: "os_run demo_cf demo_fs s1 [Cpu_Step 0, Cpu_Step 0] s2" "0 < length (cpus s2)" "cpc (cpus s2 ! 0) = Exec"
      "proc (cpus s2 ! 0) = q" "procs (kernel s1) q \<noteq> None" "procs (kernel s2) = procs (kernel s1)"
    by (rule cpu_takes [OF i1, of 0 demo_fs]) (simp_all add: s1_def s(2,7) cpu_start_def)
  have x: "procs (kernel s2) (proc (cpus s2 ! 0)) = Some x"
    using s2(4-6) by (simp add: s1_def s(3) split: if_splits)
  have ok: "event_ok (Cpu_Run 0 x)" by (simp add: s(5,6) inst_ok_def)
  have "os_inv demo_cf s2" using os_run_inv [OF s2(1) i1] by simp
  then obtain s3 where s3: "os_step demo_cf demo_fs s2 (Cpu_Run 0 x) s3" using cpu_executes [OF _ s2(2,3) x ok] by blast
  have run2: "os_run demo_cf demo_fs (boot demo_cf) [Loader_Step, Loader_Step, Cpu_Step 0, Cpu_Step 0, Cpu_Step 0] s2"
    using os_run_append [OF s2(1) r1] by simp
  from os_run.step [OF this s3] have run3: "os_run demo_cf demo_fs (boot demo_cf)
      [Loader_Step, Loader_Step, Cpu_Step 0, Cpu_Step 0, Cpu_Step 0, Cpu_Run 0 x] s3" by simp
  have "0 < length (cpus s3)" using os_step_cpus [OF s3] s2(2) by simp
  then show ?thesis using that [OF run2 s2(2,3) run3 _ s(4-6) ok] by simp
qed

theorem programs_executed_witness:
  "\<exists>x s t. os_run demo_cf demo_fs (boot demo_cf) [Loader_Step, Loader_Step, Cpu_Step 0, Cpu_Step 0, Cpu_Step 0, Cpu_Run 0 x] s
    \<and> program_of demo_cf demo_fs 1 t
    \<and> executed [Loader_Step, Loader_Step, Cpu_Step 0, Cpu_Step 0, Cpu_Step 0, Cpu_Run 0 x] 1 = take 1 t
    \<and> map opcode (take 1 t) = [CALC]"
proof -
  let ?es = "\<lambda>x. [Loader_Step, Loader_Step, Cpu_Step 0, Cpu_Step 0, Cpu_Step 0, Cpu_Run 0 x]"
  obtain x s3 where run: "os_run demo_cf demo_fs (boot demo_cf) (?es x) s3" and s: "pid x = 1"
      "code x = [\<lparr>opcode = CALC, arg_0 = 0, arg_1 = 0, arg_2 = 0, arg_3 = 0\<rparr>]" "pc x = 0" and ok: "event_ok (Cpu_Run 0 x)"
    by (rule demo_exec)
  let ?es = "[Loader_Step, Loader_Step, Cpu_Step 0, Cpu_Step 0, Cpu_Step 0, Cpu_Run 0 x]"
  have e: "executed ?es 1 = [\<lparr>opcode = CALC, arg_0 = 0, arg_1 = 0, arg_2 = 0, arg_3 = 0\<rparr>]"
    by (simp add: executed_def s)
  have cf: "0 < time_slot demo_cf" "num_processes demo_cf < 2 ^ 31" "\<forall>e \<in> set ?es. event_ok e"
    using ok by (simp_all add: demo_cf_def)
  note P = conjunct1 [OF programs_executed [OF demo_sizes cf(1,2) run cf(3)], rule_format, of 1]
    conjunct2 [OF programs_executed [OF demo_sizes cf(1,2) run cf(3)], rule_format, of 1]
  have "0 < unat (1 :: u32) \<and> unat (1 :: u32) < unat (avail_pid s3)" using P(2) e by auto
  from P(1) [OF this] obtain t where t: "program_of demo_cf demo_fs 1 t"
      "\<forall>p y. procs (kernel s3) p = Some y \<and> pid y = 1 \<longrightarrow> code y = t \<and> executed ?es 1 = take (unat (pc y)) t"
      "(\<forall>p. pids (kernel s3) p \<noteq> Some 1) \<longrightarrow> executed ?es 1 = t" by blast
  have "\<exists>n. executed ?es 1 = take n t"
  proof (cases "\<exists>p. pids (kernel s3) p = Some 1")
    case True
    then show ?thesis using t(2) by (auto simp: pids_def)
  next
    case False
    then have "executed ?es 1 = take (length t) t" using t(3) by simp
    then show ?thesis ..
  qed
  then obtain n where n: "executed ?es 1 = take n t" ..
  have "take 1 t = take 1 (take n t)" using n e by (cases n) simp_all
  also have "\<dots> = executed ?es 1" unfolding n [symmetric] by (simp add: e)
  finally have "executed ?es 1 = take 1 t" ..
  with e t(1) run show ?thesis by (intro exI [of _ x] exI [of _ s3] exI [of _ t]) simp
qed

end
