(* ===== verification/Os_Slots.thy ===== *)
theory Os_Slots
  imports Os_Program
begin

text \<open>
  Time in the simulator of \<^verbatim>\<open>src/os.c\<close>: what a processor does in a slot of the timer and in a time
  slice. A run is counted along: which slots the timer has ended, in which slots a processor has run its
  instructions, and how many it has run since it last looked for a process.
\<close>

section \<open>A run with its counts\<close>

definition is_run :: "nat \<Rightarrow> os_event \<Rightarrow> bool" where
  "is_run i e = (case e of Cpu_Run j x \<Rightarrow> j = i | _ \<Rightarrow> False)"

definition runs :: "os_event list \<Rightarrow> nat \<Rightarrow> nat" where
  "runs es i = length (filter (is_run i) es)"

lemma runs_simps [simp]: "runs [] i = 0" "runs (es @ [e]) i = runs es i + (if is_run i e then 1 else 0)"
  by (simp_all add: runs_def)

text \<open>
  The counts for processor \<open>i\<close>: the number of the slot, from 0; the slots of the instructions it has run,
  in their order; and the number of instructions since its last call of \<open>get_proc\<close>.
\<close>

record tally =
  slot :: nat
  stamps :: "nat list"
  used :: nat

definition tally_step :: "nat \<Rightarrow> os \<Rightarrow> os_event \<Rightarrow> tally \<Rightarrow> tally" where
  "tally_step i s e u =
     (if e = Bar Timer \<and> ticks (bar s) then u\<lparr>slot := slot u + 1\<rparr>
      else if is_run i e then u\<lparr>stamps := stamps u @ [slot u], used := used u + 1\<rparr>
      else if e = Cpu_Step i \<and> cpc (cpus s ! i) \<in> {First_Get, Next_Get} then u\<lparr>used := 0\<rparr>
      else u)"

inductive tallied :: "config \<Rightarrow> (string \<Rightarrow> string option) \<Rightarrow> nat \<Rightarrow> os_event list \<Rightarrow> tally \<Rightarrow> os \<Rightarrow> bool" for cf fs i where
  start: "tallied cf fs i [] \<lparr>slot = 0, stamps = [], used = 0\<rparr> (boot cf)"
| step: "tallied cf fs i es u s \<Longrightarrow> os_step cf fs s e s' \<Longrightarrow> tallied cf fs i (es @ [e]) (tally_step i s e u) s'"

lemma tallied_os: "tallied cf fs i es u s \<Longrightarrow> os_run cf fs (boot cf) es s"
  by (induction rule: tallied.induct) (auto intro: os_run.intros)

text \<open>Every run can be counted.\<close>

lemma os_run_tallied: "os_run cf fs (boot cf) es s \<Longrightarrow> \<exists>u. tallied cf fs i es u s"
  by (induction rule: os_run.induct) (auto intro: tallied.intros)

lemma resumed_cpu: "i < length (cpus s) \<Longrightarrow> cpus (resumed s j) ! i = (if j = i then (cpus s ! i)\<lparr>cpc := Top\<rparr> else cpus s ! i)"
  and stopped_cpu: "i < length (cpus s) \<Longrightarrow> cpus (stopped s j) ! i = (if j = i then (cpus s ! i)\<lparr>cpc := Stopped\<rparr> else cpus s ! i)"
  by (simp_all add: resumed_def stopped_def)

section \<open>Slices\<close>

text \<open>
  A processor that has run \<open>n\<close> instructions since it got its process: the slice is full when the process
  is dispatched, and each instruction takes one from it.
\<close>

definition slice_counts :: "int \<Rightarrow> cpu \<Rightarrow> nat \<Rightarrow> bool" where
  "slice_counts slots c n \<longleftrightarrow> proc c \<noteq> NULL \<longrightarrow> (case cpc c of
      Recheck \<Rightarrow> time_left c = (if time_left c = 0 then int n else slots - int n)
    | Next_Get \<Rightarrow> True
    | _ \<Rightarrow> time_left c = slots - int n)"

lemma slice_counts_step:
  assumes st: "cpu_routine slots dn K c = Inr (K', c')" and ok: "cpu_ok c" "slice_ok slots c" and n: "slice_counts slots c n"
  shows "slice_counts slots c' (if cpc c = Exec then n + 1 else if cpc c \<in> {First_Get, Next_Get} then 0 else n)"
proof (cases "cpc c = Top \<and> proc c \<noteq> NULL")
  case True
  then have c: "cpc c = Top" "proc c \<noteq> NULL" by simp_all
  from st c show ?thesis by (cases rule: cpu_top_cases) (use n c in \<open>simp_all add: slice_counts_def\<close>)
next
  case False
  have z: "time_left c = 0" if "cpc c \<in> {First_Get, Next_Get}"
    using ok that by (auto simp: cpu_ok_def slice_ok_def holds_def)
  have "slice_counts slots c' 0" if g: "cpc c = First_Get"
  proof -
    obtain p q where "get_proc (procs K) (sched K) = Inr (p, q)" "c' = c\<lparr>proc := p, cpc := (if p = NULL then Next_Slot else Recheck)\<rparr>"
      using st g by (force simp: cpu_routine_def rbind_Inr_iff)
    then show ?thesis using z g by (simp add: slice_counts_def)
  qed
  then show ?thesis using st False n z
    by (cases "cpc c") (auto simp: cpu_routine_def rbind_Inr_iff slice_counts_def split: if_splits)
qed

lemma tallied_slices:
  assumes "tallied cf fs i es u s" and "sizes_ok cf" and "\<forall>e \<in> set es. event_ok e" and "0 < time_slot cf" and "i < length (cpus s)"
  shows "slice_counts (time_slot cf) (cpus s ! i) (used u)"
  using assms
proof (induction rule: tallied.induct)
  case start
  then show ?case by (simp add: boot_def cpu_start_def slice_counts_def)
next
  case (step es u s e s')
  have i: "i < length (cpus s)" using step.prems(4) os_step_cpus [OF step.hyps(2)] by simp
  have n: "slice_counts (time_slot cf) (cpus s ! i) (used u)" using step i by simp
  have inv: "os_inv cf s"
    using os_run_inv [OF tallied_os [OF step.hyps(1)] boot_inv [OF step.prems(1)]] step.prems(2) by simp
  have ok: "cpu_ok (cpus s ! i)" "slice_ok (time_slot cf) (cpus s ! i)" using inv i step.prems(3) by (simp_all add: os_inv_def)
  show ?case using step.hyps(2)
  proof cases
    case (cpu j K c)
    then show ?thesis using slice_counts_step [OF _ ok n] n i
      by (cases "j = i") (auto simp: tally_step_def is_run_def)
  next
    case (exec j x K c)
    then show ?thesis using slice_counts_step [OF _ ok n] n i
      by (cases "j = i") (auto simp: tally_step_def is_run_def)
  next
    case (load fresh x0 j)
    then show ?thesis using n ld_routine_bar [OF load(6)] by (simp add: tally_step_def is_run_def)
  next
    case (wake j b)
    then show ?thesis using n i
      by (cases "j = i") (auto simp: tally_step_def is_run_def resumed_cpu at_slot_def slice_counts_def)
  next
    case (detach j b)
    then show ?thesis using n i
      by (cases "j = i") (auto simp: tally_step_def is_run_def stopped_cpu at_end_def slice_counts_def)
  qed (use n in \<open>simp_all add: tally_step_def is_run_def\<close>)
qed

section \<open>Slots\<close>

text \<open>
  A processor that is at work is not inside \<open>next_slot\<close>, and it has run no instruction in its slot unless
  it is already before \<open>next_slot\<close> or its end.
\<close>

definition slots_count :: "config \<Rightarrow> os \<Rightarrow> nat \<Rightarrow> os_event list \<Rightarrow> tally \<Rightarrow> bool" where
  "slots_count cf s i es u \<longleftrightarrow> barrier_run (num_devs cf) (bar s) (slot u) (wakes es)
     \<and> length (stamps u) = runs es i \<and> sorted_wrt (<) (stamps u) \<and> (\<forall>k \<in> set (stamps u). k \<le> wakes es i)
     \<and> (cpc (cpus s ! i) \<notin> {Next_Slot, Leave, Stopped} \<longrightarrow>
          dpc (bar s) i = Working \<and> (\<forall>k \<in> set (stamps u). k < wakes es i))"

lemma tallied_barrier:
  assumes st: "os_step cf fs s e s'" and run: "barrier_run (num_devs cf) (bar s) (slot u) (wakes es)"
  shows "barrier_run (num_devs cf) (bar s') (slot (tally_step i s e u)) (wakes (es @ [e]))"
proof (cases "\<exists>b. e = Bar b")
  case True
  then obtain b where b: "e = Bar b" by blast
  have "barrier_step (bar s) b (bar s')" using os_step_bar [OF st] by (simp add: b)
  from barrier_run.move [OF run this] show ?thesis
    by (auto simp: wakes_append b tally_step_def is_run_def split: barrier_event.splits)
next
  case False
  then have "bar s' = bar s" "wakes (es @ [e]) = wakes es" "slot (tally_step i s e u) = slot u"
    using os_step_bar [OF st] by (cases e; simp add: wakes_append tally_step_def)+
  then show ?thesis using run by simp
qed

lemma tallied_slots:
  assumes "tallied cf fs i es u s" and "i < length (cpus s)"
  shows "slots_count cf s i es u \<and> length (cpus s) = nat (num_cpus cf)"
  using assms
proof (induction rule: tallied.induct)
  case start
  have "wakes [] = (\<lambda>_. 0)" by (simp add: wakes_def fun_eq_iff)
  moreover have "barrier_run (num_devs cf) (bar (boot cf)) 0 (\<lambda>_. 0)"
    by (rule barrier_run.init) (simp_all add: boot_def num_devs_def)
  ultimately show ?case by (simp add: slots_count_def) (simp add: boot_def)
next
  case (step es u s e s')
  let ?u = "tally_step i s e u" and ?c = "cpus s ! i"
  have i: "i < length (cpus s)" using step.prems os_step_cpus [OF step.hyps(2)] by simp
  have IH: "slots_count cf s i es u" and len: "length (cpus s) = nat (num_cpus cf)" using step.IH [OF i] by simp_all
  note I = IH [unfolded slots_count_def]
  have bar: "barrier_run (num_devs cf) (bar s') (slot ?u) (wakes (es @ [e]))"
    by (rule tallied_barrier [OF step.hyps(2)]) (use I in blast)
  have "slots_count cf s' i (es @ [e]) ?u" using step.hyps(2)
  proof cases
    case (cpu j K c)
    have "cpc ?c \<notin> {Next_Slot, Leave, Stopped}" if "j = i" using cpu(4) that by auto
    then show ?thesis using I bar cpu i
      by (cases "j = i") (auto simp: slots_count_def tally_step_def is_run_def wakes_append)
  next
    case (exec j x K c)
    show ?thesis
    proof (cases "j = i")
      case True
      then have w: "dpc (bar s) i = Working" "\<forall>k \<in> set (stamps u). k < wakes es i" using I exec(4) by auto
      have "i < num_devs cf" using i len by (simp add: num_devs_def)
      then have "wakes es i = slot u" using slots_in_step [of "num_devs cf" "bar s" "slot u" "wakes es" i i] I w(1) by blast
      moreover have "cpc c = Next_Slot" using exec True by (auto simp: cpu_routine_def rbind_Inr_iff)
      ultimately show ?thesis using I bar exec True w i
        by (auto simp: slots_count_def tally_step_def is_run_def wakes_append sorted_wrt_append)
    next
      case False
      then show ?thesis using I bar exec by (simp add: slots_count_def tally_step_def is_run_def wakes_append)
    qed
  next
    case (load fresh x0 j)
    then show ?thesis using I bar ld_routine_bar [OF load(6)] by (simp add: slots_count_def tally_step_def is_run_def wakes_append)
  next
    case (slot j b)
    have "dpc b i = dpc (bar s) i" if "cpc ?c \<noteq> Next_Slot"
      using slot(4) that slot(3) i by (auto elim!: barrier_step.cases simp: at_slot_def)
    then show ?thesis using I bar slot by (auto simp: slots_count_def tally_step_def is_run_def wakes_append)
  next
    case (wake j b)
    have d: "dpc b = (dpc (bar s))(j := Working)" using wake(4) by (auto elim: barrier_step.cases)
    then show ?thesis using I bar wake i
      by (cases "j = i") (auto simp: slots_count_def tally_step_def is_run_def wakes_append resumed_cpu at_slot_def less_Suc_eq_le)
  next
    case (detach j b)
    have "dpc b = (dpc (bar s))(j := Gone)" using detach(4) by (auto elim: barrier_step.cases)
    then show ?thesis using I bar detach i
      by (cases "j = i") (auto simp: slots_count_def tally_step_def is_run_def wakes_append stopped_cpu at_end_def)
  next
    case (timer b)
    have "dpc b = dpc (bar s)" using timer(3) by (auto elim: barrier_step.cases)
    then show ?thesis using I bar timer by (auto simp: slots_count_def tally_step_def is_run_def wakes_append)
  next
    case (halt b)
    have "dpc b = dpc (bar s)" using halt(5) by (auto elim: barrier_step.cases)
    then show ?thesis using I bar halt by (auto simp: slots_count_def tally_step_def is_run_def wakes_append)
  qed
  then show ?case using len os_step_cpus [OF step.hyps(2)] by simp
qed

section \<open>Properties\<close>

text \<open>
  C20. The time slice. With a positive \<open>time_slot\<close>, in every interleaving in which the instructions that
  are run keep to the limits of \<open>inst_ok\<close>: the time left at a processor is between 0 and \<open>time_slot\<close>, and none is left over
  when it holds no process. Before an instruction it is \<open>time_slot\<close> less the number of instructions run
  since the processor got its process, so the process starts with a full slice. And at the head of the
  loop, the processor gives the process up exactly when it has ended or has run \<open>time_slot\<close> instructions.
\<close>

theorem slice_bound:
  assumes "sizes_ok cf" and "tallied cf fs i es u s" and "\<forall>e \<in> set es. event_ok e"
    and "0 < time_slot cf" and "i < length (cpus s)"
  defines "c \<equiv> cpus s ! i"
  shows "0 \<le> time_left c \<and> time_left c \<le> time_slot cf
    \<and> (proc c = NULL \<or> cpc c = Next_Get \<longrightarrow> time_left c = 0)
    \<and> (cpc c = Exec \<longrightarrow> time_left c = time_slot cf - int (used u) \<and> int (used u) < time_slot cf)
    \<and> (cpc c = Top \<and> proc c \<noteq> NULL \<longrightarrow> int (used u) \<le> time_slot cf \<and> (\<exists>x K c'. procs (kernel s) (proc c) = Some x
        \<and> cpu_routine (time_slot cf) (all_loaded s) (kernel s) c = Inr (K, c')
        \<and> (cpc c' = Next_Get \<longleftrightarrow> unat (pc x) = length (code x) \<or> int (used u) = time_slot cf)))"
proof -
  have inv: "os_inv cf s" using os_run_inv [OF tallied_os [OF assms(2)] boot_inv [OF assms(1)] assms(3)] .
  have c: "c \<in> set (cpus s)" using assms(5) by (simp add: c_def)
  have ok: "cpu_ok c" "slice_ok (time_slot cf) c" using inv c assms(4) by (simp_all add: os_inv_def)
  have n: "slice_counts (time_slot cf) c (used u)" using tallied_slices [OF assms(2,1,3,4,5)] by (simp add: c_def)
  have give: "\<exists>x K c'. procs (kernel s) (proc c) = Some x
        \<and> cpu_routine (time_slot cf) (all_loaded s) (kernel s) c = Inr (K, c')
        \<and> (cpc c' = Next_Get \<longleftrightarrow> unat (pc x) = length (code x) \<or> int (used u) = time_slot cf)"
    if t: "cpc c = Top" "proc c \<noteq> NULL"
  proof -
    have l: "time_left c = time_slot cf - int (used u)" using n t by (simp add: slice_counts_def)
    obtain K c' where r: "cpu_routine (time_slot cf) (all_loaded s) (kernel s) c = Inr (K, c')"
      using cpu_no_fault [OF inv c] t(1) by (auto elim!: returnsE)
    from r t show ?thesis
    proof (cases rule: cpu_top_cases)
      case (ended y h)
      then show ?thesis using r by (intro exI [of _ y] exI [of _ K] exI [of _ c']) simp
    next
      case (slice_over y h q)
      then show ?thesis using r l by (intro exI [of _ y] exI [of _ K] exI [of _ c']) simp
    next
      case (resume y)
      then show ?thesis using r l by (intro exI [of _ y] exI [of _ K] exI [of _ c']) simp
    qed
  qed
  show ?thesis using ok n give unfolding slice_ok_def cpu_ok_def holds_def slice_counts_def by (auto split: if_splits)
qed

theorem slice_bound_witness:
  "\<exists>s u. tallied demo_cf demo_fs 0 [Loader_Step, Loader_Step, Cpu_Step 0, Cpu_Step 0, Cpu_Step 0] u s
    \<and> cpc (cpus s ! 0) = Exec \<and> time_left (cpus s ! 0) = 2 - int (used u) \<and> used u < 2"
proof -
  obtain s where s: "os_run demo_cf demo_fs (boot demo_cf) [Loader_Step, Loader_Step, Cpu_Step 0, Cpu_Step 0, Cpu_Step 0] s"
      "0 < length (cpus s)" "cpc (cpus s ! 0) = Exec" by (rule demo_exec)
  obtain u where u: "tallied demo_cf demo_fs 0 [Loader_Step, Loader_Step, Cpu_Step 0, Cpu_Step 0, Cpu_Step 0] u s"
    using os_run_tallied [OF s(1)] by blast
  have t: "time_slot demo_cf = 2" by (simp add: demo_cf_def)
  show ?thesis using slice_bound [OF demo_sizes u _ _ s(2)] s(3) u unfolding t by auto
qed

text \<open>
  C22. Time. However the threads interleave, a processor runs at most one instruction in a time slot: the
  clock shows the number of slots that the timer has ended, and the slots in which the processor has run its
  instructions are strictly increasing. So it has run at most one more than the clock has counted.
\<close>

theorem one_instruction_per_slot:
  assumes "tallied cf fs i es u s" and "i < length (cpus s)"
  shows "current_time (tm (bar s)) = word_of_nat (slot u) \<and> sorted_wrt (<) (stamps u) \<and> length (stamps u) = runs es i
    \<and> (\<forall>k \<in> set (stamps u). k \<le> slot u) \<and> runs es i \<le> slot u + 1"
proof -
  have I: "slots_count cf s i es u" using tallied_slots [OF assms] by simp
  then have run: "barrier_run (num_devs cf) (bar s) (slot u) (wakes es)" by (simp add: slots_count_def)
  have k: "k \<le> slot u" if "k \<in> set (stamps u)" for k
    using I that barrier_run_le [OF run, of i] unfolding slots_count_def by (meson le_trans)
  have s: "sorted_wrt (<) (stamps u)" using I by (simp add: slots_count_def)
  then have "distinct (stamps u)" by (simp add: strict_sorted_iff)
  then have "length (stamps u) = card (set (stamps u))" by (simp add: distinct_card)
  also have "\<dots> \<le> card {..slot u}" using k by (intro card_mono) auto
  finally have "length (stamps u) \<le> slot u + 1" by simp
  then show ?thesis using I k barrier_invD(2) [OF barrier_run_inv [OF run]] by (simp add: slots_count_def current_time_def)
qed

theorem one_instruction_per_slot_witness:
  "\<exists>x s u. tallied demo_cf demo_fs 0 [Loader_Step, Loader_Step, Cpu_Step 0, Cpu_Step 0, Cpu_Step 0, Cpu_Run 0 x] u s
    \<and> length (stamps u) = 1 \<and> current_time (tm (bar s)) = word_of_nat (slot u)"
proof -
  obtain x s where s: "os_run demo_cf demo_fs (boot demo_cf)
      [Loader_Step, Loader_Step, Cpu_Step 0, Cpu_Step 0, Cpu_Step 0, Cpu_Run 0 x] s" "0 < length (cpus s)" by (rule demo_exec)
  obtain u where u: "tallied demo_cf demo_fs 0 [Loader_Step, Loader_Step, Cpu_Step 0, Cpu_Step 0, Cpu_Step 0, Cpu_Run 0 x] u s"
    using os_run_tallied [OF s(1)] by blast
  have "runs [Loader_Step, Loader_Step, Cpu_Step 0, Cpu_Step 0, Cpu_Step 0, Cpu_Run 0 x] 0 = 1"
    by (simp add: runs_def is_run_def)
  then show ?thesis using one_instruction_per_slot [OF u s(2)] u by auto
qed

end
