(* ===== verification/Config_Fixed.thy ===== *)
theory Config_Fixed
  imports Os
begin

text \<open>
  \<^verbatim>\<open>src/os.c\<close> with \<open>MM_FIXED_MEMSZ\<close>, which \<^verbatim>\<open>include/os-cfg.h\<close> leaves undefined: \<open>read_config\<close> for
  configuration files without a line of memory sizes. The scheduler tests under \<^verbatim>\<open>input/\<close> have this
  format, and \<^verbatim>\<open>README.md\<close> asks for this build to run them; their processes only compute.
\<close>

definition read_config_fixed :: "string option \<Rightarrow> config option res" where
  "read_config_fixed file = (case file of None \<Rightarrow> Inr None
    | Some s \<Rightarrow>
        rbind (scan_line to_int 3 s) (\<lambda>(ns, s).
        rbind (scan_procs (nat (converted 0 ns 2)) s) (\<lambda>ps.
          Inr (Some \<lparr>time_slot = converted 0 ns 0, num_cpus = converted 0 ns 1,
            num_processes = converted 0 ns 2, memramsz = 0x100000000,
            memswpsz = 0x1000000 # replicate (PAGING_MAX_MMSWP - 1) 0, ld_processes = ps\<rparr>))))"

definition legacy_text :: "nat \<Rightarrow> nat \<Rightarrow> nat \<Rightarrow> (addr \<times> string \<times> addr) list \<Rightarrow> string" where
  "legacy_text ts nc np ps = dec ts @ '' '' @ dec nc @ '' '' @ dec np @ ''\<newline>'' @ concat (map proc_line ps)"

text \<open>The size of the RAM does not fit the \<open>int\<close> that holds it.\<close>

lemma fixed_ram: "MEMPHY_get_freefp (init_memphy uninit_memphy 0x100000000 True) = Inl Uninit_Read"
proof -
  have "sint (ucast (0x100000000 :: addr) :: u32) = 0" by simp
  then show ?thesis
    unfolding init_memphy_def MEMPHY_format_def Let_def by (simp add: MEMPHY_get_freefp_def uninit_memphy_def)
qed

lemma legacy_nums:
  assumes "ts < 2 ^ 31" and "nc < 2 ^ 31" and "np < 2 ^ 31"
  shows "scan_line to_int 3 (legacy_text ts nc np ps) = Inr ([int ts, int nc, int np], skip_space (concat (map proc_line ps)))"
proof -
  let ?l = "concat (map proc_line ps)"
  have i: "to_int (int n) = Inr (int n)" if "n < 2 ^ 31" for n using that by (simp add: to_int_def)
  have 1: "scan_num (legacy_text ts nc np ps) = (Some (int ts), '' '' @ dec nc @ '' '' @ dec np @ ''\<newline>'' @ ?l)"
    unfolding legacy_text_def by (rule scan_num_dec) simp
  have 2: "scan_num ('' '' @ dec nc @ '' '' @ dec np @ ''\<newline>'' @ ?l) = (Some (int nc), '' '' @ dec np @ ''\<newline>'' @ ?l)"
    using scan_num_dec [of "'' '' @ dec np @ ''\<newline>'' @ ?l" nc] by (simp add: scan_num_space)
  have 3: "scan_num ('' '' @ dec np @ ''\<newline>'' @ ?l) = (Some (int np), ''\<newline>'' @ ?l)"
    using scan_num_dec [of "''\<newline>'' @ ?l" np] by (simp add: scan_num_space)
  show ?thesis using 1 2 3 i assms by (simp add: scan_line_def numeral_3_eq_3 del: append.simps) simp
qed

text \<open>Where a number is expected and a name stands, nothing is converted and nothing is read.\<close>

lemma scan_num_name:
  assumes "name_ok name" and "\<not> is_digit (hd name)" "hd name \<noteq> CHR ''-''" "hd name \<noteq> CHR ''+''"
  shows "scan_num (name @ s) = (None, name @ s)" "skip_space (name @ s) = name @ s"
proof -
  obtain c t where c: "name = c # t" "\<not> is_space c" using assms(1) by (cases name) (auto simp: name_ok_def)
  then show "skip_space (name @ s) = name @ s" by (simp add: skip_space_def)
  then show "scan_num (name @ s) = (None, name @ s)"
    using c assms(2-4) by (simp add: scan_num_def scan_sign_def)
qed

lemma scan_swaps_name:
  assumes "scan_num s = (None, s)"
  shows "scan_swaps n s = Inr (replicate n 0, s)"
  using assms by (induction n) (simp_all add: converted_def)

section \<open>The first allocation\<close>

text \<open>Where no frame can be asked for, the first allocation of a process follows the unwritten pointer.\<close>

lemma first_alloc_faults:
  assumes k: "mm k = Some init_mm" and no: "MEMPHY_get_freefp (mram k) = Inl f"
    and sz: "sz \<noteq> 0" and rm: "room init_vma sz" and i: "i < 30"
  shows "liballoc k sz (word_of_nat i) = Inl f"
proof -
  have ok: "area_ok init_mm init_vma" using vm_inv_new by (simp add: vm_inv_def)
  note o = area_okD(1-5,9,10) [OF ok] and al = aligned_room [OF ok rm] and g = grow_pages [OF ok rm sz]
  note a = alloc_size [OF rm sz]
  let ?al = "PAGING64_PAGE_ALIGNSZ sz" and ?n = "(unat sz + 4095) div 4096"
  have "alloc_pages_range k (int ?n) [] = Inl f"
    using g(2) by (subst alloc_pages_range_def, subst alloc_loop.simps) (simp add: no)
  then have map: "vm_map_ram k x y z (int ?n) r = Inl f" for x y z r by (simp add: vm_map_ram_def)
  have "get_vm_area_node_at_brk k 0 sz ?al
      = Inr (Some \<lparr>rg_vmaid = Some 0, rg_start = vm_end init_vma, rg_end = vm_end init_vma + ?al\<rparr>)"
    using o k al(3,5) by (simp add: get_vm_area_node_at_brk_def the_mm_def get_vma_0 word_less_nat_alt)
  moreover have "validate_overlap_vm_area k 0 (vm_end init_vma) (vm_end init_vma + ?al) = Inr 0"
    using o k al(1) g(2) by (simp add: validate_overlap_vm_area_def the_mm_def get_vma_0 word_le_nat_alt)
  ultimately have inc: "inc_vma_limit k 0 sz = Inl f"
    using sz o k by (simp add: inc_vma_limit_def the_mm_def get_vma_0 g(1) map Let_def)
  have z: "\<not> rg_start r + sz \<le> rg_end r" if "r \<in> set (vm_freerg_list init_vma)" for r
    using that sz by (auto simp: init_vma_def init_mm_def enlist_vm_rg_node_def init_vm_rg_def)
  have "fit_loop rs sz r0 = (r0, rs)" if "set rs \<subseteq> set (vm_freerg_list init_vma)" for rs r0
    using that z by (induction rs) simp_all
  then have fit: "fit_loop (vm_freerg_list init_vma) sz r0 = (r0, vm_freerg_list init_vma)" for r0 by blast
  have "init_mm\<lparr>mmap := [init_vma]\<rparr> = init_mm" using o(1) by (simp flip: o(1))
  then have up: "update_vma k 0 (\<lambda>v. v\<lparr>vm_freerg_list := vm_freerg_list init_vma\<rparr>) = Inr k"
    using update_vma_0 [OF k o(1)] k by simp
  have "get_free_vmrg_area k 0 (int (unat sz)) = Inr (None, k)"
    using o k a(2) by (simp add: get_free_vmrg_area_def the_mm_def get_vma_0 fit up)
  then have "alloc_region k 0 (int i) sz = Inl f"
    using sz i o k inc by (simp add: alloc_region_def the_mm_def get_vma_0 a(1) PAGING_MAX_SYMTBL_SZ_def Let_def del: of_nat_unat)
  then show ?thesis using rgid_sint [OF i] by (simp add: liballoc_def)
qed

section \<open>Properties\<close>

text \<open>
  C40. Configuration files without a line of memory sizes. With \<open>MM_FIXED_MEMSZ\<close> the file is read back
  exactly, but the fixed size of the RAM does not fit the \<open>int\<close> that holds it: the RAM has no frames, and
  the first allocation of a process follows a pointer that was never written. (Processes that only compute, as
  those of the scheduler tests, ask for no frame.) The default build, on such a file whose first
  process has a name that cannot be taken for a number, reads the times and priorities from unwritten memory.
\<close>

theorem legacy_files_memory:
  assumes "ts < 2 ^ 31" and "nc < 2 ^ 31" and "np < 2 ^ 31" and "\<forall>(st, name, pr) \<in> set ps. name_ok name"
    and "0 < np" and "np \<le> length ps"
  shows "(\<exists>cf. read_config_fixed (Some (legacy_text ts nc np ps)) = Inr (Some cf)
      \<and> time_slot cf = int ts \<and> num_cpus cf = int nc \<and> num_processes cf = int np
      \<and> ld_processes cf = map (\<lambda>(st, name, pr). \<lparr>path = ''input/proc/'' @ name, start_time = Some st, ld_prio = Some pr\<rparr>) (take np ps)
      \<and> (\<forall>k sz i. mm k = Some init_mm \<longrightarrow> mram k = kram (kernel (boot cf)) \<longrightarrow> sz \<noteq> 0 \<longrightarrow> room init_vma sz \<longrightarrow> i < 30 \<longrightarrow>
            liballoc k sz (word_of_nat i) = Inl Uninit_Read))
    \<and> ((case ps ! 0 of (st, name, pr) \<Rightarrow> \<not> is_digit (hd name) \<and> hd name \<noteq> CHR ''-'' \<and> hd name \<noteq> CHR ''+'') \<longrightarrow>
      read_config (Some (legacy_text ts nc np ps)) = Inl Uninit_Read)"
proof (intro conjI impI)
  let ?l = "concat (map proc_line ps)"
  note nums = legacy_nums [OF assms(1-3), of ps]
  have np: "nat (converted 0 [int ts, int nc, int np] 2) = np" by (simp add: converted_def)
  have "scan_procs np (skip_space ?l) = Inr (map the_args (take np ps))"
    using scan_procs_lines [OF assms(4), of np] assms(6) by (simp add: scan_procs_skip)
  then have "read_config_fixed (Some (legacy_text ts nc np ps)) = Inr (Some \<lparr>time_slot = int ts, num_cpus = int nc,
      num_processes = int np, memramsz = 0x100000000, memswpsz = 0x1000000 # replicate (PAGING_MAX_MMSWP - 1) 0,
      ld_processes = map the_args (take np ps)\<rparr>)"
    unfolding read_config_fixed_def option.case nums rbind_simps prod.case np by (simp add: converted_def)
  then show "\<exists>cf. read_config_fixed (Some (legacy_text ts nc np ps)) = Inr (Some cf)
      \<and> time_slot cf = int ts \<and> num_cpus cf = int nc \<and> num_processes cf = int np
      \<and> ld_processes cf = map (\<lambda>(st, name, pr). \<lparr>path = ''input/proc/'' @ name, start_time = Some st, ld_prio = Some pr\<rparr>) (take np ps)
      \<and> (\<forall>k sz i. mm k = Some init_mm \<longrightarrow> mram k = kram (kernel (boot cf)) \<longrightarrow> sz \<noteq> 0 \<longrightarrow> room init_vma sz \<longrightarrow> i < 30 \<longrightarrow>
            liballoc k sz (word_of_nat i) = Inl Uninit_Read)"
    using fixed_ram first_alloc_faults by (simp add: boot_def the_args_def)
  assume first: "case ps ! 0 of (st, name, pr) \<Rightarrow> \<not> is_digit (hd name) \<and> hd name \<noteq> CHR ''-'' \<and> hd name \<noteq> CHR ''+''"
  obtain st name pr qs where ps: "ps = (st, name, pr) # qs" using assms(5,6) by (cases ps) auto
  have n: "name_ok name" "\<not> is_digit (hd name)" "hd name \<noteq> CHR ''-''" "hd name \<noteq> CHR ''+''"
    using assms(4) first ps by auto
  let ?r = "name @ '' '' @ dec (unat pr) @ ''\<newline>'' @ concat (map proc_line qs)"
  note r = scan_num_name [OF n, of "'' '' @ dec (unat pr) @ ''\<newline>'' @ concat (map proc_line qs)"]
  have l: "?l = dec (unat st) @ '' '' @ ?r" by (simp add: ps)
  have ram: "scan_line to_unsigned 1 (skip_space ?l) = Inr ([st], ?r)"
    using scan_num_dec [of "'' '' @ ?r" "unat st"] skip_space_dec [of "unat st" "'' '' @ ?r"] r(2)
    unfolding l by (simp add: scan_line_def to_unsigned_unat del: of_nat_unat)
  have swps: "scan_swaps PAGING_MAX_MMSWP ?r = Inr (replicate PAGING_MAX_MMSWP 0, ?r)" by (rule scan_swaps_name [OF r(1)])
  obtain m where m: "np = Suc m" using assms(5) by (cases np) auto
  have "scan_procs np (skip_space ?r) = Inl Uninit_Read" unfolding r(2) m by (simp add: scan_proc_def r(1) [simplified])
  then show "read_config (Some (legacy_text ts nc np ps)) = Inl Uninit_Read"
    unfolding read_config_def option.case nums rbind_simps prod.case ram swps np by simp
qed

theorem legacy_files_memory_witness:
  "read_config (Some ''2 1 1\<newline>0 v1 0\<newline>'') = Inl Uninit_Read
   \<and> (\<exists>cf. read_config_fixed (Some ''2 1 1\<newline>0 v1 0\<newline>'') = Inr (Some cf) \<and> time_slot cf = 2
      \<and> liballoc \<lparr>mm = Some init_mm, mram = kram (kernel (boot cf)), active_mswp = kswp (kernel (boot cf))\<rparr> 300 0 = Inl Uninit_Read)"
proof -
  have t: "legacy_text 2 1 1 [(0, ''v1'', 0)] = ''2 1 1\<newline>0 v1 0\<newline>''"
    by (simp add: legacy_text_def dec.simps char_of_def bit_0)
  have "name_ok ''v1''" and d: "\<not> is_digit (hd ''v1'')" by (simp_all add: name_ok_def is_space_def is_digit_def)
  then have "\<forall>(st, name, pr) \<in> set [(0, ''v1'', 0)]. name_ok name" by simp
  then have r: "(\<exists>cf. read_config_fixed (Some ''2 1 1\<newline>0 v1 0\<newline>'') = Inr (Some cf) \<and> time_slot cf = 2
      \<and> (\<forall>k sz i. mm k = Some init_mm \<longrightarrow> mram k = kram (kernel (boot cf)) \<longrightarrow> sz \<noteq> 0 \<longrightarrow> room init_vma sz \<longrightarrow> i < 30 \<longrightarrow>
            liballoc k sz (word_of_nat i) = Inl Uninit_Read))"
      "read_config (Some ''2 1 1\<newline>0 v1 0\<newline>'') = Inl Uninit_Read"
    using legacy_files_memory [of 2 1 1 "[(0, ''v1'', 0)]"] d unfolding t by auto
  have "room init_vma 300" by (simp add: room_def init_vma_def init_mm_def)
  then have "liballoc k 300 (word_of_nat 0) = Inl Uninit_Read"
    if "\<forall>k sz i. mm k = Some init_mm \<longrightarrow> mram k = K \<longrightarrow> sz \<noteq> 0 \<longrightarrow> room init_vma sz \<longrightarrow> i < 30 \<longrightarrow>
            liballoc k sz (word_of_nat i) = Inl Uninit_Read" "mm k = Some init_mm" "mram k = K" for k K
    using that(1) [rule_format, OF that(2,3), of 300 0] by simp
  note l = this
  obtain cf where cf: "read_config_fixed (Some ''2 1 1\<newline>0 v1 0\<newline>'') = Inr (Some cf)" "time_slot cf = 2"
      "\<forall>k sz i. mm k = Some init_mm \<longrightarrow> mram k = kram (kernel (boot cf)) \<longrightarrow> sz \<noteq> 0 \<longrightarrow> room init_vma sz \<longrightarrow> i < 30 \<longrightarrow>
            liballoc k sz (word_of_nat i) = Inl Uninit_Read"
    using r(1) by blast
  have "read_config (Some ''2 1 1\<newline>0 v1 0\<newline>'') = Inl Uninit_Read" by (rule r(2))
  then show ?thesis using cf l [OF cf(3)] by simp
qed

end
