(* ===== verification/Large_Ram.thy ===== *)
theory Large_Ram
  imports Os_Props
begin

text \<open>
  A RAM larger than a page table entry can address. Two of the configurations under \<^verbatim>\<open>input/\<close> have a RAM of
  \<open>2 ^ 28\<close> bytes, while the frame field of an entry has 13 bits, enough for 8192 frames. Frames are
  handed out in order and never given back, so as long as the first 8192 last, the simulator does
  what it does with a RAM of \<open>2 ^ 21\<close> bytes, and everything that is shown of that one holds of it. The
  theory shows this for one operation after the other, and bounds the frames that an instruction takes.
\<close>

section \<open>Devices\<close>

text \<open>What a larger device has more: bytes, free frames after the others, and its size.\<close>

type_synonym extra = "byte list \<times> addr list \<times> int"

definition ext :: "extra \<Rightarrow> memphy_struct \<Rightarrow> memphy_struct" where
  "ext x d = d\<lparr>storage := storage d @ fst x, maxsz := snd (snd x), free_fp_list := free_fp_list d @ fst (snd x)\<rparr>"

text \<open>A RAM of 8192 frames.\<close>

definition ram_ok :: "memphy_struct \<Rightarrow> bool" where
  "ram_ok d \<longleftrightarrow> rdmflg d \<and> fp_term d \<and> length (storage d) = 2097152 \<and> (\<forall>f \<in> set (free_fp_list d). unat f < 8192)"

definition left :: "memphy_struct \<Rightarrow> nat" where
  "left d = length (free_fp_list d)"

text \<open>The result of a run, with what it leaves extended.\<close>

abbreviation grow :: "('a \<Rightarrow> 'b) \<Rightarrow> 'a res \<Rightarrow> 'b res" where
  "grow f m \<equiv> rbind m (\<lambda>r. Inr (f r))"

lemma rbind_grow: "rbind (grow f m) h = rbind m (\<lambda>r. h (f r))"
  by (cases m) simp_all

lemma get_freefp_ext:
  assumes "ram_ok d" and "0 < left d"
  obtains f d' where "MEMPHY_get_freefp d = Inr (Some f, d')" "MEMPHY_get_freefp (ext x d) = Inr (Some f, ext x d')"
    "ram_ok d'" "left d = left d' + 1" "unat f < 8192"
proof -
  obtain f fs where f: "free_fp_list d = f # fs" using assms(2) by (cases "free_fp_list d") (auto simp: left_def)
  show ?thesis
    by (rule that [of f "d\<lparr>free_fp_list := fs\<rparr>"])
      (use f assms(1) in \<open>simp_all add: MEMPHY_get_freefp_def ext_def ram_ok_def left_def\<close>)
qed

lemma access_ext:
  assumes "ram_ok d" and "unat a < 2097152"
  shows "MEMPHY_read d a = Inr (Some (storage d ! unat a), d)"
    "MEMPHY_read (ext x d) a = Inr (Some (storage d ! unat a), ext x d)"
    "MEMPHY_write d a b = Inr (0, d\<lparr>storage := (storage d)[unat a := b]\<rparr>)"
    "MEMPHY_write (ext x d) a b = Inr (0, ext x (d\<lparr>storage := (storage d)[unat a := b]\<rparr>))"
  using assms by (simp_all add: MEMPHY_read_def MEMPHY_write_def ram_ok_def ext_def nth_append list_update_append)

lemma ram_ok_write [simp]:
  "ram_ok (d\<lparr>storage := (storage d)[i := b]\<rparr>) = ram_ok d" "left (d\<lparr>storage := st\<rparr>) = left d"
  by (simp_all add: ram_ok_def left_def)

lemma copy_to_ext:
  assumes "ram_ok d" and "unat df < 8192"
  shows "copy_cells MEMPHY_read MEMPHY_write s sf (ext x d) df i =
      grow (\<lambda>(s, d). (s, ext x d)) (copy_cells MEMPHY_read MEMPHY_write s sf d df i)
    \<and> (\<forall>s' d'. copy_cells MEMPHY_read MEMPHY_write s sf d df i = Inr (s', d') \<longrightarrow> ram_ok d' \<and> left d' = left d)"
  using assms
proof (induction "PAGING_PAGESZ - i" arbitrary: s d i)
  case 0
  then have "\<not> i < PAGING_PAGESZ" by simp
  then show ?case using 0 by (simp add: copy_cells.simps [of _ _ _ _ _ _ i])
next
  case (Suc c)
  then have i: "i < PAGING_PAGESZ" "c = PAGING_PAGESZ - (i + 1)" by simp_all
  let ?b = "df * word_of_nat PAGING_PAGESZ + word_of_nat i :: addr"
  have "unat ?b = 256 * unat df + i" using frame_address [of i df] i(1) Suc.prems(2) by (simp add: PAGING_PAGESZ_def)
  then have b: "unat ?b < 2097152" using i(1) Suc.prems(2) by (simp add: PAGING_PAGESZ_def)
  show ?case
  proof (cases "MEMPHY_read s (sf * word_of_nat PAGING_PAGESZ + word_of_nat i)")
    case (Inl e)
    then show ?thesis using i(1) by (simp add: copy_cells.simps [of _ _ _ _ _ _ i])
  next
    case (Inr r)
    obtain data s1 where r: "r = (data, s1)" by (cases r)
    show ?thesis
    proof (cases data)
      case None
      then show ?thesis using i(1) Inr r by (simp add: copy_cells.simps [of _ _ _ _ _ _ i])
    next
      case (Some v)
      let ?d = "d\<lparr>storage := (storage d)[unat ?b := v]\<rparr>"
      have ok: "ram_ok ?d" using Suc.prems(1) by simp
      note IH = Suc.hyps(1) [OF i(2) ok Suc.prems(2), of s1]
      have "copy_cells MEMPHY_read MEMPHY_write s sf d df i = copy_cells MEMPHY_read MEMPHY_write s1 sf ?d df (i + 1)"
        using i(1) Inr r Some access_ext(3) [OF Suc.prems(1) b] by (simp add: copy_cells.simps [of _ _ _ _ _ _ i])
      moreover have "copy_cells MEMPHY_read MEMPHY_write s sf (ext x d) df i = copy_cells MEMPHY_read MEMPHY_write s1 sf (ext x ?d) df (i + 1)"
        using i(1) Inr r Some access_ext(4) [OF Suc.prems(1) b] by (simp add: copy_cells.simps [of _ _ _ _ _ _ i])
      ultimately show ?thesis using IH by simp
    qed
  qed
qed

section \<open>The memory of a process\<close>

definition kext :: "extra \<Rightarrow> krnl_t \<Rightarrow> krnl_t" where
  "kext x k = k\<lparr>mram := ext x (mram k)\<rparr>"

lemma kext_sel [simp]: "mm (kext x k) = mm k" "active_mswp (kext x k) = active_mswp k" "mram (kext x k) = ext x (mram k)"
    "(kext x k)\<lparr>mm := u\<rparr> = kext x (k\<lparr>mm := u\<rparr>)" "(kext x k)\<lparr>mram := ext x d\<rparr> = kext x (k\<lparr>mram := d\<rparr>)"
    "(kext x k)\<lparr>active_mswp := e\<rparr> = kext x (k\<lparr>active_mswp := e\<rparr>)"
    "(kext x k)\<lparr>active_mswp := e, mram := ext x d\<rparr> = kext x (k\<lparr>active_mswp := e, mram := d\<rparr>)"
  by (simp_all add: kext_def)

lemma the_mm_kext [simp]: "the_mm (kext x k) = the_mm k"
  by (simp add: the_mm_def)

lemma pte_get_entry_kext [simp]: "pte_get_entry (kext x k) p = pte_get_entry k p"
  by (simp add: pte_get_entry_def)

text \<open>
  The call \<open>f\<close> on the state \<open>k\<close> does the same with a larger RAM, and takes at most \<open>n\<close> frames.
\<close>

definition lifts :: "extra \<Rightarrow> nat \<Rightarrow> (krnl_t \<Rightarrow> ('a \<times> krnl_t) res) \<Rightarrow> krnl_t \<Rightarrow> bool" where
  "lifts x n f k \<longleftrightarrow> f (kext x k) = grow (\<lambda>(r, k). (r, kext x k)) (f k)
     \<and> (\<forall>r k'. f k = Inr (r, k') \<longrightarrow> ram_ok (mram k') \<and> left (mram k) \<le> left (mram k') + n)"

lemma liftsD:
  assumes "lifts x n f k"
  shows "f (kext x k) = grow (\<lambda>(r, k). (r, kext x k)) (f k)"
    "f k = Inr (r, k') \<Longrightarrow> ram_ok (mram k')" "f k = Inr (r, k') \<Longrightarrow> left (mram k) \<le> left (mram k') + n"
  using assms unfolding lifts_def by blast+

lemma lifts_mono: "lifts x n f k \<Longrightarrow> n \<le> m \<Longrightarrow> lifts x m f k"
  unfolding lifts_def by fastforce

lemma lifts_bind:
  assumes f: "lifts x n f k" and h: "\<And>r k'. f k = Inr (r, k') \<Longrightarrow> lifts x m (h r) k'"
  shows "lifts x (n + m) (\<lambda>k. rbind (f k) (\<lambda>(r, k). h r k)) k"
proof (cases "f k")
  case (Inl e)
  then show ?thesis using liftsD(1) [OF f] by (simp add: lifts_def)
next
  case (Inr rk)
  obtain r k' where r: "f k = Inr (r, k')" using Inr by (cases rk) simp
  note 1 = liftsD [OF f] and 2 = liftsD [OF h [OF r]]
  show ?thesis unfolding lifts_def
  proof (intro conjI allI impI)
    show "rbind (f (kext x k)) (\<lambda>(r, k). h r k) = grow (\<lambda>(r, k). (r, kext x k)) (rbind (f k) (\<lambda>(r, k). h r k))"
      using 1(1) 2(1) r by simp
    fix q k2 assume "rbind (f k) (\<lambda>(r, k). h r k) = Inr (q, k2)"
    then have "h r k' = Inr (q, k2)" using r by simp
    from 2(2,3) [OF this] 1(3) [OF r] show "ram_ok (mram k2)" "left (mram k) \<le> left (mram k2) + (n + m)" by simp_all
  qed
qed

lemma lifts_return [simp]: "lifts x n (\<lambda>k. Inr (r, k)) k \<longleftrightarrow> ram_ok (mram k)"
  by (auto simp: lifts_def)

lemma lifts_fault [simp]: "lifts x n (\<lambda>k. Inl e) k"
  by (simp add: lifts_def)

lemma lifts_read:
  assumes "g (kext x k) = g k" and "\<And>v. g k = Inr v \<Longrightarrow> lifts x n (h v) k"
  shows "lifts x n (\<lambda>k. rbind (g k) (\<lambda>v. h v k)) k"
proof (cases "g k")
  case (Inr v)
  then show ?thesis using assms(1) assms(2) [OF Inr] by (simp add: lifts_def)
qed (use assms(1) in \<open>simp add: lifts_def\<close>)

lemma lifts_if [simp]: "lifts x n (\<lambda>k. if b then f k else g k) k \<longleftrightarrow> (if b then lifts x n f k else lifts x n g k)"
  by simp

lemma lifts_option [simp]:
  "lifts x n (\<lambda>k. case a of None \<Rightarrow> f k | Some v \<Rightarrow> g v k) k \<longleftrightarrow> (case a of None \<Rightarrow> lifts x n f k | Some v \<Rightarrow> lifts x n (g v) k)"
  by (cases a) simp_all

text \<open>A run on the same state with the same outcome.\<close>

lemma lifts_cong:
  assumes "lifts x n g k" and "f k = g k" and "f (kext x k) = g (kext x k)"
  shows "lifts x n f k"
  using assms by (simp add: lifts_def)

section \<open>Page requests\<close>

lemma pte_modify_kext: "pte_modify (kext x k) p f = grow (kext x) (pte_modify k p f)"
  by (simp add: pte_modify_def rbind_assoc)

lemma pte_modify_mram: "pte_modify k p f = Inr k' \<Longrightarrow> mram k' = mram k"
  by (auto simp: pte_modify_def rbind_Inr_iff)

lemma lifts_set_fpn: "ram_ok (mram k) \<Longrightarrow> lifts x 0 (\<lambda>k. pte_set_fpn k p f) k"
  by (auto simp: lifts_def pte_set_fpn_def pte_modify_kext rbind_assoc rbind_Inr_iff dest: pte_modify_mram)

lemma lifts_fifo: "ram_ok (mram k) \<Longrightarrow> lifts x 0 (\<lambda>k. rbind (enlist_fifo k p) (\<lambda>k. Inr (r, k))) k"
  by (auto simp: lifts_def enlist_fifo_def rbind_assoc rbind_Inr_iff)

lemma lifts_swap_in:
  assumes "ram_ok (mram k)" and "unat f < 8192"
  shows "lifts x 0 (\<lambda>k. rbind (swap_cp_page (active_mswp k) sf (mram k) f)
      (\<lambda>(src, dst). Inr ((), k\<lparr>active_mswp := src, mram := dst\<rparr>))) k"
proof -
  note c = copy_to_ext [OF assms, of "active_mswp k" sf x 0, folded swap_cp_page_def]
  show ?thesis unfolding lifts_def
  proof (intro conjI allI impI)
    show "rbind (swap_cp_page (active_mswp (kext x k)) sf (mram (kext x k)) f)
        (\<lambda>(src, dst). Inr ((), (kext x k)\<lparr>active_mswp := src, mram := dst\<rparr>)) =
      grow (\<lambda>(r, k). (r, kext x k)) (rbind (swap_cp_page (active_mswp k) sf (mram k) f)
        (\<lambda>(src, dst). Inr ((), k\<lparr>active_mswp := src, mram := dst\<rparr>)))"
      by (cases "swap_cp_page (active_mswp k) sf (mram k) f") (auto simp: conjunct1 [OF c] split: prod.splits)
    fix r k' assume "rbind (swap_cp_page (active_mswp k) sf (mram k) f)
        (\<lambda>(src, dst). Inr ((), k\<lparr>active_mswp := src, mram := dst\<rparr>)) = Inr (r, k')"
    then show "ram_ok (mram k')" "left (mram k) \<le> left (mram k') + 0" using c by (auto simp: rbind_Inr_iff)
  qed
qed

lemma lifts_load_page:
  assumes "ram_ok (mram k)" and "unat f < 8192"
  shows "lifts x 0 (\<lambda>k. rbind (load_page k pgn pte f) (\<lambda>k. Inr (r, k))) k"
proof -
  let ?swap = "\<lambda>k. rbind (swap_cp_page (active_mswp k) (ucast (PAGING_SWP pte)) (mram k) f)
      (\<lambda>(src, dst). Inr ((), k\<lparr>active_mswp := src, mram := dst\<rparr>))"
  let ?in = "\<lambda>k. if PAGE_SWAPPED pte then ?swap k else Inr ((), k)"
  have i: "lifts x 0 ?in k" using lifts_swap_in [OF assms] assms(1) by (simp add: lifts_def)
  have rest: "lifts x (0 + 0) (\<lambda>k. rbind (pte_set_fpn k pgn f) (\<lambda>(_, k). rbind (enlist_fifo k pgn) (\<lambda>k. Inr (r, k)))) k1"
    if "ram_ok (mram k1)" for k1
    by (rule lifts_bind [OF lifts_set_fpn [OF that]]) (rule lifts_fifo, use liftsD(2) [OF lifts_set_fpn [OF that]] in blast)
  have "lifts x (0 + (0 + 0)) (\<lambda>k. rbind (?in k) (\<lambda>(_, k). rbind (pte_set_fpn k pgn f) (\<lambda>(_, k). rbind (enlist_fifo k pgn) (\<lambda>k. Inr (r, k))))) k"
    by (rule lifts_bind [OF i]) (rule rest, use liftsD(2) [OF i] in blast)
  moreover have "rbind (load_page k pgn pte f) (\<lambda>k. Inr (r, k)) =
      rbind (?in k) (\<lambda>(_, k). rbind (pte_set_fpn k pgn f) (\<lambda>(_, k). rbind (enlist_fifo k pgn) (\<lambda>k. Inr (r, k))))" for k
    by (simp add: load_page_def rbind_assoc split_def)
  ultimately show ?thesis by simp
qed

lemma lifts_take_frame:
  assumes "ram_ok (mram k)" and "0 < left (mram k)"
  shows "lifts x 1 take_frame k" and "take_frame k = Inr (t, k') \<Longrightarrow> \<exists>f. t = Some f \<and> unat f < 8192"
proof -
  obtain f d where d: "MEMPHY_get_freefp (mram k) = Inr (Some f, d)" "MEMPHY_get_freefp (ext x (mram k)) = Inr (Some f, ext x d)"
      "ram_ok d" "left (mram k) = left d + 1" "unat f < 8192"
    using get_freefp_ext [OF assms] by blast
  have "take_frame k = Inr (Some f, k\<lparr>mram := d\<rparr>)" "take_frame (kext x k) = Inr (Some f, kext x (k\<lparr>mram := d\<rparr>))"
    using d(1,2) by (simp_all add: take_frame_def)
  then show "lifts x 1 take_frame k" "take_frame k = Inr (t, k') \<Longrightarrow> \<exists>f. t = Some f \<and> unat f < 8192"
    using d(3-5) by (auto simp: lifts_def)
qed

lemma lifts_getpage:
  assumes "ram_ok (mram k)" and "0 < left (mram k)"
  shows "lifts x 1 (\<lambda>k. pg_getpage k pgn) k"
proof -
  let ?w = "word_of_int pgn :: addr"
  define bring where "bring pte k = (if \<not> PAGING_PAGE_PRESENT pte
            then rbind (take_frame k) (\<lambda>(tgt, k). case tgt of
                     None \<Rightarrow> Inr (False, k)
                   | Some tgtfpn \<Rightarrow> rbind (load_page k ?w pte tgtfpn) (\<lambda>k. Inr (True, k)))
            else Inr (True, k))" for pte k
  have b: "lifts x (1 + 0) (bring pte) k" for pte
  proof (cases "PAGING_PAGE_PRESENT pte")
    case False
    have "lifts x (1 + 0) (\<lambda>k. rbind (take_frame k) (\<lambda>(tgt, k). case tgt of None \<Rightarrow> Inr (False, k)
        | Some f \<Rightarrow> rbind (load_page k ?w pte f) (\<lambda>k. Inr (True, k)))) k"
    proof (rule lifts_bind [OF lifts_take_frame(1) [OF assms]])
      fix t k1 assume t: "take_frame k = Inr (t, k1)"
      obtain f where f: "t = Some f" "unat f < 8192" using lifts_take_frame(2) [OF assms t] by blast
      have "ram_ok (mram k1)" by (rule liftsD(2) [OF lifts_take_frame(1) [OF assms] t])
      then show "lifts x 0 (\<lambda>k. case t of None \<Rightarrow> Inr (False, k) | Some f \<Rightarrow> rbind (load_page k ?w pte f) (\<lambda>k. Inr (True, k))) k1"
        using lifts_load_page f by simp
    qed
    moreover have "bring pte = (\<lambda>k. rbind (take_frame k) (\<lambda>(tgt, k). case tgt of None \<Rightarrow> Inr (False, k)
        | Some f \<Rightarrow> rbind (load_page k ?w pte f) (\<lambda>k. Inr (True, k))))"
      using False by (simp add: bring_def fun_eq_iff)
    ultimately show ?thesis by simp
  next
    case True
    then have "bring pte = (\<lambda>k. Inr (True, k))" by (simp add: bring_def fun_eq_iff)
    then show ?thesis using assms(1) by simp
  qed
  have last: "lifts x 0 (\<lambda>k. if ok then rbind (pte_get_entry k ?w) (\<lambda>pte. Inr (Some (sint (PAGING_FPN pte)), k)) else Inr (None, k)) k1"
    if "ram_ok (mram k1)" for ok k1
    using that by (cases ok) (auto intro!: lifts_read)
  have "lifts x 1 (\<lambda>k. rbind (pte_get_entry k ?w) (\<lambda>pte. rbind (bring pte k) (\<lambda>(ok, k).
     if ok then rbind (pte_get_entry k ?w) (\<lambda>pte. Inr (Some (sint (PAGING_FPN pte)), k)) else Inr (None, k)))) k"
  proof (rule lifts_read)
    fix pte
    have "lifts x (1 + 0 + 0) (\<lambda>k. rbind (bring pte k) (\<lambda>(ok, k).
       if ok then rbind (pte_get_entry k ?w) (\<lambda>pte. Inr (Some (sint (PAGING_FPN pte)), k)) else Inr (None, k))) k"
      by (rule lifts_bind [OF b]) (rule last, use liftsD(2) [OF b] in blast)
    then show "lifts x 1 (\<lambda>k. rbind (bring pte k) (\<lambda>(ok, k).
       if ok then rbind (pte_get_entry k ?w) (\<lambda>pte. Inr (Some (sint (PAGING_FPN pte)), k)) else Inr (None, k))) k"
      by simp
  qed simp
  then show ?thesis by (simp add: pg_getpage_def bring_def)
qed

text \<open>A frame number in an entry, and so every address made of one, is that of one of 8192 frames.\<close>

lemma getpage_bound:
  assumes "pg_getpage k pgn = Inr (Some f, k')"
  shows "0 \<le> f \<and> f < 8192"
proof -
  obtain pte where f: "f = sint (PAGING_FPN pte)" using assms
    by (auto simp: pg_getpage_def rbind_Inr_iff split: if_splits)
  have u: "unat (PAGING_FPN pte) < 8192"
    using take_bit_nat_less_exp [of 13 "unat pte"] by (simp add: PAGING_FPN_take_bit unsigned_take_bit_eq)
  then have "sint (PAGING_FPN pte) = int (unat (PAGING_FPN pte))" using sint_u32 [of "PAGING_FPN pte"] by simp
  then show ?thesis unfolding f using u by linarith
qed

lemma off_less: "off_of w < 256"
  by (simp add: off_of_def)

lemma lifts_getval:
  assumes "ram_ok (mram k)" and "0 < left (mram k)"
  shows "lifts x 1 (\<lambda>k. pg_getval k a) k"
proof -
  let ?w = "word_of_int a :: u32"
  have "lifts x (1 + 0) (\<lambda>k. rbind (pg_getpage k (sint (PAGING_PGN ?w))) (\<lambda>(fpn, k). case fpn of
        None \<Rightarrow> Inr (None, k)
      | Some f \<Rightarrow> rbind (MEMPHY_read (mram k) (word_of_int (push_bit PAGING_ADDR_FPN_LOBIT f + sint (PAGING_OFFST ?w))))
          (\<lambda>(data, mp). Inr (data, k\<lparr>mram := mp\<rparr>)))) k"
  proof (rule lifts_bind [OF lifts_getpage [OF assms]])
    fix fpn k1 assume g: "pg_getpage k (sint (PAGING_PGN ?w)) = Inr (fpn, k1)"
    have ok: "ram_ok (mram k1)" by (rule liftsD(2) [OF lifts_getpage [OF assms] g])
    show "lifts x 0 (\<lambda>k. case fpn of None \<Rightarrow> Inr (None, k)
      | Some f \<Rightarrow> rbind (MEMPHY_read (mram k) (word_of_int (push_bit PAGING_ADDR_FPN_LOBIT f + sint (PAGING_OFFST ?w))))
          (\<lambda>(data, mp). Inr (data, k\<lparr>mram := mp\<rparr>))) k1"
    proof (cases fpn)
      case (Some f)
      then have "0 \<le> f \<and> f < 8192" using getpage_bound [of k _ f k1] g by simp
      then have f: "0 \<le> f" "nat f < 8192" by linarith+
      let ?a = "word_of_int (push_bit PAGING_ADDR_FPN_LOBIT f + sint (PAGING_OFFST ?w)) :: addr"
      have "unat ?a = 256 * nat f + off_of ?w" using phys_addr(1) [OF f(2) off_less] f(1) by (simp add: OFFST_int)
      then have a: "unat ?a < 2097152" using f(2) off_less [of ?w] by linarith
      show ?thesis using Some access_ext(1,2) [OF ok a] ok by (auto simp: lifts_def)
    qed (use ok in simp)
  qed
  then show ?thesis unfolding pg_getval_def Let_def by simp
qed

lemma lifts_setval:
  assumes "ram_ok (mram k)" and "0 < left (mram k)"
  shows "lifts x 1 (\<lambda>k. pg_setval k a v) k"
proof -
  let ?w = "word_of_int a :: u32"
  have "lifts x (1 + 0) (\<lambda>k. rbind (pg_getpage k (sint (PAGING_PGN ?w))) (\<lambda>(fpn, k). case fpn of
        None \<Rightarrow> Inr (-1, k)
      | Some f \<Rightarrow> rbind (MEMPHY_write (mram k) (push_bit PAGING_ADDR_FPN_LOBIT (word_of_int f) + word_of_int (sint (PAGING_OFFST ?w))) v)
          (\<lambda>(ret, mp). Inr (if ret \<noteq> 0 then -1 else 0, k\<lparr>mram := mp\<rparr>)))) k"
  proof (rule lifts_bind [OF lifts_getpage [OF assms]])
    fix fpn k1 assume g: "pg_getpage k (sint (PAGING_PGN ?w)) = Inr (fpn, k1)"
    have ok: "ram_ok (mram k1)" by (rule liftsD(2) [OF lifts_getpage [OF assms] g])
    show "lifts x 0 (\<lambda>k. case fpn of None \<Rightarrow> Inr (-1, k)
      | Some f \<Rightarrow> rbind (MEMPHY_write (mram k) (push_bit PAGING_ADDR_FPN_LOBIT (word_of_int f) + word_of_int (sint (PAGING_OFFST ?w))) v)
          (\<lambda>(ret, mp). Inr (if ret \<noteq> 0 then -1 else 0, k\<lparr>mram := mp\<rparr>))) k1"
    proof (cases fpn)
      case (Some f)
      then have "0 \<le> f \<and> f < 8192" using getpage_bound [of k _ f k1] g by simp
      then have f: "0 \<le> f" "nat f < 8192" by linarith+
      let ?a = "push_bit PAGING_ADDR_FPN_LOBIT (word_of_int f) + word_of_int (sint (PAGING_OFFST ?w)) :: addr"
      have "unat ?a = 256 * nat f + off_of ?w" using phys_addr(2) [OF f(2) off_less] f(1) by (simp add: OFFST_int)
      then have a: "unat ?a < 2097152" using f(2) off_less [of ?w] by linarith
      show ?thesis using Some access_ext(3,4) [OF ok a] ok by (auto simp: lifts_def)
    qed (use ok in simp)
  qed
  then show ?thesis unfolding pg_setval_def Let_def by simp
qed

section \<open>Regions\<close>

lemma lifts_read_region:
  assumes "ram_ok (mram k)" and "0 < left (mram k)"
  shows "lifts x 1 (\<lambda>k. read_region k vmaid rgid off) k"
proof (cases "mm k")
  case (Some m)
  have "lifts x 1 (\<lambda>k. rbind (get_vma_by_num m vmaid) (\<lambda>cur_vma. case get_symrg_byid m rgid of None \<Rightarrow> Inr (None, k)
      | Some r \<Rightarrow> if cur_vma = None \<or> rg_start r = rg_end r \<or> rg_start r + off \<ge> rg_end r
         then Inr (None, k) else pg_getval k (sint (ucast (rg_start r + off) :: u32)))) k"
    by (rule lifts_read) (use assms lifts_getval [OF assms] in \<open>simp_all split: option.split\<close>)
  then show ?thesis by (rule lifts_cong) (use Some in \<open>simp_all add: read_region_def the_mm_def\<close>)
qed (use assms in \<open>simp add: read_region_def lifts_def\<close>)

lemma lifts_write_region:
  assumes "ram_ok (mram k)" and "0 < left (mram k)"
  shows "lifts x 1 (\<lambda>k. write_region k vmaid rgid off v) k"
proof (cases "mm k")
  case (Some m)
  have "lifts x 1 (\<lambda>k. rbind (get_vma_by_num m vmaid) (\<lambda>cur_vma. case get_symrg_byid m rgid of None \<Rightarrow> Inr (-1, k)
      | Some r \<Rightarrow> if cur_vma = None \<or> rg_start r = rg_end r \<or> rg_start r + off \<ge> rg_end r
         then Inr (-1, k) else pg_setval k (sint (ucast (rg_start r + off) :: u32)) v)) k"
    by (rule lifts_read) (use assms lifts_setval [OF assms] in \<open>simp_all split: option.split\<close>)
  then show ?thesis by (rule lifts_cong) (use Some in \<open>simp_all add: write_region_def the_mm_def\<close>)
qed (use assms in \<open>simp add: write_region_def lifts_def\<close>)

text \<open>Growing an area: the frames it asks for.\<close>

definition pages_asked :: "addr \<Rightarrow> int" where
  "pages_asked sz = sint (ucast (PAGING64_PAGE_ALIGNSZ sz div PAGING64_PAGESZ) :: u32)"

lemma lifts_alloc_pages:
  assumes "ram_ok (mram k)" and "nat n \<le> left (mram k)"
  shows "lifts x (nat n) (\<lambda>k. rbind (alloc_pages_range k n []) (\<lambda>(r, fs, k). Inr ((r, fs), k))) k"
    and "alloc_pages_range k n [] = Inr (r, fs, k') \<Longrightarrow> r = 0"
proof -
  have t: "fp_term (mram k)" "fp_term (mram (kext x k))" using assms(1) by (simp_all add: ram_ok_def ext_def)
  have len: "nat n \<le> length (free_fp_list (mram k))" using assms(2) by (simp add: left_def)
  note a = alloc_pages_range_eq [OF t(1), of n, unfolded if_P [OF len]]
  have "nat n \<le> length (free_fp_list (mram (kext x k)))" using len by (simp add: ext_def)
  note b = alloc_pages_range_eq [OF t(2), of n, unfolded if_P [OF this]]
  let ?k = "k\<lparr>mram := (mram k)\<lparr>free_fp_list := drop (nat n) (free_fp_list (mram k))\<rparr>\<rparr>"
  have "(kext x k)\<lparr>mram := (mram (kext x k))\<lparr>free_fp_list := drop (nat n) (free_fp_list (mram (kext x k)))\<rparr>\<rparr> = kext x ?k"
    using len by (simp add: kext_def ext_def)
  moreover have "take (nat n) (free_fp_list (mram (kext x k))) = take (nat n) (free_fp_list (mram k))"
    using len by (simp add: ext_def)
  ultimately have "alloc_pages_range (kext x k) n [] = Inr (0, take (nat n) (free_fp_list (mram k)), kext x ?k)"
    by (simp add: b)
  moreover have "ram_ok (mram ?k)" using assms(1) by (auto simp: ram_ok_def dest: in_set_dropD)
  moreover have "left (mram k) \<le> left (mram ?k) + nat n" by (simp add: left_def)
  ultimately show "lifts x (nat n) (\<lambda>k. rbind (alloc_pages_range k n []) (\<lambda>(r, fs, k). Inr ((r, fs), k))) k"
    using a by (simp add: lifts_def)
  show "alloc_pages_range k n [] = Inr (r, fs, k') \<Longrightarrow> r = 0" using a by simp
qed

lemma lifts_vmap_loop:
  "ram_ok (mram k) \<Longrightarrow> lifts x 0 (\<lambda>k. vmap_loop k s n fs i) k"
proof (induction fs arbitrary: k i)
  case Nil
  then show ?case by (simp add: vmap_loop.simps [of _ _ _ "[]"])
next
  case (Cons f fs)
  show ?case
  proof (cases "i < n")
    case True
    let ?w = "s + word_of_int i"
    have e: "lifts x (0 + 0) (\<lambda>k. rbind (rbind (enlist_fifo k ?w) (\<lambda>k. Inr ((), k))) (\<lambda>(_, k). vmap_loop k s n fs (i + 1))) k1"
      if "ram_ok (mram k1)" for k1
    proof (rule lifts_bind [OF lifts_fifo [OF that]])
      fix u k2 assume "grow (Pair ()) (enlist_fifo k1 ?w) = Inr (u, k2)"
      then show "lifts x 0 (\<lambda>k. vmap_loop k s n fs (i + 1)) k2"
        using liftsD(2) [OF lifts_fifo [OF that, where r = "()"]] by (intro Cons.IH) blast
    qed
    have "lifts x (0 + (0 + 0)) (\<lambda>k. rbind (pte_set_fpn k ?w f) (\<lambda>(_, k).
        rbind (rbind (enlist_fifo k ?w) (\<lambda>k. Inr ((), k))) (\<lambda>(_, k). vmap_loop k s n fs (i + 1)))) k"
      by (rule lifts_bind [OF lifts_set_fpn [OF Cons.prems]]) (rule e, use liftsD(2) [OF lifts_set_fpn [OF Cons.prems]] in blast)
    then show ?thesis using True by (simp add: vmap_loop.simps [of _ _ _ "f # fs"] rbind_assoc)
  qed (use Cons.prems in \<open>simp add: vmap_loop.simps [of _ _ _ "f # fs"]\<close>)
qed

lemma rbind_three: "rbind (rbind m (\<lambda>(r, g, k). Inr ((r, g), k))) (\<lambda>(q, k). F (fst q) k) = rbind m (\<lambda>(r, g, k). F r k)"
  by (cases m) auto

lemma lifts_vmap_range:
  assumes "ram_ok (mram k)"
  shows "lifts x 0 (\<lambda>k. rbind (vmap_page_range k a n fs rg) (\<lambda>(r, s, k). Inr ((r, s), k))) k"
proof -
  have "lifts x (0 + 0) (\<lambda>k. rbind (vmap_loop k (PAGING_PGN a) n fs 0) (\<lambda>(i, k). Inr ((a, map_option (\<lambda>rg. rg\<lparr>rg_start := a,
                  rg_end := a + word_of_int (i * int PAGING_PAGESZ)\<rparr>) rg), k))) k"
    by (rule lifts_bind [OF lifts_vmap_loop [OF assms]]) (simp add: liftsD(2) [OF lifts_vmap_loop [OF assms]])
  then show ?thesis by (simp add: vmap_page_range_def rbind_assoc split_def)
qed

lemma lifts_map_ram:
  assumes "ram_ok (mram k)" and "nat n \<le> left (mram k)"
  shows "lifts x (nat n) (\<lambda>k. rbind (vm_map_ram k s e p n rg) (\<lambda>(r, g, k). Inr ((r, g), k))) k"
proof -
  note al = lifts_alloc_pages [OF assms]
  have "lifts x (nat n + 0) (\<lambda>k. rbind (rbind (alloc_pages_range k n []) (\<lambda>(r, fs, k). Inr ((r, fs), k))) (\<lambda>(q, k).
      if fst q < 0 \<and> fst q \<noteq> -3000 then Inr ((-1 :: addr, rg), k)
      else if fst q = -3000 then Inr ((-1, rg), k)
      else rbind (rbind (vmap_page_range k p n (snd q) rg) (\<lambda>(r, s, k). Inr ((r, s), k))) (\<lambda>(q, k). Inr ((0, snd q), k)))) k"
  proof (rule lifts_bind [OF al(1)])
    fix q k1 assume q: "rbind (alloc_pages_range k n []) (\<lambda>(r, fs, k). Inr ((r, fs), k)) = Inr (q, k1)"
    have ok: "ram_ok (mram k1)" by (rule liftsD(2) [OF al(1) q])
    have z: "fst q = 0" using q al(2) by (auto simp: rbind_Inr_iff)
    have v: "lifts x (0 + 0) (\<lambda>k. rbind (rbind (vmap_page_range k p n (snd q) rg) (\<lambda>(r, s, k). Inr ((r, s), k))) (\<lambda>(q, k). Inr ((0, snd q), k))) k1"
      by (rule lifts_bind [OF lifts_vmap_range [OF ok]]) (use liftsD(2) [OF lifts_vmap_range [OF ok]] in simp)
    then show "lifts x 0 (\<lambda>k. if fst q < 0 \<and> fst q \<noteq> -3000 then Inr ((-1, rg), k)
      else if fst q = -3000 then Inr ((-1, rg), k)
      else rbind (rbind (vmap_page_range k p n (snd q) rg) (\<lambda>(r, s, k). Inr ((r, s), k))) (\<lambda>(q, k). Inr ((0, snd q), k))) k1"
      using z by simp
  qed
  moreover have "rbind (rbind (alloc_pages_range k n []) (\<lambda>(r, fs, k). Inr ((r, fs), k))) (\<lambda>(q, k).
      if fst q < 0 \<and> fst q \<noteq> -3000 then Inr ((-1 :: addr, rg), k)
      else if fst q = -3000 then Inr ((-1, rg), k)
      else rbind (rbind (vmap_page_range k p n (snd q) rg) (\<lambda>(r, s, k). Inr ((r, s), k))) (\<lambda>(q, k). Inr ((0, snd q), k))) =
      rbind (vm_map_ram k s e p n rg) (\<lambda>(r, g, k). Inr ((r, g), k))" for k
    by (cases "alloc_pages_range k n []") (auto simp: vm_map_ram_def rbind_assoc split_def)
  ultimately show ?thesis by simp
qed

lemma lifts_update_vma:
  assumes "ram_ok (mram k)"
  shows "lifts x 0 (\<lambda>k. rbind (update_vma k i f) (\<lambda>k. Inr (r, k))) k"
  using assms by (auto simp: lifts_def update_vma_def rbind_assoc rbind_Inr_iff)

lemma lifts_set_symrg:
  assumes "ram_ok (mram k)"
  shows "lifts x 0 (\<lambda>k. rbind (set_symrg k rgid s e) (\<lambda>k. Inr (r, k))) k"
  using assms by (auto simp: lifts_def set_symrg_def rbind_assoc rbind_Inr_iff)

lemma brk_kext [simp]: "get_vm_area_node_at_brk (kext x k) vmaid sz al = get_vm_area_node_at_brk k vmaid sz al"
    "validate_overlap_vm_area (kext x k) vmaid s e = validate_overlap_vm_area k vmaid s e"
  by (simp_all add: get_vm_area_node_at_brk_def validate_overlap_vm_area_def)

lemma lifts_inc_limit:
  assumes ok: "ram_ok (mram k)" and n: "nat (pages_asked sz) \<le> left (mram k)"
  shows "lifts x (nat (pages_asked sz)) (\<lambda>k. inc_vma_limit k vmaid sz) k"
proof -
  let ?n = "pages_asked sz" and ?al = "PAGING64_PAGE_ALIGNSZ sz"
  define upd :: "vm_rg_struct \<Rightarrow> vm_area_struct \<Rightarrow> vm_area_struct" where "upd a v = (let v = v\<lparr>vm_end := rg_end a, sbrk := rg_end a\<rparr> in
      if rg_start a + sz < rg_end a
      then v\<lparr>vm_freerg_list := enlist_vm_rg_node (vm_freerg_list v)
               ((init_vm_rg (rg_start a + sz) (rg_end a))\<lparr>rg_vmaid := Some vmaid\<rparr>)\<rparr> else v)" for a v
  define fn :: "nat \<Rightarrow> vm_rg_struct \<Rightarrow> addr \<Rightarrow> krnl_t \<Rightarrow> (int \<times> krnl_t) res" where
    "fn c a r k = (if r < 0 then Inr (-1, k) else rbind (update_vma k c (upd a)) (\<lambda>k. Inr (0, k)))" for c a r k
  have fin: "lifts x (nat ?n + 0) (\<lambda>k. rbind (rbind (vm_map_ram k (rg_start a) (rg_end a) e ?n (Some (init_vm_rg 0 0))) (\<lambda>(r, g, k). Inr ((r, g), k)))
      (\<lambda>(q, k). fn c a (fst q) k)) k" for a e c
  proof (rule lifts_bind [OF lifts_map_ram [OF assms]])
    fix q k' assume q: "rbind (vm_map_ram k (rg_start a) (rg_end a) e ?n (Some (init_vm_rg 0 0))) (\<lambda>(r, g, k). Inr ((r, g), k)) = Inr (q, k')"
    have "ram_ok (mram k')" by (rule liftsD(2) [OF lifts_map_ram [OF assms] q])
    then show "lifts x 0 (fn c a (fst q)) k'"
      using lifts_update_vma by (simp add: fn_def [abs_def])
  qed
  define rest :: "mm_struct \<Rightarrow> nat \<Rightarrow> vm_rg_struct \<Rightarrow> krnl_t \<Rightarrow> (int \<times> krnl_t) res" where "rest m c a k = rbind (validate_overlap_vm_area k vmaid (rg_start a) (rg_end a)) (\<lambda>ov.
                if ov < 0 then Inr (-1 :: int, k)
                else rbind (arr_get (mmap m) c) (\<lambda>v.
                  rbind (rbind (vm_map_ram k (rg_start a) (rg_end a) (vm_end v) ?n (Some (init_vm_rg 0 0))) (\<lambda>(r, g, k). Inr ((r, g), k)))
                  (\<lambda>(q, k). fn c a (fst q) k)))" for m c a k
  have 1: "lifts x (nat ?n) (rest m c a) k" for m c a
    unfolding rest_def
  proof (rule lifts_read [where g = "\<lambda>k. validate_overlap_vm_area k vmaid (rg_start a) (rg_end a)", OF brk_kext(2)])
    fix ov :: int
    have "lifts x (nat ?n) (\<lambda>k. rbind (arr_get (mmap m) c) (\<lambda>v.
        rbind (rbind (vm_map_ram k (rg_start a) (rg_end a) (vm_end v) ?n (Some (init_vm_rg 0 0))) (\<lambda>(r, g, k). Inr ((r, g), k)))
        (\<lambda>(q, k). fn c a (fst q) k))) k"
      by (rule lifts_read [where g = "\<lambda>_. arr_get (mmap m) c", OF refl]) (rule fin [unfolded add_0_right])
    then show "lifts x (nat ?n) (\<lambda>k. if ov < 0 then Inr (-1 :: int, k) else rbind (arr_get (mmap m) c) (\<lambda>v.
        rbind (rbind (vm_map_ram k (rg_start a) (rg_end a) (vm_end v) ?n (Some (init_vm_rg 0 0))) (\<lambda>(r, g, k). Inr ((r, g), k)))
        (\<lambda>(q, k). fn c a (fst q) k))) k"
      using ok by (simp only: lifts_if lifts_return if_True if_False split: if_split) simp
  qed
  have 2: "lifts x (nat ?n) (\<lambda>k. rbind (get_vm_area_node_at_brk k vmaid sz ?al) (\<lambda>area. case area of
      None \<Rightarrow> Inr (-1 :: int, k) | Some a \<Rightarrow> rest m c a k)) k" for m c
    by (rule lifts_read [where g = "\<lambda>k. get_vm_area_node_at_brk k vmaid sz ?al", OF brk_kext(1)]) (use 1 ok in \<open>simp split: option.split\<close>)
  have "lifts x (nat ?n) (\<lambda>k. rbind (the_mm k) (\<lambda>m. rbind (get_vma_by_num m vmaid) (\<lambda>cur_vma. case cur_vma of
       None \<Rightarrow> Inr (-1 :: int, k)
     | Some c \<Rightarrow> if sz = 0 then Inr (-1 :: int, k)
         else rbind (get_vm_area_node_at_brk k vmaid sz ?al) (\<lambda>area. case area of
              None \<Rightarrow> Inr (-1 :: int, k) | Some a \<Rightarrow> rest m c a k)))) k"
  proof (rule lifts_read [where g = the_mm, OF the_mm_kext])
    fix m
    have "lifts x (nat ?n) (\<lambda>k. case cur of
       None \<Rightarrow> Inr (-1 :: int, k)
     | Some c \<Rightarrow> if sz = 0 then Inr (-1 :: int, k)
         else rbind (get_vm_area_node_at_brk k vmaid sz ?al) (\<lambda>area. case area of
              None \<Rightarrow> Inr (-1 :: int, k) | Some a \<Rightarrow> rest m c a k)) k" for cur
      using ok 2 by (simp only: lifts_if lifts_return lifts_option split: if_split option.split) simp
    then show "lifts x (nat ?n) (\<lambda>k. rbind (get_vma_by_num m vmaid) (\<lambda>cur_vma. case cur_vma of
       None \<Rightarrow> Inr (-1 :: int, k)
     | Some c \<Rightarrow> if sz = 0 then Inr (-1 :: int, k)
         else rbind (get_vm_area_node_at_brk k vmaid sz ?al) (\<lambda>area. case area of
              None \<Rightarrow> Inr (-1 :: int, k) | Some a \<Rightarrow> rest m c a k))) k"
      by (rule lifts_read [where g = "\<lambda>_. get_vma_by_num m vmaid", OF refl])
  qed
  then show ?thesis
    unfolding rest_def rbind_three fn_def upd_def inc_vma_limit_def Let_def pages_asked_def .
qed

lemma lifts_free_area:
  assumes ok: "ram_ok (mram k)"
  shows "lifts x 0 (\<lambda>k. get_free_vmrg_area k vmaid sz) k"
proof (cases "mm k = None \<or> sz \<le> 0")
  case False
  then obtain m where m: "mm k = Some m" by auto
  define fit where "fit v = fit_loop (vm_freerg_list v) (word_of_int sz) \<lparr>rg_vmaid = None, rg_start = -1, rg_end = -1\<rparr>" for v :: vm_area_struct
  have "lifts x 0 (\<lambda>k. rbind (get_vma_by_num m vmaid) (\<lambda>cur_vma. case cur_vma of
             None \<Rightarrow> Inr (None, k)
           | Some c \<Rightarrow> rbind (arr_get (mmap m) c) (\<lambda>v.
               if vm_freerg_list v = [] then Inr (None, k)
               else rbind (update_vma k c (\<lambda>v'. v'\<lparr>vm_freerg_list := snd (fit v)\<rparr>)) (\<lambda>k.
                    Inr (if rg_start (fst (fit v)) = -1 then None else Some (fst (fit v)), k))))) k"
  proof (rule lifts_read [where g = "\<lambda>_. get_vma_by_num m vmaid", OF refl])
    fix cur
    have "lifts x 0 (\<lambda>k. rbind (arr_get (mmap m) c) (\<lambda>v.
               if vm_freerg_list v = [] then Inr (None, k)
               else rbind (update_vma k c (\<lambda>v'. v'\<lparr>vm_freerg_list := snd (fit v)\<rparr>)) (\<lambda>k.
                    Inr (if rg_start (fst (fit v)) = -1 then None else Some (fst (fit v)), k)))) k" for c
      by (rule lifts_read [where g = "\<lambda>_. arr_get (mmap m) c", OF refl]) (use ok in \<open>simp add: lifts_update_vma [OF ok]\<close>)
    then show "lifts x 0 (\<lambda>k. case cur of None \<Rightarrow> Inr (None, k)
           | Some c \<Rightarrow> rbind (arr_get (mmap m) c) (\<lambda>v.
               if vm_freerg_list v = [] then Inr (None, k)
               else rbind (update_vma k c (\<lambda>v'. v'\<lparr>vm_freerg_list := snd (fit v)\<rparr>)) (\<lambda>k.
                    Inr (if rg_start (fst (fit v)) = -1 then None else Some (fst (fit v)), k)))) k"
      using ok by (cases cur) simp_all
  qed
  then show ?thesis
    by (rule lifts_cong) (use m False in \<open>simp_all add: get_free_vmrg_area_def the_mm_def fit_def split_def Let_def cong: option.case_cong if_cong\<close>)
qed (use ok in \<open>auto simp: lifts_def get_free_vmrg_area_def\<close>)

lemma lifts_alloc_region:
  assumes ok: "ram_ok (mram k)" and n: "nat (pages_asked sz) \<le> left (mram k)"
  shows "lifts x (nat (pages_asked sz)) (\<lambda>k. alloc_region k vmaid rgid sz) k"
proof (cases "mm k = None \<or> sz = 0 \<or> rgid < 0 \<or> rgid \<ge> int PAGING_MAX_SYMTBL_SZ")
  case False
  then obtain m where m: "mm k = Some m" by auto
  let ?n = "nat (pages_asked sz)" and ?w = "sint (ucast sz :: u32)"
  define new where "new c k = rbind (arr_get (mmap m) c) (\<lambda>v. rbind (inc_vma_limit k vmaid sz) (\<lambda>(ret, k).
      if ret < 0 then Inr (None, k)
      else rbind (set_symrg k rgid (sbrk v) (sbrk v + sz)) (\<lambda>k. Inr (Some (sbrk v), k))))" for c k
  have new: "lifts x ?n (new c) k1" if k1: "ram_ok (mram k1)" "?n \<le> left (mram k1)" for c k1
    unfolding new_def
  proof (rule lifts_read [where g = "\<lambda>_. arr_get (mmap m) c", OF refl])
    fix v
    note i = lifts_inc_limit [OF k1]
    have "lifts x (?n + 0) (\<lambda>k. rbind (inc_vma_limit k vmaid sz) (\<lambda>(ret, k). if ret < 0 then Inr (None, k)
        else rbind (set_symrg k rgid (sbrk v) (sbrk v + sz)) (\<lambda>k. Inr (Some (sbrk v), k)))) k1"
    proof (rule lifts_bind [OF i])
      fix r k2 assume "inc_vma_limit k1 vmaid sz = Inr (r, k2)"
      then have "ram_ok (mram k2)" by (rule liftsD(2) [OF i])
      then show "lifts x 0 (\<lambda>k. if r < 0 then Inr (None, k)
          else rbind (set_symrg k rgid (sbrk v) (sbrk v + sz)) (\<lambda>k. Inr (Some (sbrk v), k))) k2"
        by (simp add: lifts_set_symrg)
    qed
    then show "lifts x ?n (\<lambda>k. rbind (inc_vma_limit k vmaid sz) (\<lambda>(ret, k). if ret < 0 then Inr (None, k)
        else rbind (set_symrg k rgid (sbrk v) (sbrk v + sz)) (\<lambda>k. Inr (Some (sbrk v), k)))) k1" by simp
  qed
  have area: "lifts x (0 + ?n) (\<lambda>k. rbind (get_free_vmrg_area k vmaid ?w) (\<lambda>(rgnode, k). case rgnode of
        None \<Rightarrow> new c k
      | Some r \<Rightarrow> rbind (set_symrg k rgid (rg_start r) (rg_end r)) (\<lambda>k. Inr (Some (rg_start r), k)))) k" for c
  proof (rule lifts_bind [OF lifts_free_area [OF ok]])
    fix rgnode k1 assume g: "get_free_vmrg_area k vmaid ?w = Inr (rgnode, k1)"
    have k1: "ram_ok (mram k1)" by (rule liftsD(2) [OF lifts_free_area [OF ok] g])
    have "left (mram k) \<le> left (mram k1)" using liftsD(3) [OF lifts_free_area [OF ok] g] by simp
    then show "lifts x ?n (\<lambda>k. case rgnode of None \<Rightarrow> new c k
      | Some r \<Rightarrow> rbind (set_symrg k rgid (rg_start r) (rg_end r)) (\<lambda>k. Inr (Some (rg_start r), k))) k1"
      using new [OF k1] n lifts_mono [OF lifts_set_symrg [OF k1], of ?n] by (cases rgnode) simp_all
  qed
  have "lifts x ?n (\<lambda>k. rbind (get_vma_by_num m vmaid) (\<lambda>cur_vma. case cur_vma of None \<Rightarrow> Inr (None, k)
      | Some c \<Rightarrow> rbind (get_free_vmrg_area k vmaid ?w) (\<lambda>(rgnode, k). case rgnode of
        None \<Rightarrow> new c k
      | Some r \<Rightarrow> rbind (set_symrg k rgid (rg_start r) (rg_end r)) (\<lambda>k. Inr (Some (rg_start r), k))))) k"
    by (rule lifts_read [where g = "\<lambda>_. get_vma_by_num m vmaid", OF refl]) (use area ok in \<open>simp split: option.split\<close>)
  then show ?thesis
    by (rule lifts_cong) (use m False in \<open>simp_all only: alloc_region_def the_mm_def new_def Let_def kext_sel option.case if_False rbind_simps\<close>)
qed (use ok in \<open>auto simp: lifts_def alloc_region_def\<close>)

lemma lifts_free_region:
  assumes ok: "ram_ok (mram k)"
  shows "lifts x 0 (\<lambda>k. free_region k vmaid rgid) k"
proof -
  have e: "lifts x 0 (\<lambda>k. enlist_vm_freerg_list k r) k1" if "ram_ok (mram k1)" for r k1
  proof -
    have "lifts x 0 (\<lambda>k. rbind (the_mm k) (\<lambda>m. case mmap m of [] \<Rightarrow> Inl Null_Deref | v # vs \<Rightarrow>
        if rg_end r \<le> rg_start r then Inr (-1, k)
        else Inr (0, k\<lparr>mm := Some (m\<lparr>mmap := v\<lparr>vm_freerg_list := r # vm_freerg_list v\<rparr> # vs\<rparr>)\<rparr>))) k1"
    proof (rule lifts_read [where g = the_mm, OF the_mm_kext])
      fix m
      show "lifts x 0 (\<lambda>k. case mmap m of [] \<Rightarrow> Inl Null_Deref | v # vs \<Rightarrow>
        if rg_end r \<le> rg_start r then Inr (-1, k)
        else Inr (0, k\<lparr>mm := Some (m\<lparr>mmap := v\<lparr>vm_freerg_list := r # vm_freerg_list v\<rparr> # vs\<rparr>)\<rparr>)) k1"
        by (cases "mmap m") (use that in \<open>auto simp: lifts_def\<close>)
    qed
    then show ?thesis
      by (rule lifts_cong) (simp_all add: enlist_vm_freerg_list_def)
  qed
  show ?thesis
  proof (cases "rgid < 0 \<or> rgid \<ge> int PAGING_MAX_SYMTBL_SZ")
    case False
    have "lifts x 0 (\<lambda>k. rbind (the_mm k) (\<lambda>m. rbind (arr_get (symrgtbl m) (nat rgid)) (\<lambda>r.
           if rg_start r = 0 \<and> rg_end r = 0 then Inr (-1 :: int, k)
           else rbind (rbind (set_symrg k rgid 0 0) (\<lambda>k. Inr ((), k))) (\<lambda>(_, k).
                rbind (enlist_vm_freerg_list k \<lparr>rg_vmaid = None, rg_start = rg_start r, rg_end = rg_end r\<rparr>) (\<lambda>(_, k). Inr (0, k)))))) k"
    proof (rule lifts_read [where g = the_mm, OF the_mm_kext])
      fix m
      have s: "lifts x (0 + (0 + 0)) (\<lambda>k. rbind (rbind (set_symrg k rgid 0 0) (\<lambda>k. Inr ((), k))) (\<lambda>(_, k).
          rbind (enlist_vm_freerg_list k r) (\<lambda>(_, k). Inr (0 :: int, k)))) k" for r
      proof (rule lifts_bind [OF lifts_set_symrg [OF ok]])
        fix u k1 assume "rbind (set_symrg k rgid 0 0) (\<lambda>k. Inr ((), k)) = Inr (u, k1)"
        then have "rbind (set_symrg k rgid 0 0) (\<lambda>k. Inr (u, k)) = Inr (u, k1)" by simp
        then have k1: "ram_ok (mram k1)" by (rule liftsD(2) [OF lifts_set_symrg [OF ok]])
        show "lifts x (0 + 0) (\<lambda>k. rbind (enlist_vm_freerg_list k r) (\<lambda>(_, k). Inr (0 :: int, k))) k1"
          by (rule lifts_bind [OF e [OF k1]]) (use liftsD(2) [OF e [OF k1]] in simp)
      qed
      show "lifts x 0 (\<lambda>k. rbind (arr_get (symrgtbl m) (nat rgid)) (\<lambda>r.
           if rg_start r = 0 \<and> rg_end r = 0 then Inr (-1 :: int, k)
           else rbind (rbind (set_symrg k rgid 0 0) (\<lambda>k. Inr ((), k))) (\<lambda>(_, k).
                rbind (enlist_vm_freerg_list k \<lparr>rg_vmaid = None, rg_start = rg_start r, rg_end = rg_end r\<rparr>) (\<lambda>(_, k). Inr (0, k))))) k"
        by (rule lifts_read [where g = "\<lambda>_. arr_get (symrgtbl m) (nat rgid)", OF refl]) (use s ok in simp)
    qed
    then show ?thesis
      by (rule lifts_cong) (use False in \<open>simp_all add: free_region_def rbind_assoc cong: if_cong\<close>)
  qed (use ok in \<open>simp add: free_region_def lifts_def\<close>)
qed

section \<open>Instructions\<close>

lemma lifts_after:
  assumes f: "lifts x n f k"
  shows "lifts x n (\<lambda>k. rbind (f k) (\<lambda>(r, k). Inr (h r, k))) k"
proof -
  have "lifts x (n + 0) (\<lambda>k. rbind (f k) (\<lambda>(r, k). Inr (h r, k))) k"
    by (rule lifts_bind [OF f]) (use liftsD(2) [OF f] in simp)
  then show ?thesis by simp
qed

lemma lifts_liballoc:
  assumes "ram_ok (mram k)" and "nat (pages_asked sz) \<le> left (mram k)"
  shows "lifts x (nat (pages_asked sz)) (\<lambda>k. liballoc k sz reg) k"
  unfolding liballoc_def by (rule lifts_after [OF lifts_alloc_region [OF assms]])

lemma lifts_libfree: "ram_ok (mram k) \<Longrightarrow> lifts x 0 (\<lambda>k. libfree k reg) k"
  unfolding libfree_def by (rule lifts_after [OF lifts_free_region])

lemma lifts_libread: "ram_ok (mram k) \<Longrightarrow> 0 < left (mram k) \<Longrightarrow> lifts x 1 (\<lambda>k. libread k src off) k"
  unfolding libread_def by (rule lifts_after [OF lifts_read_region])

lemma lifts_libwrite: "ram_ok (mram k) \<Longrightarrow> 0 < left (mram k) \<Longrightarrow> lifts x 1 (\<lambda>k. libwrite k v dst off) k"
  unfolding libwrite_def by (rule lifts_after [OF lifts_write_region])

lemma lifts_kmalloc:
  assumes "ram_ok (mram k)" and "nat (pages_asked sz) \<le> left (mram k)"
  shows "lifts x (nat (pages_asked sz)) (\<lambda>k. kmalloc k vmaid rgid sz) k"
  unfolding kmalloc_def using assms(1) by (simp add: lifts_after [OF lifts_alloc_region [OF assms]])

lemma lifts_store:
  assumes a: "lifts x n f k"
  shows "lifts x n (\<lambda>k. rbind (rbind (f k) (\<lambda>(a :: addr, k). if a = -1 then Inr (-1 :: int, rs, k)
      else rbind (arr_set rs i a) (\<lambda>rs. Inr (0, rs, k)))) (\<lambda>(r, rs, k). Inr ((r, rs), k))) k"
proof -
  have "lifts x (n + 0) (\<lambda>k. rbind (f k) (\<lambda>(a :: addr, k). if a = -1 then Inr ((-1 :: int, rs), k)
      else rbind (arr_set rs i a) (\<lambda>rs. Inr ((0, rs), k)))) k"
  proof (rule lifts_bind [OF a])
    fix w :: addr and k' assume "f k = Inr (w, k')"
    then have "ram_ok (mram k')" by (rule liftsD(2) [OF a])
    then show "lifts x 0 (\<lambda>k. if w = -1 then Inr ((-1 :: int, rs), k) else rbind (arr_set rs i w) (\<lambda>rs. Inr ((0, rs), k))) k'"
      by (simp add: lifts_read [where g = "\<lambda>_. arr_set rs i w"])
  qed
  then show ?thesis
    by (rule lifts_mono [OF lifts_cong]) (auto simp: rbind_assoc split_def intro!: arg_cong [where f = "rbind _"])
qed

lemma lifts_libkmem:
  assumes "ram_ok (mram k)" and "nat (pages_asked (ucast sz)) \<le> left (mram k)"
  shows "lifts x (nat (pages_asked (ucast sz))) (\<lambda>k. rbind (libkmem_malloc rs k sz reg) (\<lambda>(r, rs, k). Inr ((r, rs), k))) k"
  unfolding libkmem_malloc_def
  by (cases "sz = 0") (simp add: assms(1), simp only: if_False lifts_store [OF lifts_kmalloc [OF assms]])

lemma lifts_cache:
  assumes "ram_ok (mram k)" and "nat (pages_asked PAGING64_PAGESZ) \<le> left (mram k)"
  shows "lifts x (nat (pages_asked PAGING64_PAGESZ))
    (\<lambda>k. rbind (libkmem_cache_alloc rs k pool reg) (\<lambda>(r, rs, k). Inr ((r, rs), k))) k"
  unfolding libkmem_cache_alloc_def kmem_cache_alloc_def by (rule lifts_store [OF lifts_kmalloc [OF assms]])

lemma lifts_copy_loop:
  assumes rd: "\<And>k w. ram_ok (mram k) \<Longrightarrow> 0 < left (mram k) \<Longrightarrow> lifts x 1 (\<lambda>k. rd k w) k"
    and wr: "\<And>k w b. ram_ok (mram k) \<Longrightarrow> 0 < left (mram k) \<Longrightarrow> lifts x 1 (\<lambda>k. wr k w b) k"
  shows "ram_ok (mram k) \<Longrightarrow> 2 * (n - i) \<le> left (mram k) \<Longrightarrow> lifts x (2 * (n - i)) (\<lambda>k. copy_loop rd wr k n i) k"
proof (induction "n - i" arbitrary: k i)
  case 0
  then show ?case by (simp add: copy_loop.simps [of _ _ _ n i])
next
  case (Suc c)
  then have i: "i < n" "n - i = Suc (n - (i + 1))" "c = n - (i + 1)" by simp_all
  let ?m = "2 * (n - (i + 1))"
  have pos: "0 < left (mram k)" "?m + 2 \<le> left (mram k)" using Suc.prems(2) i(2) by simp_all
  note r1 = rd [OF Suc.prems(1) pos(1)]
  have "lifts x (1 + (1 + ?m)) (\<lambda>k. rbind (rd k (word_of_nat i)) (\<lambda>(data, k). case data of
      None \<Rightarrow> Inr (-1, k)
    | Some b \<Rightarrow> rbind (wr k (word_of_nat i) b) (\<lambda>(ret, k). if ret \<noteq> 0 then Inr (-1, k) else copy_loop rd wr k n (i + 1)))) k"
  proof (rule lifts_bind [OF r1])
    fix data k1 assume q: "rd k (word_of_nat i) = Inr (data, k1)"
    have k1: "ram_ok (mram k1)" "0 < left (mram k1)" "?m + 1 \<le> left (mram k1)"
      using liftsD(2,3) [OF r1 q] pos by simp_all
    note w1 = wr [OF k1(1,2)]
    have "lifts x (1 + ?m) (\<lambda>k. rbind (wr k (word_of_nat i) b) (\<lambda>(ret, k). if ret \<noteq> 0 then Inr (-1, k) else copy_loop rd wr k n (i + 1))) k1" for b
    proof (rule lifts_bind [OF w1])
      fix ret k2 assume q: "wr k1 (word_of_nat i) b = Inr (ret, k2)"
      have k2: "ram_ok (mram k2)" "?m \<le> left (mram k2)" using liftsD(2,3) [OF w1 q] k1(3) by simp_all
      show "lifts x ?m (\<lambda>k. if ret \<noteq> 0 then Inr (-1, k) else copy_loop rd wr k n (i + 1)) k2"
        using Suc.hyps(1) [OF i(3) k2] k2(1) by simp
    qed
    then show "lifts x (1 + ?m) (\<lambda>k. case data of None \<Rightarrow> Inr (-1, k)
      | Some b \<Rightarrow> rbind (wr k (word_of_nat i) b) (\<lambda>(ret, k). if ret \<noteq> 0 then Inr (-1, k) else copy_loop rd wr k n (i + 1))) k1"
      using k1(1) by (cases data) simp_all
  qed
  then have "lifts x (2 * (n - i)) (\<lambda>k. rbind (rd k (word_of_nat i)) (\<lambda>(data, k). case data of
      None \<Rightarrow> Inr (-1, k)
    | Some b \<Rightarrow> rbind (wr k (word_of_nat i) b) (\<lambda>(ret, k). if ret \<noteq> 0 then Inr (-1, k) else copy_loop rd wr k n (i + 1)))) k"
    by (rule lifts_mono) (use i(2) in simp)
  then show ?case using i(1) by (subst copy_loop.simps) simp
qed

lemma lifts_copies:
  assumes "ram_ok (mram k)" and "2 * unat sz \<le> left (mram k)"
  shows "lifts x (2 * unat sz) (\<lambda>k. libkmem_copy_from_user k src dst off sz) k"
    and "lifts x (2 * unat sz) (\<lambda>k. libkmem_copy_to_user k src dst off sz) k"
  unfolding libkmem_copy_from_user_def libkmem_copy_to_user_def read_user_mem_def write_user_mem_def
    read_kernel_mem_def write_kernel_mem_def
  using lifts_copy_loop [where n = "unat sz" and i = 0 and k = k, OF lifts_read_region lifts_write_region] assms by simp_all

text \<open>The same for what runs in the kernel.\<close>

definition kern_ext :: "extra \<Rightarrow> kern \<Rightarrow> kern" where
  "kern_ext x K = K\<lparr>kram := ext x (kram K)\<rparr>"

definition klifts :: "extra \<Rightarrow> nat \<Rightarrow> (kern \<Rightarrow> ('a \<times> kern) res) \<Rightarrow> kern \<Rightarrow> bool" where
  "klifts x n F K \<longleftrightarrow> F (kern_ext x K) = grow (\<lambda>(r, K). (r, kern_ext x K)) (F K)
     \<and> (\<forall>r K'. F K = Inr (r, K') \<longrightarrow> ram_ok (kram K') \<and> left (kram K) \<le> left (kram K') + n)"

lemma klifts_return [simp]: "klifts x n (\<lambda>K. Inr (r, K)) K \<longleftrightarrow> ram_ok (kram K)"
  by (auto simp: klifts_def)

lemma kern_ext_sel [simp]: "procs (kern_ext x K) = procs K" "sched (kern_ext x K) = sched K" "kram (kern_ext x K) = ext x (kram K)"
    "krnl_of (kern_ext x K) b = kext x (krnl_of K b)" "mram (krnl_of K b) = kram K"
    "leave (kern_ext x K) p b (kext x k) = kern_ext x (leave K p b k)" "kram (leave K p b k) = mram k"
    "(kern_ext x K)\<lparr>procs := h\<rparr> = kern_ext x (K\<lparr>procs := h\<rparr>)" "(kern_ext x K)\<lparr>sched := q\<rparr> = kern_ext x (K\<lparr>sched := q\<rparr>)"
  by (simp_all add: kern_ext_def krnl_of_def kext_def leave_def)

lemma klifts_proc_run:
  assumes "\<And>b. lifts x n f (krnl_of K b)"
  shows "klifts x n (\<lambda>K. proc_run K p f) K"
proof (cases "deref (procs K) p")
  case (Inl e)
  then show ?thesis by (simp add: klifts_def proc_run_def)
next
  case (Inr b)
  note f = liftsD [OF assms [of b]]
  show ?thesis
  proof (cases "f (krnl_of K b)")
    case (Inl e)
    then show ?thesis using Inr f(1) by (simp add: klifts_def proc_run_def)
  next
    case (Inr rk)
    obtain r k where "f (krnl_of K b) = Inr (r, k)" using Inr by (cases rk) simp
    then show ?thesis using \<open>deref (procs K) p = Inr b\<close> f(1) f(2,3) [of r k] by (simp add: klifts_def proc_run_def)
  qed
qed

lemma klifts_reg_run:
  assumes "\<And>b rs. lifts x n (\<lambda>k. rbind (f rs k) (\<lambda>(r, rs, k). Inr ((r, rs), k))) (krnl_of K b)"
  shows "klifts x n (\<lambda>K. reg_run K p f) K"
proof (cases "deref (procs K) p")
  case (Inl e)
  then show ?thesis by (simp add: klifts_def reg_run_def)
next
  case (Inr b)
  note f = liftsD [OF assms [of "regs b" b]]
  show ?thesis
  proof (cases "f (regs b) (krnl_of K b)")
    case (Inl e)
    then have "f (regs b) (kext x (krnl_of K b)) = Inl e" using f(1) by (cases "f (regs b) (kext x (krnl_of K b))") auto
    then show ?thesis using Inl \<open>deref (procs K) p = Inr b\<close> by (simp add: klifts_def reg_run_def)
  next
    case (Inr rk)
    obtain r rs k where r: "f (regs b) (krnl_of K b) = Inr (r, rs, k)" using Inr by (cases rk) simp
    then have "f (regs b) (kext x (krnl_of K b)) = Inr (r, rs, kext x k)"
      using f(1) by (cases "f (regs b) (kext x (krnl_of K b))") auto
    then show ?thesis using \<open>deref (procs K) p = Inr b\<close> r f(2,3) [of "(r, rs)" k] by (simp add: klifts_def reg_run_def)
  qed
qed

text \<open>The frames that an instruction may take.\<close>

definition need :: "inst_t \<Rightarrow> nat" where
  "need ins = (case opcode ins of
      ALLOC \<Rightarrow> nat (pages_asked (arg_0 ins))
    | KMALLOC \<Rightarrow> nat (pages_asked (ucast (ucast (arg_0 ins) :: u32)))
    | KMEM_CACHE_ALLOC \<Rightarrow> nat (pages_asked PAGING64_PAGESZ)
    | READ \<Rightarrow> 1
    | WRITE \<Rightarrow> 1
    | COPY_FROM_USER \<Rightarrow> 2 * unat (ucast (arg_3 ins) :: u32)
    | COPY_TO_USER \<Rightarrow> 2 * unat (ucast (arg_3 ins) :: u32)
    | _ \<Rightarrow> 0)"

lemma klifts_exec_inst:
  assumes "ram_ok (kram K)" and "need ins \<le> left (kram K)" and "inst_ok b ins"
  shows "klifts x (need ins) (\<lambda>K. exec_inst K p ins) K"
proof (cases "opcode ins")
  case READ
  then have "klifts x 1 (\<lambda>K. proc_run K p (\<lambda>k. libread k (ucast (arg_0 ins)) (arg_1 ins))) K"
    by (intro klifts_proc_run lifts_libread) (use assms READ in \<open>simp_all add: need_def\<close>)
  then show ?thesis using READ
    by (cases "proc_run K p (\<lambda>k. libread k (ucast (arg_0 ins)) (arg_1 ins))") (auto simp: exec_inst_def klifts_def need_def)
next
  case SYSCALL
  then have "(ucast (arg_0 ins) :: u32) \<noteq> 17" using assms(3) by (simp add: inst_ok_def)
  then show ?thesis using SYSCALL assms(1)
    by (cases "deref (procs K) p") (auto simp: exec_inst_def klifts_def libsyscall_def syscall_def)
qed (use assms in \<open>simp_all add: exec_inst_def need_def klifts_proc_run klifts_reg_run lifts_liballoc lifts_libkmem
   lifts_cache lifts_copies lifts_libfree lifts_libwrite del: One_nat_def\<close>)

text \<open>The instruction that \<open>run\<close> executes for a block.\<close>

definition next_need :: "pcb_t \<Rightarrow> nat" where
  "next_need b = (if unat (pc b) < length (code b) then need (code b ! unat (pc b)) else 0)"

lemma klifts_run:
  assumes "ram_ok (kram K)" and "procs K p = Some b" and "next_need b \<le> left (kram K)"
    and "unat (pc b) < length (code b) \<Longrightarrow> inst_ok b (code b ! unat (pc b))"
  shows "klifts x (next_need b) (\<lambda>K. run K p) K"
proof (cases "unat (pc b) < length (code b)")
  case True
  let ?K = "K\<lparr>procs := (procs K)(p \<mapsto> b\<lparr>pc := pc b + 1\<rparr>)\<rparr>"
  have "klifts x (need (code b ! unat (pc b))) (\<lambda>K. exec_inst K p (code b ! unat (pc b))) ?K"
    by (rule klifts_exec_inst [of _ _ b]) (use assms True in \<open>simp_all add: next_need_def\<close>)
  then show ?thesis using assms(2) True by (simp add: klifts_def run_def deref_def next_need_def)
qed (use assms in \<open>simp add: klifts_def run_def deref_def\<close>)

section \<open>The simulator\<close>

definition os_ext :: "extra \<Rightarrow> os \<Rightarrow> os" where
  "os_ext x s = s\<lparr>kernel := kern_ext x (kernel s)\<rparr>"

lemma os_ext_sel [simp]: "kernel (os_ext x s) = kern_ext x (kernel s)" "cpus (os_ext x s) = cpus s" "ld (os_ext x s) = ld s"
    "bar (os_ext x s) = bar s" "all_loaded (os_ext x s) = all_loaded s" "avail_pid (os_ext x s) = avail_pid s"
  by (simp_all add: os_ext_def)

lemma os_ext_upd [simp]: "(os_ext x s)\<lparr>bar := b\<rparr> = os_ext x (s\<lparr>bar := b\<rparr>)" "(os_ext x s)\<lparr>ld := l\<rparr> = os_ext x (s\<lparr>ld := l\<rparr>)"
    "(os_ext x s)\<lparr>cpus := cs\<rparr> = os_ext x (s\<lparr>cpus := cs\<rparr>)" "(os_ext x s)\<lparr>all_loaded := v\<rparr> = os_ext x (s\<lparr>all_loaded := v\<rparr>)"
    "(os_ext x s)\<lparr>all_loaded := v, ld := l\<rparr> = os_ext x (s\<lparr>all_loaded := v, ld := l\<rparr>)"
    "(os_ext x s)\<lparr>kernel := kern_ext x K\<rparr> = os_ext x (s\<lparr>kernel := K\<rparr>)"
    "(os_ext x s)\<lparr>kernel := kern_ext x K, cpus := cs\<rparr> = os_ext x (s\<lparr>kernel := K, cpus := cs\<rparr>)"
    "(os_ext x s)\<lparr>kernel := kern_ext x K, ld := l\<rparr> = os_ext x (s\<lparr>kernel := K, ld := l\<rparr>)"
    "(os_ext x s)\<lparr>kernel := kern_ext x K, avail_pid := pd, ld := l\<rparr> = os_ext x (s\<lparr>kernel := K, avail_pid := pd, ld := l\<rparr>)"
  by (simp_all add: os_ext_def)

lemma os_ext_places [simp]: "at_slot (os_ext x s) i = at_slot s i" "at_end (os_ext x s) i = at_end s i"
    "resumed (os_ext x s) i = os_ext x (resumed s i)" "stopped (os_ext x s) i = os_ext x (stopped s i)"
  by (simp_all add: at_slot_def at_end_def resumed_def stopped_def)

text \<open>A processor between two instructions, and the loader, do not use the RAM.\<close>

lemma cpu_routine_ext:
  assumes "cpc c \<noteq> Exec"
  shows "cpu_routine slots dn (kern_ext x K) c = grow (\<lambda>(K, c). (kern_ext x K, c)) (cpu_routine slots dn K c)"
    and "cpu_routine slots dn K c = Inr (K', c') \<Longrightarrow> kram K' = kram K"
  using assms
   by (auto simp: cpu_routine_def rbind_assoc rbind_Inr_iff split_def split: cpu_pc.splits if_splits intro!: arg_cong [where f = "rbind _"])

lemma ld_routine_ext:
  shows "ld_routine cf fs fresh x0 j (os_ext x s) = grow (map_option (os_ext x)) (ld_routine cf fs fresh x0 j s)"
    and "ld_routine cf fs fresh x0 j s = Inr (Some s') \<Longrightarrow> kram (kernel s') = kram (kernel s)"
proof -
  let ?l = "ld s" and ?K = "kernel s"
  let ?i = "next_process ?l"
  have "ld_routine cf fs fresh x0 j (os_ext x s) = grow (map_option (os_ext x)) (ld_routine cf fs fresh x0 j s)
    \<and> (ld_routine cf fs fresh x0 j s = Inr (Some s') \<longrightarrow> kram (kernel s') = kram (kernel s))"
  proof (cases "lpc ?l = Ld_Top \<and> int ?i < num_processes cf \<or> lpc ?l = Ld_Wait")
    case False
    then show ?thesis by (auto simp: ld_routine_def Let_def split: ld_pc.split)
  next
    case True
    show ?thesis
    proof (cases "arr_get (ld_processes cf) ?i")
      case (Inl e)
      then show ?thesis using True by (auto simp: ld_routine_def Let_def)
    next
      case (Inr a)
      show ?thesis
      proof (cases "lpc ?l = Ld_Top")
        case top: True
        then have n: "int ?i < num_processes cf" using True by simp
        show ?thesis
        proof (cases "load x0 j (avail_pid s) (fs (path a))")
          case (Inl e)
          then show ?thesis using top n Inr by (simp add: ld_routine_def Let_def)
        next
          case r: (Inr r)
          then show ?thesis using top n Inr
            by (cases r; cases "ld_prio a") (auto simp: ld_routine_def Let_def split_def)
        qed
      next
        case wait: False
        show ?thesis
        proof (cases "start_time a")
          case None
          then show ?thesis using True wait Inr by (simp add: ld_routine_def Let_def)
        next
          case (Some t)
          then show ?thesis using True wait Inr
            by (auto simp: ld_routine_def Let_def rbind_assoc split_def rbind_Inr_iff intro!: arg_cong [where f = "rbind _"])
        qed
      qed
    qed
  qed
  then show "ld_routine cf fs fresh x0 j (os_ext x s) = grow (map_option (os_ext x)) (ld_routine cf fs fresh x0 j s)"
    "ld_routine cf fs fresh x0 j s = Inr (Some s') \<Longrightarrow> kram (kernel s') = kram (kernel s)" by blast+
qed

lemma cpu_exec_ext:
  assumes "ram_ok (kram K)" and "procs K (proc c) = Some b" and "next_need b \<le> left (kram K)" and "event_ok (Cpu_Run i b)"
    and "cpc c = Exec"
  shows "cpu_routine slots dn (kern_ext x K) c = grow (\<lambda>(K, c). (kern_ext x K, c)) (cpu_routine slots dn K c)"
    and "cpu_routine slots dn K c = Inr (K', c') \<Longrightarrow> ram_ok (kram K') \<and> left (kram K) \<le> left (kram K') + next_need b"
proof -
  have "klifts x (next_need b) (\<lambda>K. run K (proc c)) K" by (rule klifts_run) (use assms in simp_all)
  then show "cpu_routine slots dn (kern_ext x K) c = grow (\<lambda>(K, c). (kern_ext x K, c)) (cpu_routine slots dn K c)"
    "cpu_routine slots dn K c = Inr (K', c') \<Longrightarrow> ram_ok (kram K') \<and> left (kram K) \<le> left (kram K') + next_need b"
    using assms(5) by (cases "run K (proc c)"; force simp: klifts_def cpu_routine_def)+
qed

text \<open>The same configuration with a RAM of 8192 frames, and what that RAM lacks.\<close>

definition narrow :: "config \<Rightarrow> config" where
  "narrow cf = cf\<lparr>memramsz := 2097152\<rparr>"

definition remainder :: "config \<Rightarrow> extra" where
  "remainder cf = (replicate (unat (memramsz cf) - 2097152) 0, map word_of_nat [8192..<unat (memramsz cf) div 256], int (unat (memramsz cf)))"

lemma narrow_sel [simp]: "time_slot (narrow cf) = time_slot cf" "memramsz (narrow cf) = 2097152" "memswpsz (narrow cf) = memswpsz cf"
    "ld_routine (narrow cf) = ld_routine cf"
  by (simp_all add: narrow_def ld_routine_def fun_eq_iff Let_def split: ld_pc.split)

fun asks :: "os_event \<Rightarrow> nat" where
  "asks (Cpu_Run i b) = next_need b"
| "asks _ = 0"

lemma os_step_small:
  assumes st: "os_step (narrow cf) fs s e s'" and ok: "ram_ok (kram (kernel s))" "asks e \<le> left (kram (kernel s))" "event_ok e"
  shows "os_step cf fs (os_ext x s) e (os_ext x s')"
    and "ram_ok (kram (kernel s')) \<and> left (kram (kernel s)) \<le> left (kram (kernel s')) + asks e"
proof -
  have "os_step cf fs (os_ext x s) e (os_ext x s') \<and> ram_ok (kram (kernel s')) \<and> left (kram (kernel s)) \<le> left (kram (kernel s')) + asks e"
    using st
  proof cases
    case (cpu i K c)
    have n: "cpc (cpus s ! i) \<noteq> Exec" using cpu(4) by auto
    note cr = cpu_routine_ext [OF n, where slots = "time_slot cf" and dn = "all_loaded s" and K = "kernel s"]
    have "cpu_routine (time_slot cf) (all_loaded (os_ext x s)) (kernel (os_ext x s)) (cpus (os_ext x s) ! i) = Inr (kern_ext x K, c)"
      using cpu(5) cr(1) by simp
    from os_step.cpu [OF _ _ this, of fs] cpu(1-4) cr(2) [where K' = K and c' = c] cpu(5) ok show ?thesis by simp
  next
    case (exec i b K c)
    have a: "next_need b \<le> left (kram (kernel s))" "event_ok (Cpu_Run i b)" using ok(2,3) exec(1) by simp_all
    note cr = cpu_exec_ext [OF ok(1) exec(5) a exec(4), where slots = "time_slot cf" and dn = "all_loaded s"]
    have "cpu_routine (time_slot cf) (all_loaded (os_ext x s)) (kernel (os_ext x s)) (cpus (os_ext x s) ! i) = Inr (kern_ext x K, c)"
      using exec(6) cr(1) by simp
    from os_step.exec [OF _ _ _ this, of b fs] exec(1-5) cr(2) [where K' = K and c' = c] exec(6) ok show ?thesis by simp
  next
    case (load fresh x0 j)
    have "ld_routine cf fs fresh x0 j (os_ext x s) = Inr (Some (os_ext x s'))" using load(6) by (simp add: ld_routine_ext)
    from os_step.load [OF _ _ _ _ this] load ld_routine_ext(2) [where s = s and s' = s'] ok show ?thesis by simp
  next
    case (slot i b)
    from os_step.slot [of "os_ext x s" i b cf fs] slot ok show ?thesis by simp
  next
    case (wake i b)
    from os_step.wake [of "os_ext x s" i b cf fs] wake ok show ?thesis by simp
  next
    case (detach i b)
    from os_step.detach [of "os_ext x s" i b cf fs] detach ok show ?thesis by simp
  next
    case (timer b)
    from os_step.timer [of "os_ext x s" b cf fs] timer ok show ?thesis by simp
  next
    case (halt b)
    from os_step.halt [of "os_ext x s" b cf fs] halt ok show ?thesis by simp
  qed
  then show "os_step cf fs (os_ext x s) e (os_ext x s')"
    "ram_ok (kram (kernel s')) \<and> left (kram (kernel s)) \<le> left (kram (kernel s')) + asks e" by blast+
qed

lemma os_step_large:
  assumes st: "os_step cf fs (os_ext x s) e S'" and ok: "ram_ok (kram (kernel s))" "asks e \<le> left (kram (kernel s))" "event_ok e"
  obtains s' where "os_step (narrow cf) fs s e s'" "S' = os_ext x s'"
  using st
proof cases
  case (cpu i K c)
  have n: "cpc (cpus s ! i) \<noteq> Exec" using cpu(4) by auto
  obtain K' where r: "cpu_routine (time_slot cf) (all_loaded s) (kernel s) (cpus s ! i) = Inr (K', c)" "K = kern_ext x K'"
    using cpu(5) cpu_routine_ext(1) [OF n] by (auto simp: rbind_Inr_iff)
  show thesis
    by (rule that [of "s\<lparr>kernel := K', cpus := (cpus s)[i := c]\<rparr>"]) (use os_step.cpu [of i s "narrow cf" K' c fs] cpu(1-4) r in simp_all)
next
  case (exec i b K c)
  have a: "cpc (cpus s ! i) = Exec" "procs (kernel s) (proc (cpus s ! i)) = Some b" "next_need b \<le> left (kram (kernel s))"
      "event_ok (Cpu_Run i b)"
    using ok(2,3) exec(1,4,5) by simp_all
  obtain K' where r: "cpu_routine (time_slot cf) (all_loaded s) (kernel s) (cpus s ! i) = Inr (K', c)" "K = kern_ext x K'"
    using exec(6) cpu_exec_ext(1) [OF ok(1) a(2-4) a(1)] by (auto simp: rbind_Inr_iff)
  show thesis
    by (rule that [of "s\<lparr>kernel := K', cpus := (cpus s)[i := c]\<rparr>"]) (use os_step.exec [of i s b "narrow cf" K' c fs] exec(1-5) r in simp_all)
next
  case (load fresh x0 j)
  obtain s' where r: "ld_routine cf fs fresh x0 j s = Inr (Some s')" "S' = os_ext x s'"
    using load(6) by (auto simp: ld_routine_ext(1) rbind_Inr_iff)
  show thesis
    by (rule that [of s']) (use os_step.load [of s fresh x0 "narrow cf" fs j s'] load r in simp_all)
next
  case (slot i b)
  show thesis by (rule that [of "s\<lparr>bar := b\<rparr>"]) (use os_step.slot [of s i b "narrow cf" fs] slot in simp_all)
next
  case (wake i b)
  show thesis by (rule that [of "(resumed s i)\<lparr>bar := b\<rparr>"]) (use os_step.wake [of s i b "narrow cf" fs] wake in simp_all)
next
  case (detach i b)
  show thesis by (rule that [of "(stopped s i)\<lparr>bar := b\<rparr>"]) (use os_step.detach [of s i b "narrow cf" fs] detach in simp_all)
next
  case (timer b)
  show thesis by (rule that [of "s\<lparr>bar := b\<rparr>"]) (use os_step.timer [of s b "narrow cf" fs] timer in simp_all)
next
  case (halt b)
  show thesis by (rule that [of "s\<lparr>bar := b\<rparr>"]) (use os_step.halt [of s b "narrow cf" fs] halt in simp_all)
qed

text \<open>
  The frames asked for by the instructions of a run are at least those that were handed out, so what
  is left of the first 8192 is enough for the next instruction.
\<close>

definition frames_asked :: "os_event list \<Rightarrow> nat" where
  "frames_asked es = sum_list (map asks es)"

lemma run_small:
  assumes "os_run (narrow cf) fs s0 es s" and "ram_ok (kram (kernel s0))" and "frames_asked es \<le> left (kram (kernel s0))"
    and "\<forall>e \<in> set es. event_ok e"
  shows "os_run cf fs (os_ext x s0) es (os_ext x s) \<and> ram_ok (kram (kernel s))
    \<and> left (kram (kernel s0)) \<le> left (kram (kernel s)) + frames_asked es"
  using assms
proof (induction rule: os_run.induct)
  case start
  then show ?case by (simp add: os_run.start frames_asked_def)
next
  case (step es s' e s'')
  then have IH: "os_run cf fs (os_ext x s0) es (os_ext x s')" "ram_ok (kram (kernel s'))"
      "left (kram (kernel s0)) \<le> left (kram (kernel s')) + frames_asked es" and e: "event_ok e" "asks e + frames_asked es \<le> left (kram (kernel s0))"
    by (simp_all add: frames_asked_def)
  have "asks e \<le> left (kram (kernel s'))" using IH(3) e(2) by simp
  note st = os_step_small [OF step.hyps(2) IH(2) this e(1)]
  show ?case using os_run.step [OF IH(1) st(1)] st(2) IH(3) by (simp add: frames_asked_def)
qed

lemma run_large:
  assumes "os_run cf fs (os_ext x s0) es S" and "ram_ok (kram (kernel s0))" and "frames_asked es \<le> left (kram (kernel s0))"
    and "\<forall>e \<in> set es. event_ok e"
  shows "\<exists>s. os_run (narrow cf) fs s0 es s \<and> S = os_ext x s"
  using assms
proof (induction rule: os_run.induct)
  case start
  then show ?case using os_run.start by blast
next
  case (step es S' e S'')
  then obtain s' where s': "os_run (narrow cf) fs s0 es s'" "S' = os_ext x s'" by (auto simp: frames_asked_def)
  have e: "event_ok e" "asks e + frames_asked es \<le> left (kram (kernel s0))" "\<forall>e \<in> set es. event_ok e"
    using step.prems by (simp_all add: frames_asked_def)
  have "ram_ok (kram (kernel s'))" "asks e \<le> left (kram (kernel s'))"
    using run_small [OF s'(1) step.prems(1) _ e(3), of x] e(2) by simp_all
  then obtain s'' where "os_step (narrow cf) fs s' e s''" "S'' = os_ext x s''"
    using os_step_large [OF step.hyps(2) [unfolded s'(2)]] e(1) by blast
  then show ?case using os_run.step [OF s'(1)] by blast
qed

text \<open>At the start the first 8192 frames and their bytes are those of the smaller RAM.\<close>

lemma small_ram: "ram_ok (init_memphy uninit_memphy 2097152 True)" "left (init_memphy uninit_memphy 2097152 True) = 8192"
proof -
  have u: "unat (2097152 :: addr) = 2097152" by simp
  note b = init_memphy_ok [of 2097152 uninit_memphy True, unfolded u, simplified]
  have f: "map unat (free_fp_list (init_memphy uninit_memphy 2097152 True)) = [0..<8192]" using b by simp
  then have "length (map unat (free_fp_list (init_memphy uninit_memphy 2097152 True))) = 8192" by (simp only: length_upt)
  then show "left (init_memphy uninit_memphy 2097152 True) = 8192" by (simp add: left_def)
  have "set (map unat (free_fp_list (init_memphy uninit_memphy 2097152 True))) = {0..<8192}" unfolding f by simp
  then have "unat g < 8192" if "g \<in> set (free_fp_list (init_memphy uninit_memphy 2097152 True))" for g using that by auto
  then show "ram_ok (init_memphy uninit_memphy 2097152 True)" using b by (simp add: ram_ok_def mem_wf_def)
qed

lemma boot_large:
  assumes "2097152 \<le> unat (memramsz cf)" and "unat (memramsz cf) < 2 ^ 31"
  shows "boot cf = os_ext (remainder cf) (boot (narrow cf))"
proof -
  let ?n = "unat (memramsz cf)"
  have 1: "replicate ?n 0 = replicate 2097152 0 @ replicate (?n - 2097152) 0"
    using assms(1) by (simp add: replicate_add [symmetric])
  have d: "8192 \<le> ?n div 256" using div_le_mono [OF assms(1), of 256] by simp
  have 2: "[0..<?n div 256] = [0..<8192] @ [8192..<?n div 256]" using upt_add_eq_append [of 0 8192 "?n div 256 - 8192"] d by simp
  have s: "sint (ucast (memramsz cf) :: u32) = int ?n" "sint (ucast (2097152 :: addr) :: u32) = 2097152"
    using sint_small [OF assms(2)] by simp_all
  obtain m where m: "m = ?n div 256" by simp
  have q: "int ?n div 256 = int m" using zdiv_int [of ?n 256] by (simp add: m)
  have "init_memphy uninit_memphy (memramsz cf) True = ext (remainder cf) (init_memphy uninit_memphy 2097152 True)"
    unfolding init_memphy_def MEMPHY_format_def Let_def
    using d [folded m] by (simp add: s q ext_def remainder_def 1 2 [folded m] m [symmetric] PAGING_PAGESZ_def uninit_memphy_def del: of_nat_unat)
  then show ?thesis by (simp add: boot_def os_ext_def kern_ext_def narrow_def)
qed

section \<open>Properties\<close>

lemma cpu_fault_ext:
  assumes "ram_ok (kram K)"
    and ok: "cpc c = Exec \<Longrightarrow> procs K (proc c) = Some b \<and> next_need b \<le> left (kram K) \<and> event_ok (Cpu_Run 0 b)"
    and r: "returns (cpu_routine slots dn K c) (\<lambda>_. True)"
  shows "returns (cpu_routine slots dn (kern_ext x K) c) (\<lambda>_. True)"
proof (cases "cpc c = Exec")
  case True
  have "cpu_routine slots dn (kern_ext x K) c = grow (\<lambda>(K, c). (kern_ext x K, c)) (cpu_routine slots dn K c)"
    by (rule cpu_exec_ext(1) [OF assms(1)]) (use ok True in auto)
  then show ?thesis using r by (auto elim!: returnsE)
next
  case False
  then show ?thesis using r cpu_routine_ext(1) [OF False] by (auto elim!: returnsE)
qed

text \<open>
  C18. A RAM of more than 8192 frames, as two of the shipped configurations have. The field of a page
  table entry cannot name the frames after the first 8192, but as long as the executed instructions
  have asked for no more than 8192 frames, the runs of the simulator are exactly those with a RAM of
  8192 frames, with the rest of the RAM untouched: the memory invariants hold as for that one, and no
  processor's next step has a fault if its instruction keeps within the bound too. The instructions also
  keep to the limits of \<open>inst_ok\<close>.
\<close>

theorem large_ram_runs:
  assumes "2097152 \<le> unat (memramsz cf)" and "unat (memramsz cf) < 2 ^ 31" and "sizes_ok (narrow cf)"
    and "\<forall>e \<in> set es. event_ok e" and "frames_asked es \<le> 8192"
  shows "(os_run cf fs (boot cf) es S \<longleftrightarrow>
      (\<exists>s. os_run (narrow cf) fs (boot (narrow cf)) es s \<and> S = os_ext (remainder cf) s))
    \<and> (os_run cf fs (boot cf) es S \<longrightarrow>
        (\<exists>s. S = os_ext (remainder cf) s \<and> sys_inv (kern_mem (kernel s)))
        \<and> (\<forall>c \<in> set (cpus S). (\<forall>b. cpc c = Exec \<longrightarrow> procs (kernel S) (proc c) = Some b \<longrightarrow>
              event_ok (Cpu_Run 0 b) \<and> frames_asked es + next_need b \<le> 8192)
            \<longrightarrow> returns (cpu_routine (time_slot cf) (all_loaded S) (kernel S) c) (\<lambda>_. True)))"
proof -
  let ?x = "remainder cf" and ?b = "boot (narrow cf)"
  have b: "ram_ok (kram (kernel ?b))" "left (kram (kernel ?b)) = 8192" using small_ram by (simp_all add: boot_def)
  then have n: "frames_asked es \<le> left (kram (kernel ?b))" using assms(5) by simp
  have start: "boot cf = os_ext ?x ?b" by (rule boot_large [OF assms(1,2)])
  have large: "\<exists>s. os_run (narrow cf) fs ?b es s \<and> S = os_ext ?x s" if "os_run cf fs (boot cf) es S"
    using run_large [OF that [unfolded start] b(1) n assms(4)] .
  have small: "os_run cf fs (boot cf) es (os_ext ?x s)" "ram_ok (kram (kernel s))" "8192 \<le> left (kram (kernel s)) + frames_asked es"
      "os_inv (narrow cf) s"
    if "os_run (narrow cf) fs ?b es s" for s
    using run_small [OF that b(1) n assms(4), of ?x] start b(2) os_run_inv [OF that boot_inv [OF assms(3)] assms(4)] by simp_all
  have inv: "sys_inv (kern_mem (kernel s))" if "os_run (narrow cf) fs ?b es s" for s
    using small(4) [OF that] by (simp add: os_inv_def kern_inv_def)
  have fault: "returns (cpu_routine (time_slot cf) (all_loaded s) (kern_ext ?x (kernel s)) c) (\<lambda>_. True)"
    if s: "os_run (narrow cf) fs ?b es s" and c: "c \<in> set (cpus s)"
      and ok: "\<forall>b. cpc c = Exec \<longrightarrow> procs (kernel s) (proc c) = Some b \<longrightarrow> event_ok (Cpu_Run 0 b) \<and> frames_asked es + next_need b \<le> 8192" for s c
  proof -
    have r: "returns (cpu_routine (time_slot cf) (all_loaded s) (kernel s) c) (\<lambda>_. True)"
      using cpu_no_fault [OF small(4) [OF s] c] ok by simp
    show ?thesis
    proof (cases "cpc c = Exec")
      case True
      then obtain b where "procs (kernel s) (proc c) = Some b"
        using exec_block [OF small(4) [OF s] c] by blast
      then show ?thesis using ok small(3) [OF s] True by (intro cpu_fault_ext [OF small(2) [OF s] _ r, of b]) simp
    qed (rule cpu_fault_ext [OF small(2) [OF s] _ r], simp)
  qed
  show ?thesis using large small(1) inv fault by auto
qed

definition large_cf :: config where
  "large_cf = demo_cf\<lparr>memramsz := 268435456\<rparr>"

theorem large_ram_runs_witness:
  "\<exists>S. os_run large_cf demo_fs (boot large_cf) [Loader_Step, Loader_Step, Cpu_Step 0] S
    \<and> (\<exists>s. S = os_ext (remainder large_cf) s \<and> sys_inv (kern_mem (kernel s)))"
proof -
  let ?es = "[Loader_Step, Loader_Step, Cpu_Step 0]"
  have n: "narrow large_cf = demo_cf\<lparr>memramsz := 2097152\<rparr>" by (simp add: narrow_def large_cf_def)
  have ok: "sizes_ok (narrow large_cf)" by (simp add: n sizes_ok_def demo_cf_def)
  then obtain s where s: "os_run (narrow large_cf) demo_fs (boot (narrow large_cf)) ?es s" using demo_run_ram [of 2097152] n by auto
  have sz: "2097152 \<le> unat (memramsz large_cf)" "unat (memramsz large_cf) < 2 ^ 31" by (simp_all add: large_cf_def)
  have es: "\<forall>e \<in> set ?es. event_ok e" "frames_asked ?es \<le> 8192" by (simp_all add: frames_asked_def)
  show ?thesis using large_ram_runs [OF sz ok es, of demo_fs "os_ext (remainder large_cf) s"] s by blast
qed

end
