(* ===== verification/Spec2Isabelle.thy ===== *)
theory Spec2Isabelle
  imports Libmem_Props Paging_Props Os_Props Frame_List Dump Print_Debug Segment_Main Mm32 Sched_Single Os_Slots Config_Fixed Large_Ram
begin

text \<open>
  A verification development of the operating system simulator in \<^verbatim>\<open>src/\<close>: a multi-level priority
  scheduler, paged virtual memory with swapping, system calls, a loader of process files and a timer
  that keeps the threads in step. The configuration is that of \<^verbatim>\<open>include/os-cfg.h\<close>: \<open>MLQ_SCHED\<close>,
  \<open>MM_PAGING\<close> and \<open>MM64\<close> are defined, \<open>MM_FIXED_MEMSZ\<close> is not.

  \<^bold>\<open>The program and its model.\<close> Each part of the program has a theory, in the order in which the
  parts call each other:

  \<^item> \<open>Prelude\<close>: the C integer types as words; a run of C code is \<open>Inr\<close> of what it returns with the
    state it leaves, or \<open>Inl\<close> of a fault where C has undefined behaviour (null and dangling
    pointers, indices out of bounds, unwritten storage, numbers that do not fit); checked arrays.
  \<^item> \<open>Os_Types\<close>: the structures of \<^verbatim>\<open>include/common.h\<close> and \<^verbatim>\<open>include/os-mm.h\<close> as records. Process
    control blocks live in a heap, because the queues share them by pointer; linked lists are lists.
  \<^item> \<open>Proc_Queue\<close> (\<^verbatim>\<open>queue.c\<close>), \<open>Sched\<close> and \<open>Sched_Fair\<close> (\<^verbatim>\<open>sched.c\<close>): the bounded array queue, with
    a locale for the contract of a queue that the array implements, and the multi-level scheduler.
    One call under \<open>queue_lock\<close> is one step.
  \<^item> \<open>Paging_Bits\<close> (\<^verbatim>\<open>bitops.h\<close>, the macros of \<^verbatim>\<open>mm.h\<close> and \<^verbatim>\<open>mm64.h\<close>), \<open>Memphy\<close> (\<^verbatim>\<open>mm-memphy.c\<close>),
    \<open>Pagetable\<close> (\<^verbatim>\<open>mm64.c\<close>), \<open>Paging\<close> and \<open>Paging_Props\<close> (demand paging and the choice of a victim in
    \<^verbatim>\<open>libmem.c\<close>): page table entries at their width, devices as byte arrays with a list of free
    frames, the page table of a process as an array of entries.
  \<^item> \<open>Page_Range\<close> (the range functions of \<^verbatim>\<open>mm64.c\<close>), \<open>Vm_Area\<close> (\<^verbatim>\<open>mm-vm.c\<close> and the regions of
    \<^verbatim>\<open>libmem.c\<close>), \<open>Libmem\<close> and \<open>Libmem_Props\<close> (the library calls), \<open>Isolation\<close> (several processes
    on the shared devices), \<open>Kmem\<close> (kernel allocation and the copies between the two spaces, with a
    locale for a loop that moves bytes, interpreted for both directions).
  \<^item> \<open>Syscall\<close> (\<^verbatim>\<open>libstd.c\<close>, \<^verbatim>\<open>syscall.c\<close>, \<^verbatim>\<open>sys_mem.c\<close>): the record \<open>kern\<close> joins the blocks, the scheduler
    and the devices; a call finds its process in the queues. \<open>Cpu\<close> (\<^verbatim>\<open>cpu.c\<close>): one instruction.
  \<^item> \<open>Timer\<close> (\<^verbatim>\<open>timer.c\<close>): the timer thread as a function that makes one step, and the threads at the
    barrier as the step relation \<open>barrier_step\<close> whose steps are the critical sections.
  \<^item> \<open>Scan\<close> (the input functions of C that the program uses), \<open>Loader\<close> (\<^verbatim>\<open>loader.c\<close>), \<open>Config\<close>
    (\<open>read_config\<close> of \<^verbatim>\<open>os.c\<close>): files are strings; what \<open>malloc\<close> leaves in memory is a parameter.
  \<^item> \<open>Os\<close> (\<^verbatim>\<open>os.c\<close>): the processor thread \<open>cpu_routine\<close> and the loader thread \<open>ld_routine\<close> as functions
    that make one step, \<open>boot\<close> and \<open>main_start\<close> for \<open>main\<close>, and \<open>os_step\<close>, which interleaves the steps of
    all threads with those of the barrier; \<open>os_run\<close> is a run with the list of its events.
  \<^item> \<open>Frame_List\<close>: the free frames once more, as the linked nodes \<open>framephy_struct\<close> in memory; a request
    for a frame is a function that makes one statement, and \<open>request_step\<close> interleaves the requests
    of several threads, of which each takes \<open>mmvm_lock\<close> or does not.
  \<^item> \<open>Dump\<close> (\<^verbatim>\<open>MEMPHY_dump\<close> and the print functions of \<^verbatim>\<open>mm64.c\<close>) and \<open>Print_Debug\<close>
    (\<^verbatim>\<open>print_debug.c\<close>, and the page directories of the kernel that \<open>ld_routine\<close> builds): a printer is a
    function that gives its text, or a fault. \<open>Os_Log\<close>: what the threads and the library calls print in
    a run, as lines; \<open>log_run\<close> is a run with all its output. \<open>Os_Conserve\<close>: the messages on the error
    output; \<open>full_run\<close> is a run with both outputs. \<open>Os_Program\<close>: the
    instructions that a run executes for each process. \<open>Os_Slots\<close>: a run counted along, for time slots
    and time slices. \<open>Large_Ram\<close>: the simulator with more RAM than a
    page table entry can address, as two of the shipped configurations have it.
  \<^item> Code of other configurations: \<open>Segment\<close> (\<^verbatim>\<open>mem.c\<close> and the functions of \<^verbatim>\<open>cpu.c\<close> that use it) and
    \<open>Segment_Main\<close> (\<^verbatim>\<open>paging.c\<close>, the program that tests it), \<open>Mm32\<close> (\<^verbatim>\<open>mm.c\<close>), \<open>Sched_Single\<close>
    (\<^verbatim>\<open>sched.c\<close> without \<open>MLQ_SCHED\<close>) and \<open>Config_Fixed\<close> (\<open>read_config\<close> with \<open>MM_FIXED_MEMSZ\<close>).

  \<^bold>\<open>What is shown.\<close> The scheduler keeps its invariant under every interleaving of its
  operations, serves the first non-empty level after its cursor, and serves every non-empty level after at
  most 9870 dispatches; within a level it is not fair. A write to a variable changes that byte and no other,
  through every combination of page faults, evictions and swapping, and is read back; an allocation is
  disjoint from all others and address space is neither lost nor used twice, except that an allocation into a
  slot in use loses its region; no process changes a byte of another. An instruction within the limits given
  below has no fault, moves the program counter by one and touches only its own process. The timer is a
  barrier that every device leaves after a bounded number of steps of the others. In every run of the whole
  simulator whose instructions keep to these limits, a process is at one place only, no processor has a fault,
  a process keeps its processor for exactly its time slice unless it ends, and the work of a slot ends in at
  most four steps; in every run at all, a processor runs at most one instruction in a slot. The pointers that
  the scheduler and the processors hold lead to blocks, tables and queues of the shape the code indexes
  (within the limits again, as are the statements below on the life, the programs and the output of processes
  and on a large RAM). A process that was loaded and has not finished is in exactly one place, or a message
  has reported that a full queue dropped it. The instructions executed for a process, across all preemptions
  and processors, are those of its file, in order and each once, and a process whose block is gone has
  executed all of them. A RAM that is too large for page table entries makes no difference while its first
  8192 frames last. Files in the formats of the shipped ones are read back exactly. The linked nodes of free
  frames refine the lists that the other theories use, and under the lock requests are served in order in
  every interleaving of their statements. The output of a run tells the life of every process in order. Serial
  and random access devices answer alike, a dump determines the content of a device, the 32-bit module writes
  the same entries for pages in RAM, and the single queue loses no process. Where the code does not do what it
  means to, a theorem shows what it does instead: the frames that page faults leak, the victims lost when swap
  is full, the area of which only a sixteenth is mapped, the addresses that are the same byte, the name buffer
  that is overrun, the RAM without frames that a build with \<open>MM_FIXED_MEMSZ\<close> has, the processor
  that never stops, and the read path, which takes no lock, so that a node of the frame list is freed twice.

  \<^bold>\<open>Bounds.\<close> The memory theorems hold for devices that a page table entry can address (at
  most 8192 frames of RAM and 2097152 of swap; at least two pages each) and for areas up to
  \<open>2 ^ 22\<close>, the limit of the page number field; \<open>large_ram_runs\<close> carries them over
  to a RAM of up to \<open>2 ^ 31\<close> bytes for runs whose instructions ask for at most 8192 frames in
  all. The theorems about one instruction and those about runs of the simulator that rest on the memory
  invariant hold for instructions within the limits of \<open>inst_ok\<close> (\<open>event_ok\<close> for the
  events of a run, \<open>next_ok\<close> for the next ones): the memory-mapping system call is left out,
  because it can clear page table entries that paging relies on; so are kernel allocations into one of the
  registers 10 to 29, which write past the array of registers, and allocations that take the area of the
  process past \<open>2 ^ 22\<close>. The queues hold \<open>MAX_QUEUE_SIZE\<close> processes, so nothing is
  dropped when at most 50 are loaded; the number of processes is below \<open>2 ^ 31\<close>, as its C type
  has it, so that identifiers do not wrap around. The loops of the code are structural or have a measure, so
  no fuel is used; \<open>cpu_slot\<close> counts the steps of a processor, and four are shown to be enough.

  \<^bold>\<open>Not modelled.\<close> A call of the memory library is one step of the simulator: it runs under
  \<open>mmvm_lock\<close>, except for the read path; of that path the requests for frames are interleaved with other
  calls, in \<open>Frame_List\<close>, and the rest is not. The message about an endless list of pages has its
  condition (\<open>victim_err\<close>) and is not part of a run. Memory that \<open>malloc\<close> is asked for is always there.
  The scripts of the repository (\<^verbatim>\<open>gantt.py\<close>, \<^verbatim>\<open>run.sh\<close>) are not C code.
\<close>

end
